(* ===== verification/Prelude.thy ===== *)
theory Prelude
  imports Main "HOL-Library.Word"
begin

text \<open>
  Shared vocabulary of the development: the machine integers of the source
  (\<^verbatim>\<open>std::int64_t\<close> with its two's complement wrap-around, \<^verbatim>\<open>std::size_t\<close> as a 64-bit
  word), the option results of loops that may not return, the generic list lemmas the
  components use, and the simulation contract of event machines.
\<close>

section \<open>Lemma collections\<close>

named_theorems wire_simps \<open>evaluation of the wire tokens and the text helpers\<close>
named_theorems book_simps \<open>unfolding of the order-book primitives\<close>
named_theorems frame_simps \<open>fields a book operation leaves alone\<close>

section \<open>Signed 64-bit integers\<close>

text \<open>
  A value of type \<^verbatim>\<open>std::int64_t\<close> is an \<open>int\<close> in the range of the type, and every addition
  and subtraction of the source goes through \<open>wrap64\<close>. (Signed overflow is undefined in
  C++; the model gives it the two's complement result that the compiled code has.)
\<close>

abbreviation int64_min :: int where
  "int64_min \<equiv> - 9223372036854775808"

abbreviation int64_max :: int where
  "int64_max \<equiv> 9223372036854775807"

definition int64 :: "int \<Rightarrow> bool" where
  "int64 x \<longleftrightarrow> int64_min \<le> x \<and> x \<le> int64_max"

definition wrap64 :: "int \<Rightarrow> int" where
  "wrap64 x = (x + 9223372036854775808) mod 18446744073709551616 - 9223372036854775808"

lemma int64_bounds: "int64 x \<Longrightarrow> int64_min \<le> x" "int64 x \<Longrightarrow> x \<le> int64_max"
  by (simp_all add: int64_def)

lemma int64I [intro]: "int64_min \<le> x \<Longrightarrow> x \<le> int64_max \<Longrightarrow> int64 x"
  by (simp add: int64_def)

lemma int64_wrap64 [simp]: "int64 (wrap64 x)"
proof -
  have "0 \<le> (x + 9223372036854775808) mod 18446744073709551616"
    and "(x + 9223372036854775808) mod 18446744073709551616 < 18446744073709551616"
    by simp_all
  then show ?thesis by (simp add: int64_def wrap64_def)
qed

lemma wrap64_id [simp]: "int64 x \<Longrightarrow> wrap64 x = x"
  by (simp add: int64_def wrap64_def)

lemma wrap64_range: "int64_min \<le> x \<Longrightarrow> x \<le> int64_max \<Longrightarrow> wrap64 x = x"
  by (simp add: int64_def)

lemma wrap64_0 [simp]: "wrap64 0 = 0"
  by (simp add: wrap64_range)

lemma wrap64_cong: "x mod 18446744073709551616 = y mod 18446744073709551616 \<Longrightarrow> wrap64 x = wrap64 y"
  unfolding wrap64_def by (subst mod_add_cong [OF _ refl, of x _ y]) simp_all

lemma wrap64_mod: "wrap64 x mod 18446744073709551616 = x mod 18446744073709551616"
  unfolding wrap64_def by (simp add: mod_diff_left_eq)

lemma wrap64_add_left [simp]: "wrap64 (wrap64 x + y) = wrap64 (x + y)"
  by (rule wrap64_cong) (rule mod_add_cong [OF wrap64_mod refl])

lemma wrap64_add_right [simp]: "wrap64 (x + wrap64 y) = wrap64 (x + y)"
  using wrap64_add_left [of y x] by (simp add: add.commute)

lemma wrap64_diff_left [simp]: "wrap64 (wrap64 x - y) = wrap64 (x - y)"
  by (rule wrap64_cong) (rule mod_diff_cong [OF wrap64_mod refl])

text \<open>A sum that does not wrap downwards is never below its wrapped value: wrapping loses quantity.\<close>

lemma wrap64_le: "int64_min \<le> x \<Longrightarrow> wrap64 x \<le> x"
proof (cases "x \<le> int64_max")
  case False
  have "wrap64 x \<le> int64_max"
    using int64_wrap64 [of x] by (simp add: int64_def)
  with False show ?thesis by simp
qed (simp add: wrap64_range)

section \<open>Lists\<close>

lemma sum_list_nonneg_map: "(\<And>x. x \<in> set xs \<Longrightarrow> (0::int) \<le> f x) \<Longrightarrow> 0 \<le> sum_list (map f xs)"
  by (induction xs) auto

lemma list_all2_split_at:
  assumes "list_all2 P xs ys" "x \<in> set xs"
  obtains xs1 xs2 ys1 y ys2
  where "xs = xs1 @ x # xs2" "ys = ys1 @ y # ys2"
    "list_all2 P xs1 ys1" "P x y" "list_all2 P xs2 ys2"
proof -
  from \<open>x \<in> set xs\<close> obtain xs1 xs2 where xs: "xs = xs1 @ x # xs2"
    by (meson split_list)
  with assms(1) obtain ys1 y ys2
    where "ys = ys1 @ y # ys2" "list_all2 P xs1 ys1" "P x y" "list_all2 P xs2 ys2"
    by (auto simp: list_all2_append1 list_all2_Cons1)
  with xs show ?thesis by (rule that)
qed

lemma span_all:
  "list_all P xs \<Longrightarrow> takeWhile P xs = xs" "list_all P xs \<Longrightarrow> dropWhile P xs = []"
  "list_all P xs \<Longrightarrow> takeWhile P (xs @ ys) = xs @ takeWhile P ys"
  "list_all P xs \<Longrightarrow> dropWhile P (xs @ ys) = dropWhile P ys"
  by (induction xs) auto

lemma dropWhile_hd: "xs = [] \<or> \<not> P (hd xs) \<Longrightarrow> dropWhile P xs = xs"
  by (cases xs) auto

lemma dropWhile_append_some: "\<not> list_all P xs \<Longrightarrow> dropWhile P (xs @ ys) = dropWhile P xs @ ys"
  by (induction xs) auto

lemma list_all_rev [simp]: "list_all P (rev xs) = list_all P xs"
  by (simp add: list_all_iff)

section \<open>Simulation of event machines\<close>

text \<open>
  The contract between a detailed machine and its specification: one event of the detailed machine
  returns, keeps the representation and appends to its output what the specification emits.
  Then so does a sequence of events.
\<close>

locale event_simulation =
  fixes cstep :: "'c \<Rightarrow> 'e \<Rightarrow> 'c option" and astep :: "'a \<Rightarrow> 'e \<Rightarrow> 'o list \<times> 'a"
    and crun :: "'c \<Rightarrow> 'e list \<Rightarrow> 'c option" and arun :: "'a \<Rightarrow> 'e list \<Rightarrow> 'o list \<times> 'a"
    and rep :: "'c \<Rightarrow> 'a \<Rightarrow> bool" and emitted :: "'c \<Rightarrow> 'o list" and admissible :: "'e \<Rightarrow> bool"
  assumes crun_Nil: "crun c [] = Some c"
    and crun_Cons: "crun c (e # es) = Option.bind (cstep c e) (\<lambda>c'. crun c' es)"
    and arun_Nil: "arun a [] = ([], a)"
    and arun_Cons: "arun a (e # es) =
      (case astep a e of (evs, a') \<Rightarrow> (case arun a' es of (evs', a'') \<Rightarrow> (evs @ evs', a'')))"
    and step_simulates: "rep c a \<Longrightarrow> admissible e \<Longrightarrow>
      \<exists>c'. cstep c e = Some c' \<and> rep c' (snd (astep a e)) \<and> emitted c' = emitted c @ fst (astep a e)"
begin

lemma run_simulates:
  assumes "rep c a" "list_all admissible es"
  shows "\<exists>c'. crun c es = Some c' \<and> rep c' (snd (arun a es)) \<and> emitted c' = emitted c @ fst (arun a es)"
  using assms
proof (induction es arbitrary: c a)
  case (Cons e es)
  obtain c1 where c1: "cstep c e = Some c1" "rep c1 (snd (astep a e))" "emitted c1 = emitted c @ fst (astep a e)"
    using step_simulates [OF Cons.prems(1), of e] Cons.prems(2) by auto
  with Cons.IH [OF c1(2)] Cons.prems(2) show ?case by (auto simp: crun_Cons arun_Cons split: prod.splits)
qed (simp add: crun_Nil arun_Nil)

lemma run_reaches:
  assumes "rep c a" "list_all admissible es" "crun c es = Some c'"
  shows "rep c' (snd (arun a es))" "emitted c' = emitted c @ fst (arun a es)"
  using run_simulates [OF assms(1,2)] assms(3) by simp_all

end

text \<open>An invariant of the specification can be carried along with the representation.\<close>

locale event_simulation_inv = event_simulation +
  fixes inv
  assumes inv_step: "inv a \<Longrightarrow> admissible e \<Longrightarrow> inv (snd (astep a e))"

sublocale event_simulation_inv \<subseteq> with_inv: event_simulation cstep astep crun arun "\<lambda>c a. rep c a \<and> inv a" emitted admissible
  by unfold_locales (use crun_Nil crun_Cons arun_Nil arun_Cons step_simulates inv_step in auto)

end
