(* ===== verification/Spsc_Concurrent.thy ===== *)
theory Spsc_Concurrent
  imports Spsc_Queue
begin

text \<open>
  The two threads of the ring buffer, one atomic access at a time. The producer loads its own
  head, loads the tail with acquire, writes the slot and stores the head with release; the
  consumer does the same with the roles exchanged. Each thread sees the other's index through
  a view that may lag behind: a view moves to the current index at any time, never back, which
  is what an acquire load of a location with a single writer can return.
\<close>

datatype 'a producer_t =
    P_idle
  | P_check 'a "64 word"
  | P_write 'a "64 word"
  | P_publish 'a "64 word"

datatype 'a consumer_t =
    C_idle
  | C_check "64 word"
  | C_read "64 word"
  | C_release "64 word" 'a

record 'a spsc_system =
  shared :: "'a spsc_queue_t"
  producer :: "'a producer_t"
  consumer :: "'a consumer_t"
  tail_view :: "64 word"
  head_view :: "64 word"
  accepted :: "'a list"
  delivered :: "'a list"

definition spsc_system_init :: "64 word \<Rightarrow> 'a \<Rightarrow> 'a spsc_system" where
  "spsc_system_init capacity d =
     \<lparr>shared = spsc_init capacity d, producer = P_idle, consumer = C_idle, tail_view = 0, head_view = 0,
      accepted = [], delivered = []\<rparr>"

text \<open>
  The next atomic access of the producer, whose caller wants to push \<open>value\<close>, and whether \<^verbatim>\<open>try_push\<close> returns true
  with it; the next access of the consumer, and what \<^verbatim>\<open>try_pop\<close> returns with it.
\<close>

definition producer_access :: "64 word \<Rightarrow> 'a \<Rightarrow> 'a spsc_system \<Rightarrow> bool \<times> 'a spsc_system" where
  "producer_access capacity value s =
     (case producer s of
        P_idle \<Rightarrow> (False, s\<lparr>producer := P_check value (head_index (shared s))\<rparr>)
      | P_check v h \<Rightarrow>
          (False, s\<lparr>producer := if (h + 1) AND spsc_mask capacity = tail_view s then P_idle else P_write v h\<rparr>)
      | P_write v h \<Rightarrow>
          (False, s\<lparr>producer := P_publish v h,
             shared := (shared s)\<lparr>ring_slots := (ring_slots (shared s))[unat h := v]\<rparr>\<rparr>)
      | P_publish v h \<Rightarrow>
          (True, s\<lparr>producer := P_idle, accepted := accepted s @ [v],
             shared := (shared s)\<lparr>head_index := (h + 1) AND spsc_mask capacity\<rparr>\<rparr>))"

definition consumer_access :: "64 word \<Rightarrow> 'a spsc_system \<Rightarrow> 'a option \<times> 'a spsc_system" where
  "consumer_access capacity s =
     (case consumer s of
        C_idle \<Rightarrow> (None, s\<lparr>consumer := C_check (tail_index (shared s))\<rparr>)
      | C_check t \<Rightarrow> (None, s\<lparr>consumer := if t = head_view s then C_idle else C_read t\<rparr>)
      | C_read t \<Rightarrow> (None, s\<lparr>consumer := C_release t (ring_slots (shared s) ! unat t)\<rparr>)
      | C_release t v \<Rightarrow>
          (Some v, s\<lparr>consumer := C_idle, delivered := delivered s @ [v],
             shared := (shared s)\<lparr>tail_index := (t + 1) AND spsc_mask capacity\<rparr>\<rparr>))"

text \<open>A view catches up with the index it is a view of.\<close>

definition see_tail :: "'a spsc_system \<Rightarrow> 'a spsc_system" where
  "see_tail s = s\<lparr>tail_view := tail_index (shared s)\<rparr>"

definition see_head :: "'a spsc_system \<Rightarrow> 'a spsc_system" where
  "see_head s = s\<lparr>head_view := head_index (shared s)\<rparr>"

inductive spsc_step :: "64 word \<Rightarrow> 'a spsc_system \<Rightarrow> 'a spsc_system \<Rightarrow> bool" for capacity where
  produce: "producer_access capacity v s = (b, s') \<Longrightarrow> spsc_step capacity s s'"
| consume: "consumer_access capacity s = (r, s') \<Longrightarrow> spsc_step capacity s s'"
| view_tail: "spsc_step capacity s (see_tail s)"
| view_head: "spsc_step capacity s (see_head s)"

section \<open>The invariant\<close>

text \<open>
  In terms of the numbers \<open>n\<close> of accepted and \<open>m\<close> of delivered elements: the indices are \<open>n\<close>
  and \<open>m\<close> modulo the capacity, the views are earlier numbers \<open>ns\<close> and \<open>ms\<close>, and a thread past
  its check knows that there is room or an element.
\<close>

definition ring_inv :: "64 word \<Rightarrow> 'a spsc_system \<Rightarrow> nat \<Rightarrow> nat \<Rightarrow> bool" where
  "ring_inv capacity s ms ns \<longleftrightarrow>
     (let q = shared s; n = length (accepted s); m = length (delivered s); c = unat capacity
      in unat (head_index q) = n mod c \<and> unat (tail_index q) = m mod c \<and> length (ring_slots q) = c \<and>
         unat (tail_view s) = ms mod c \<and> unat (head_view s) = ns mod c \<and>
         ms \<le> m \<and> m \<le> ns \<and> ns \<le> n \<and> n < ms + c \<and>
         delivered s = take m (accepted s) \<and>
         (\<forall>i. m \<le> i \<and> i < n \<longrightarrow> ring_slots q ! (i mod c) = accepted s ! i))"

definition producer_inv :: "64 word \<Rightarrow> 'a spsc_system \<Rightarrow> nat \<Rightarrow> bool" where
  "producer_inv capacity s ms \<longleftrightarrow>
     (let q = shared s; n = length (accepted s); c = unat capacity
      in case producer s of
           P_idle \<Rightarrow> True
         | P_check v h \<Rightarrow> h = head_index q
         | P_write v h \<Rightarrow> h = head_index q \<and> Suc n < ms + c
         | P_publish v h \<Rightarrow> h = head_index q \<and> Suc n < ms + c \<and> ring_slots q ! (n mod c) = v)"

definition consumer_inv :: "64 word \<Rightarrow> 'a spsc_system \<Rightarrow> nat \<Rightarrow> bool" where
  "consumer_inv capacity s ns \<longleftrightarrow>
     (let q = shared s; m = length (delivered s)
      in case consumer s of
           C_idle \<Rightarrow> True
         | C_check t \<Rightarrow> t = tail_index q
         | C_read t \<Rightarrow> t = tail_index q \<and> m < ns
         | C_release t v \<Rightarrow> t = tail_index q \<and> m < ns \<and> v = accepted s ! m)"

definition spsc_inv :: "64 word \<Rightarrow> 'a spsc_system \<Rightarrow> bool" where
  "spsc_inv capacity s \<longleftrightarrow>
     (\<exists>ms ns. ring_inv capacity s ms ns \<and> producer_inv capacity s ms \<and> consumer_inv capacity s ns)"

lemmas inv_defs = ring_inv_def producer_inv_def consumer_inv_def Let_def

lemma spsc_inv_init: "valid_capacity capacity \<Longrightarrow> spsc_inv capacity (spsc_system_init capacity d)"
  using valid_capacity_ge [of capacity]
  by (auto simp: spsc_inv_def inv_defs spsc_system_init_def spsc_init_def intro!: exI [of _ 0])

lemma spsc_inv_intro:
  "ring_inv capacity s ms ns \<Longrightarrow> producer_inv capacity s ms \<Longrightarrow> consumer_inv capacity s ns \<Longrightarrow> spsc_inv capacity s"
  by (auto simp: spsc_inv_def)

text \<open>The steps that need an argument, one lemma each.\<close>

lemma push_room_inv:
  assumes v: "valid_capacity capacity" and inv: "ring_inv capacity s ms ns" "producer_inv capacity s ms" "consumer_inv capacity s ns"
    and step: "producer s = P_check u h" "(h + 1) AND spsc_mask capacity \<noteq> tail_view s"
  shows "spsc_inv capacity (s\<lparr>producer := P_write u h\<rparr>)"
proof -
  have "Suc (length (accepted s)) \<noteq> ms + unat capacity"
  proof
    assume full: "Suc (length (accepted s)) = ms + unat capacity"
    have "unat ((h + 1) AND spsc_mask capacity) = Suc (length (accepted s)) mod unat capacity"
      using step(1) inv by (simp add: next_index [OF v] inv_defs mod_Suc_eq)
    then have "unat ((h + 1) AND spsc_mask capacity) = unat (tail_view s)"
      using inv(1) by (simp add: full inv_defs)
    with step(2) show False by (simp add: word_unat_eq_iff)
  qed
  with step(1) inv show ?thesis
    by (intro spsc_inv_intro [of _ _ ms ns]) (simp_all add: inv_defs split: producer_t.splits consumer_t.splits)
qed

lemma push_write_inv:
  assumes v: "valid_capacity capacity" and inv: "ring_inv capacity s ms ns" "producer_inv capacity s ms" "consumer_inv capacity s ns"
    and step: "producer s = P_write u h"
  shows "spsc_inv capacity (s\<lparr>producer := P_publish u h,
    shared := (shared s)\<lparr>ring_slots := (ring_slots (shared s))[unat h := u]\<rparr>\<rparr>)"
proof -
  let ?n = "length (accepted s)" and ?C = "unat capacity" and ?slots = "(ring_slots (shared s))[unat h := u]"
  have h: "unat h = ?n mod ?C" "Suc ?n < ms + ?C" using step inv(1,2) by (simp_all add: inv_defs)
  have old: "?slots ! (i mod ?C) = accepted s ! i" if "length (delivered s) \<le> i" "i < ?n" for i
  proof -
    have "i mod ?C \<noteq> ?n mod ?C" using that h(2) inv(1) by (intro mod_neq) (simp_all add: inv_defs)
    with that inv(1) h(1) show ?thesis by (simp add: inv_defs)
  qed
  have new: "?slots ! (?n mod ?C) = u" using h(1) inv(1) valid_capacity_ge [OF v] by (simp add: inv_defs)
  show ?thesis using step inv h(2) old new
    by (intro spsc_inv_intro [of _ _ ms ns]) (auto simp: inv_defs split: producer_t.splits consumer_t.splits)
qed

lemma push_publish_inv:
  assumes v: "valid_capacity capacity" and inv: "ring_inv capacity s ms ns" "producer_inv capacity s ms" "consumer_inv capacity s ns"
    and step: "producer s = P_publish u h"
  shows "spsc_inv capacity (s\<lparr>producer := P_idle, accepted := accepted s @ [u],
    shared := (shared s)\<lparr>head_index := (h + 1) AND spsc_mask capacity\<rparr>\<rparr>)"
proof -
  let ?n = "length (accepted s)" and ?C = "unat capacity"
  have "unat ((h + 1) AND spsc_mask capacity) = Suc ?n mod ?C" "Suc ?n < ms + ?C" "ring_slots (shared s) ! (?n mod ?C) = u"
    using step inv(1,2) by (simp_all add: next_index [OF v] inv_defs mod_Suc_eq)
  then show ?thesis using step inv
    by (intro spsc_inv_intro [of _ _ ms ns])
      (auto simp: inv_defs nth_append less_Suc_eq split: producer_t.splits consumer_t.splits)
qed

lemma pop_release_inv:
  assumes v: "valid_capacity capacity" and inv: "ring_inv capacity s ms ns" "producer_inv capacity s ms" "consumer_inv capacity s ns"
    and step: "consumer s = C_release t u"
  shows "spsc_inv capacity (s\<lparr>consumer := C_idle, delivered := delivered s @ [u],
    shared := (shared s)\<lparr>tail_index := (t + 1) AND spsc_mask capacity\<rparr>\<rparr>)"
proof -
  let ?m = "length (delivered s)"
  have t: "unat ((t + 1) AND spsc_mask capacity) = Suc ?m mod unat capacity" "?m < ns" "u = accepted s ! ?m"
    using step inv(1,3) by (simp_all add: next_index [OF v] inv_defs mod_Suc_eq)
  have "delivered s @ [u] = take (Suc ?m) (accepted s)"
    using t(2,3) inv(1) by (simp add: inv_defs take_Suc_conv_app_nth)
  then show ?thesis using step inv t
    by (intro spsc_inv_intro [of _ _ ms ns]) (auto simp: inv_defs split: producer_t.splits consumer_t.splits)
qed

lemma producer_access_inv:
  assumes v: "valid_capacity capacity" and "producer_access capacity v s = (b, s')" "spsc_inv capacity s"
  shows "spsc_inv capacity s'"
proof -
  from assms(3) obtain ms ns where inv: "ring_inv capacity s ms ns" "producer_inv capacity s ms"
    "consumer_inv capacity s ns" by (auto simp: spsc_inv_def)
  show ?thesis
  proof (cases "producer s")
    case (P_check u h)
    have "spsc_inv capacity (s\<lparr>producer := P_idle\<rparr>)"
      using inv by (intro spsc_inv_intro [of _ _ ms ns]) (simp_all add: inv_defs split: consumer_t.splits)
    with P_check assms(2) push_room_inv [OF v inv P_check] show ?thesis by (auto simp: producer_access_def)
  next
    case P_idle
    then have "s' = s\<lparr>producer := P_check v (head_index (shared s))\<rparr>" using assms(2) by (simp add: producer_access_def)
    with inv show ?thesis by (intro spsc_inv_intro [of _ _ ms ns]) (simp_all add: inv_defs split: consumer_t.splits)
  qed (use assms(2) push_write_inv [OF v inv] push_publish_inv [OF v inv] in \<open>auto simp: producer_access_def\<close>)
qed

lemma consumer_access_inv:
  assumes v: "valid_capacity capacity" and "consumer_access capacity s = (r, s')" "spsc_inv capacity s"
  shows "spsc_inv capacity s'"
proof -
  from assms(3) obtain ms ns where inv: "ring_inv capacity s ms ns" "producer_inv capacity s ms"
    "consumer_inv capacity s ns" by (auto simp: spsc_inv_def)
  note same = spsc_inv_intro [of _ _ ms ns]
  show ?thesis
  proof (cases "consumer s")
    case (C_check t)
    have "length (delivered s) \<noteq> ns" if "t \<noteq> head_view s" using that C_check inv by (auto simp: inv_defs word_unat_eq_iff)
    moreover have "s' = s\<lparr>consumer := if t = head_view s then C_idle else C_read t\<rparr>"
      using assms(2) C_check by (simp add: consumer_access_def)
    ultimately show ?thesis using inv C_check by (intro same) (auto simp: inv_defs split: producer_t.splits)
  next
    case (C_read t)
    then have "s' = s\<lparr>consumer := C_release t (ring_slots (shared s) ! unat t)\<rparr>"
      using assms(2) by (simp add: consumer_access_def)
    with C_read inv show ?thesis by (intro same) (auto simp: inv_defs split: producer_t.splits)
  next
    case C_idle
    then have "s' = s\<lparr>consumer := C_check (tail_index (shared s))\<rparr>" using assms(2) by (simp add: consumer_access_def)
    with inv show ?thesis by (intro same) (simp_all add: inv_defs split: producer_t.splits)
  qed (use assms(2) pop_release_inv [OF v inv] in \<open>auto simp: consumer_access_def\<close>)
qed

lemma see_inv:
  assumes "spsc_inv capacity s"
  shows "spsc_inv capacity (see_tail s)" "spsc_inv capacity (see_head s)"
proof -
  from assms obtain ms ns where inv: "ring_inv capacity s ms ns" "producer_inv capacity s ms"
    "consumer_inv capacity s ns" by (auto simp: spsc_inv_def)
  show "spsc_inv capacity (see_tail s)" using inv
    by (intro spsc_inv_intro [of _ _ "length (delivered s)" ns])
      (auto simp: see_tail_def inv_defs split: producer_t.splits consumer_t.splits)
  show "spsc_inv capacity (see_head s)" using inv
    by (intro spsc_inv_intro [of _ _ ms "length (accepted s)"])
      (auto simp: see_head_def inv_defs split: producer_t.splits consumer_t.splits)
qed

lemma spsc_step_inv:
  assumes "valid_capacity capacity" "spsc_step capacity s s'" "spsc_inv capacity s"
  shows "spsc_inv capacity s'"
  using assms(2,3) by cases (auto intro: producer_access_inv [OF assms(1)] consumer_access_inv [OF assms(1)] see_inv)

lemma spsc_reachable_inv:
  assumes "valid_capacity capacity" "(spsc_step capacity)\<^sup>*\<^sup>* (spsc_system_init capacity d) s"
  shows "spsc_inv capacity s"
  using assms(2) by (induction rule: rtranclp_induct) (auto intro: spsc_inv_init [OF assms(1)] spsc_step_inv [OF assms(1)])

section \<open>The two threads implement the ring with one operation at a time\<close>

text \<open>
  What has been published and not yet released is what a ring with atomic operations holds: the
  store to the head is the moment of a push, the store to the tail the moment of a pop, and every
  other access changes nothing.
\<close>

definition in_flight :: "'a spsc_system \<Rightarrow> 'a list" where
  "in_flight s = drop (length (delivered s)) (accepted s)"

definition ring_abs :: "64 word \<Rightarrow> 'a spsc_system \<Rightarrow> 'a spsc_queue_t \<Rightarrow> bool" where
  "ring_abs capacity s q \<longleftrightarrow> spsc_inv capacity s \<and> ring_ok capacity q \<and> ring_contents capacity q = in_flight s"

text \<open>The value a push under way was called with.\<close>

fun pushing :: "'a producer_t \<Rightarrow> 'a option" where
  "pushing P_idle = None"
| "pushing (P_check v h) = Some v"
| "pushing (P_write v h) = Some v"
| "pushing (P_publish v h) = Some v"

lemma ring_abs_init:
  assumes "valid_capacity capacity"
  shows "ring_abs capacity (spsc_system_init capacity d) (spsc_init capacity d)"
  using spsc_inv_init [OF assms] ring_init [OF assms, of d]
  by (simp add: ring_abs_def in_flight_def) (simp add: spsc_system_init_def)

lemma ring_abs_valid: "ring_abs capacity s q \<Longrightarrow> valid_capacity capacity"
  by (simp add: ring_abs_def ring_ok_def)

lemma ring_abs_see: "ring_abs capacity s q \<Longrightarrow> ring_abs capacity (see_tail s) q" "ring_abs capacity s q \<Longrightarrow> ring_abs capacity (see_head s) q"
  by (simp_all add: ring_abs_def see_inv) (simp_all add: in_flight_def see_tail_def see_head_def)

lemma producer_access_abs:
  assumes "ring_abs capacity s q" "producer_access capacity v s = (b, s')" "pushing (producer s) \<in> {None, Some v}"
  shows "if b then \<exists>q'. try_push capacity v q = (True, q') \<and> ring_abs capacity s' q' \<and> accepted s' = accepted s @ [v] \<and> delivered s' = delivered s
    else ring_abs capacity s' q \<and> accepted s' = accepted s \<and> delivered s' = delivered s"
proof (cases "\<exists>u h. producer s = P_publish u h")
  case True
  with assms(3) obtain h where p: "producer s = P_publish v h" by auto
  with assms(2) have b: "b" "accepted s' = accepted s @ [v]" "delivered s' = delivered s" by (auto simp: producer_access_def)
  obtain t q' where t: "try_push capacity v q = (t, q')" by fastforce
  have "Suc (length (accepted s)) < length (delivered s) + unat capacity" "length (delivered s) \<le> length (accepted s)"
    using assms(1) p by (auto simp: ring_abs_def spsc_inv_def inv_defs)
  then have "length (in_flight s) < unat capacity - 1" "in_flight s' = in_flight s @ [v]"
    by (simp_all add: in_flight_def b)
  with ring.push_contents [OF _ t] assms(1) producer_access_inv [OF ring_abs_valid [OF assms(1)] assms(2)] b t
  show ?thesis by (auto simp: ring_abs_def)
next
  case False
  with assms(2) have "\<not> b" "accepted s' = accepted s" "delivered s' = delivered s"
    by (auto simp: producer_access_def split: producer_t.splits)
  with assms(1) producer_access_inv [OF ring_abs_valid [OF assms(1)] assms(2)] show ?thesis by (simp add: ring_abs_def in_flight_def)
qed

lemma consumer_access_abs:
  assumes "ring_abs capacity s q" "consumer_access capacity s = (r, s')"
  shows "case r of
      Some v \<Rightarrow> (\<exists>q'. try_pop capacity q = Some (v, q') \<and> ring_abs capacity s' q' \<and> delivered s' = delivered s @ [v] \<and> accepted s' = accepted s)
    | None \<Rightarrow> ring_abs capacity s' q \<and> accepted s' = accepted s \<and> delivered s' = delivered s"
proof (cases "\<exists>t v. consumer s = C_release t v")
  case True
  then obtain t v where p: "consumer s = C_release t v" by blast
  with assms(2) have r: "r = Some v" "delivered s' = delivered s @ [v]" "accepted s' = accepted s" by (auto simp: consumer_access_def)
  have "length (delivered s) < length (accepted s)" "v = accepted s ! length (delivered s)"
    using assms(1) p by (auto simp: ring_abs_def spsc_inv_def inv_defs)
  then have f: "in_flight s = v # in_flight s'" by (simp add: in_flight_def r Cons_nth_drop_Suc)
  with assms(1) ring.pop_none [of capacity q] obtain x q' where q': "try_pop capacity q = Some (x, q')"
    by (cases "try_pop capacity q") (auto simp: ring_abs_def)
  with ring.pop_some [OF _ q'] assms(1) f consumer_access_inv [OF ring_abs_valid [OF assms(1)] assms(2)] r
  show ?thesis by (auto simp: ring_abs_def)
next
  case False
  with assms(2) have "r = None" "accepted s' = accepted s" "delivered s' = delivered s"
    by (auto simp: consumer_access_def split: consumer_t.splits)
  with assms(1) consumer_access_inv [OF ring_abs_valid [OF assms(1)] assms(2)] show ?thesis by (simp add: ring_abs_def in_flight_def)
qed

text \<open>The history of the ring: a push at every store to the head, a pop at every store to the tail.\<close>

lemma spsc_step_abs:
  assumes "ring_abs capacity s q" "spsc_step capacity s s'"
  shows "(\<exists>v q'. try_push capacity v q = (True, q') \<and> ring_abs capacity s' q' \<and> accepted s' = accepted s @ [v] \<and> delivered s' = delivered s) \<or>
    (\<exists>v q'. try_pop capacity q = Some (v, q') \<and> ring_abs capacity s' q' \<and> accepted s' = accepted s \<and> delivered s' = delivered s @ [v]) \<or>
    ring_abs capacity s' q \<and> accepted s' = accepted s \<and> delivered s' = delivered s"
  using assms(2)
proof cases
  case (produce v b)
  then obtain u where "producer_access capacity u s = (b, s')" "pushing (producer s) \<in> {None, Some u}"
    by (cases "producer s") (auto simp: producer_access_def)
  from producer_access_abs [OF assms(1) this] show ?thesis by (cases b) auto
next
  case (consume r)
  from consumer_access_abs [OF assms(1) consume] show ?thesis by (cases r) auto
qed (use assms(1) ring_abs_see in \<open>auto simp: see_tail_def see_head_def\<close>)

lemma spsc_history:
  assumes "valid_capacity capacity" "(spsc_step capacity)\<^sup>*\<^sup>* (spsc_system_init capacity d) s"
  shows "\<exists>ops q. queue_run (try_push capacity) (try_pop capacity) ops (spsc_init capacity d) = (accepted s, delivered s, q) \<and>
    length ops = length (accepted s) + length (delivered s) \<and> ring_abs capacity s q"
  using assms(2)
proof (induction rule: rtranclp_induct)
  case base
  show ?case using ring_abs_init [OF assms(1), of d]
    by (intro exI [of _ "[]"] exI [of _ "spsc_init capacity d"]) (simp add: spsc_system_init_def)
next
  case (step s s')
  then obtain ops q where h: "queue_run (try_push capacity) (try_pop capacity) ops (spsc_init capacity d) = (accepted s, delivered s, q)"
    "length ops = length (accepted s) + length (delivered s)" "ring_abs capacity s q" by blast
  from spsc_step_abs [OF h(3) step.hyps(2)] show ?case
  proof (elim disjE exE conjE)
    fix v q' assume "try_push capacity v q = (True, q')" "ring_abs capacity s' q'" "accepted s' = accepted s @ [v]" "delivered s' = delivered s"
    with h show ?thesis by (intro exI [of _ "ops @ [Push v]"] exI [of _ q']) (simp add: queue_run_append)
  next
    fix v q' assume "try_pop capacity q = Some (v, q')" "ring_abs capacity s' q'" "accepted s' = accepted s" "delivered s' = delivered s @ [v]"
    with h show ?thesis by (intro exI [of _ "ops @ [Pop]"] exI [of _ q']) (simp add: queue_run_append)
  qed (use h in auto)
qed

section \<open>A sample interleaving\<close>

text \<open>One element is pushed and seen; then a second push and the first pop are both under way.\<close>

abbreviation ring_state ::
    "64 word \<Rightarrow> nat list \<Rightarrow> nat producer_t \<Rightarrow> nat consumer_t \<Rightarrow> 64 word \<Rightarrow> nat list \<Rightarrow> nat spsc_system" where
  "ring_state h slots p c hv acc \<equiv>
     \<lparr>shared = \<lparr>head_index = h, tail_index = 0, ring_slots = slots\<rparr>, producer = p, consumer = c,
      tail_view = 0, head_view = hv, accepted = acc, delivered = []\<rparr>"

lemma sample_interleaving:
  "(spsc_step 4)\<^sup>*\<^sup>* (spsc_system_init 4 0) (ring_state 1 [7, 0, 0, 0] (P_write 8 1) (C_read 0) 1 [7])"
proof -
  let ?s0 = "ring_state 0 [0, 0, 0, 0] P_idle C_idle 0 []"
  let ?s1 = "ring_state 0 [0, 0, 0, 0] (P_check 7 0) C_idle 0 []"
  let ?s2 = "ring_state 0 [0, 0, 0, 0] (P_write 7 0) C_idle 0 []"
  let ?s3 = "ring_state 0 [7, 0, 0, 0] (P_publish 7 0) C_idle 0 []"
  let ?s4 = "ring_state 1 [7, 0, 0, 0] P_idle C_idle 0 [7]"
  let ?s5 = "ring_state 1 [7, 0, 0, 0] P_idle C_idle 1 [7]"
  let ?s6 = "ring_state 1 [7, 0, 0, 0] P_idle (C_check 0) 1 [7]"
  let ?s7 = "ring_state 1 [7, 0, 0, 0] P_idle (C_read 0) 1 [7]"
  let ?s8 = "ring_state 1 [7, 0, 0, 0] (P_check 8 1) (C_read 0) 1 [7]"
  let ?s9 = "ring_state 1 [7, 0, 0, 0] (P_write 8 1) (C_read 0) 1 [7]"
  have "replicate (unat (4 :: 64 word)) (0 :: nat) = [0, 0, 0, 0]" by code_simp
  then have 0: "spsc_system_init 4 0 = ?s0" by (simp add: spsc_system_init_def spsc_init_def)
  note access = producer_access_def consumer_access_def spsc_mask_def
  have "spsc_step 4 ?s0 ?s1" by (rule produce [of _ 7 _ False]) (simp add: access)
  moreover have "spsc_step 4 ?s1 ?s2" by (rule produce [of _ 7 _ False]) (simp add: access)
  moreover have "spsc_step 4 ?s2 ?s3" by (rule produce [of _ 7 _ False]) (simp add: access)
  moreover have "spsc_step 4 ?s3 ?s4" by (rule produce [of _ 7 _ True]) (simp add: access)
  moreover have "spsc_step 4 ?s4 ?s5" using view_head [of 4 ?s4] by (simp add: see_head_def)
  moreover have "spsc_step 4 ?s5 ?s6" by (rule consume [of _ _ None]) (simp add: access)
  moreover have "spsc_step 4 ?s6 ?s7" by (rule consume [of _ _ None]) (simp add: access)
  moreover have "spsc_step 4 ?s7 ?s8" by (rule produce [of _ 8 _ False]) (simp add: access)
  moreover have "spsc_step 4 ?s8 ?s9" by (rule produce [of _ 8 _ False]) (simp add: access)
  ultimately show ?thesis unfolding 0 by (meson converse_rtranclp_into_rtranclp rtranclp.rtrancl_refl)
qed

lemma valid_capacity_4: "valid_capacity 4"
  by code_simp

section \<open>Properties of the two threads\<close>

text \<open>
  C9: linearizability. Whatever the interleaving of the producer's and the consumer's atomic accesses, and
  however far the views lag behind, what the two threads have pushed and popped is what some
  sequence of operations on the ring, one at a time and all of them successful, pushes and pops, and
  the ring it ends with holds the elements that were pushed and not yet popped, in order.
\<close>

theorem spsc_linearizable:
  assumes "valid_capacity capacity" "(spsc_step capacity)\<^sup>*\<^sup>* (spsc_system_init capacity d) s"
  shows "\<exists>ops q. queue_run (try_push capacity) (try_pop capacity) ops (spsc_init capacity d) = (accepted s, delivered s, q) \<and>
    length ops = length (accepted s) + length (delivered s) \<and> accepted s = delivered s @ ring_contents capacity q"
proof -
  from spsc_history [OF assms] obtain ops q where
    h: "queue_run (try_push capacity) (try_pop capacity) ops (spsc_init capacity d) = (accepted s, delivered s, q)"
      "length ops = length (accepted s) + length (delivered s)" by blast
  with spsc_queue_history [OF assms(1) h(1)] show ?thesis by blast
qed

theorem spsc_linearizable_witness:
  "\<exists>ops q. queue_run (try_push 4) (try_pop 4) ops (spsc_init 4 0) = ([7 :: nat], [], q) \<and> length ops = 1 \<and> [7] = ring_contents 4 q"
  using spsc_linearizable [OF valid_capacity_4 sample_interleaving] by simp

text \<open>
  C26: no data race on a slot. When the producer is about to write a slot and the consumer is
  about to read one, the two slots are different.
\<close>

theorem spsc_race_free:
  assumes "valid_capacity capacity" "(spsc_step capacity)\<^sup>*\<^sup>* (spsc_system_init capacity d) s"
    and "producer s = P_write v h" "consumer s = C_read t"
  shows "h \<noteq> t"
proof -
  obtain ms ns where i: "ring_inv capacity s ms ns" "producer_inv capacity s ms" "consumer_inv capacity s ns"
    using spsc_reachable_inv [OF assms(1,2)] by (auto simp: spsc_inv_def)
  have "length (delivered s) mod unat capacity \<noteq> length (accepted s) mod unat capacity"
    using i assms(3,4) by (intro mod_neq) (auto simp: inv_defs)
  moreover have "unat h = length (accepted s) mod unat capacity" "unat t = length (delivered s) mod unat capacity"
    using i assms(3,4) by (simp_all add: inv_defs)
  ultimately show ?thesis by auto
qed

theorem spsc_race_free_witness:
  "\<exists>s h t. (spsc_step 4)\<^sup>*\<^sup>* (spsc_system_init 4 0) s \<and> producer s = P_write (8 :: nat) h \<and> consumer s = C_read t \<and> h \<noteq> t"
proof -
  let ?s = "ring_state 1 [7, 0, 0, 0] (P_write 8 1) (C_read 0) 1 [7]"
  have "(1 :: 64 word) \<noteq> 0"
    by (rule spsc_race_free [OF valid_capacity_4 sample_interleaving]) simp_all
  with sample_interleaving show ?thesis by (intro exI [of _ ?s] exI [of _ 1] exI [of _ 0]) simp
qed

end
