(* ===== verification/Messages.thy ===== *)
theory Messages
  imports Prelude
begin

text \<open>
  The data of \<^verbatim>\<open>message_types.hpp\<close>, \<^verbatim>\<open>input_event.hpp\<close> and \<^verbatim>\<open>output_event.hpp\<close>: wire tags,
  sides, time-in-force, the input events the reader produces and the output events the
  matcher emits.
\<close>

section \<open>Wire tags\<close>

definition wire_add :: string where "wire_add = ''ADD''"
definition wire_cancel :: string where "wire_cancel = ''CXL''"
definition wire_trade :: string where "wire_trade = ''TRD''"
definition wire_resting :: string where "wire_resting = ''RST''"
definition wire_filled :: string where "wire_filled = ''FIL''"
definition wire_cancelled :: string where "wire_cancelled = ''CAN''"
definition wire_rejected :: string where "wire_rejected = ''REJ''"

definition wire_buy :: string where "wire_buy = ''BUY''"
definition wire_sell :: string where "wire_sell = ''SLL''"

definition wire_tif_gtc :: string where "wire_tif_gtc = ''GTC''"
definition wire_tif_ioc :: string where "wire_tif_ioc = ''IOC''"
definition wire_tif_fok :: string where "wire_tif_fok = ''FOK''"

definition wire_cause_user :: string where "wire_cause_user = ''USR''"
definition wire_cause_ioc :: string where "wire_cause_ioc = ''IOC''"
definition wire_cause_fok :: string where "wire_cause_fok = ''FOK''"

definition wire_reject_duplicate_id :: string where "wire_reject_duplicate_id = ''DUP''"
definition wire_reject_unknown_id :: string where "wire_reject_unknown_id = ''UNK''"
definition wire_reject_invalid_quantity :: string where "wire_reject_invalid_quantity = ''IQT''"
definition wire_reject_invalid_price :: string where "wire_reject_invalid_price = ''IPR''"
definition wire_reject_invalid_order_id :: string where "wire_reject_invalid_order_id = ''IID''"

lemmas wire_tag_defs [wire_simps] =
  wire_add_def wire_cancel_def wire_trade_def wire_resting_def wire_filled_def
  wire_cancelled_def wire_rejected_def wire_buy_def wire_sell_def
  wire_tif_gtc_def wire_tif_ioc_def wire_tif_fok_def
  wire_cause_user_def wire_cause_ioc_def wire_cause_fok_def
  wire_reject_duplicate_id_def wire_reject_unknown_id_def wire_reject_invalid_quantity_def
  wire_reject_invalid_price_def wire_reject_invalid_order_id_def

section \<open>Scalar types\<close>

type_synonym order_id_t = int
type_synonym price_t = int
type_synonym quantity_t = int

datatype side_t = buy | sell

fun opposite_of :: "side_t \<Rightarrow> side_t" where
  "opposite_of buy = sell"
| "opposite_of sell = buy"

lemma opposite_of_opposite_of [simp]: "opposite_of (opposite_of s) = s"
  by (cases s) simp_all

lemma opposite_of_neq [simp]: "opposite_of s \<noteq> s" "s \<noteq> opposite_of s"
  by (cases s; simp)+

datatype tif_t = gtc | ioc | fok

text \<open>Each C++ enumeration lists its values, so that a law over all of them is decided by evaluation.\<close>

lemma UNIV_side_t: "UNIV = {buy, sell}"
  by (auto intro: side_t.exhaust)

instantiation side_t :: enum
begin

definition enum_side_t :: "side_t list" where
  "enum_side_t = [buy, sell]"

definition enum_all_side_t :: "(side_t \<Rightarrow> bool) \<Rightarrow> bool" where
  "enum_all_side_t P \<longleftrightarrow> P buy \<and> P sell"

definition enum_ex_side_t :: "(side_t \<Rightarrow> bool) \<Rightarrow> bool" where
  "enum_ex_side_t P \<longleftrightarrow> P buy \<or> P sell"

instance
  by standard
    (simp_all add: enum_side_t_def enum_all_side_t_def enum_ex_side_t_def UNIV_side_t)

end

lemma UNIV_tif_t: "UNIV = {gtc, ioc, fok}"
  by (auto intro: tif_t.exhaust)

instantiation tif_t :: enum
begin

definition enum_tif_t :: "tif_t list" where
  "enum_tif_t = [gtc, ioc, fok]"

definition enum_all_tif_t :: "(tif_t \<Rightarrow> bool) \<Rightarrow> bool" where
  "enum_all_tif_t P \<longleftrightarrow> P gtc \<and> P ioc \<and> P fok"

definition enum_ex_tif_t :: "(tif_t \<Rightarrow> bool) \<Rightarrow> bool" where
  "enum_ex_tif_t P \<longleftrightarrow> P gtc \<or> P ioc \<or> P fok"

instance
  by standard
    (simp_all add: enum_tif_t_def enum_all_tif_t_def enum_ex_tif_t_def UNIV_tif_t)

end

section \<open>Input events\<close>

record add_order_event_t =
  add_order_id :: order_id_t
  add_side :: side_t
  add_quantity :: quantity_t
  add_price :: price_t
  add_tif :: tif_t

record cancel_order_event_t =
  cancel_order_id :: order_id_t

datatype input_event_t =
    add_order_in add_order_event_t
  | cancel_order_in cancel_order_event_t
  | shutdown_in

text \<open>The range of the C++ field types; the parser only produces events in it.\<close>

fun input_event_int64 :: "input_event_t \<Rightarrow> bool" where
  "input_event_int64 (add_order_in e) \<longleftrightarrow>
     int64 (add_order_id e) \<and> int64 (add_quantity e) \<and> int64 (add_price e)"
| "input_event_int64 (cancel_order_in e) \<longleftrightarrow> int64 (cancel_order_id e)"
| "input_event_int64 shutdown_in \<longleftrightarrow> True"

section \<open>Output events\<close>

datatype reject_code_t =
    duplicate_order_id | unknown_order_id | invalid_quantity | invalid_price | invalid_order_id

datatype cancel_cause_t = user_request | immediate_or_cancel | fill_or_kill

lemma UNIV_reject_code_t: "UNIV = {duplicate_order_id, unknown_order_id, invalid_quantity, invalid_price, invalid_order_id}"
  by (auto intro: reject_code_t.exhaust)

instantiation reject_code_t :: enum
begin

definition enum_reject_code_t :: "reject_code_t list" where
  "enum_reject_code_t = [duplicate_order_id, unknown_order_id, invalid_quantity, invalid_price, invalid_order_id]"

definition enum_all_reject_code_t :: "(reject_code_t \<Rightarrow> bool) \<Rightarrow> bool" where
  "enum_all_reject_code_t P \<longleftrightarrow> P duplicate_order_id \<and> P unknown_order_id \<and> P invalid_quantity \<and> P invalid_price \<and> P invalid_order_id"

definition enum_ex_reject_code_t :: "(reject_code_t \<Rightarrow> bool) \<Rightarrow> bool" where
  "enum_ex_reject_code_t P \<longleftrightarrow> P duplicate_order_id \<or> P unknown_order_id \<or> P invalid_quantity \<or> P invalid_price \<or> P invalid_order_id"

instance
  by standard
    (simp_all add: enum_reject_code_t_def enum_all_reject_code_t_def enum_ex_reject_code_t_def UNIV_reject_code_t)

end

lemma UNIV_cancel_cause_t: "UNIV = {user_request, immediate_or_cancel, fill_or_kill}"
  by (auto intro: cancel_cause_t.exhaust)

instantiation cancel_cause_t :: enum
begin

definition enum_cancel_cause_t :: "cancel_cause_t list" where
  "enum_cancel_cause_t = [user_request, immediate_or_cancel, fill_or_kill]"

definition enum_all_cancel_cause_t :: "(cancel_cause_t \<Rightarrow> bool) \<Rightarrow> bool" where
  "enum_all_cancel_cause_t P \<longleftrightarrow> P user_request \<and> P immediate_or_cancel \<and> P fill_or_kill"

definition enum_ex_cancel_cause_t :: "(cancel_cause_t \<Rightarrow> bool) \<Rightarrow> bool" where
  "enum_ex_cancel_cause_t P \<longleftrightarrow> P user_request \<or> P immediate_or_cancel \<or> P fill_or_kill"

instance
  by standard
    (simp_all add: enum_cancel_cause_t_def enum_all_cancel_cause_t_def enum_ex_cancel_cause_t_def UNIV_cancel_cause_t)

end

datatype output_event_t =
    trade_event (aggressive_order_id: order_id_t) (resting_order_id: order_id_t)
      (trade_quantity: quantity_t)
  | order_resting_event (out_order_id: order_id_t) (out_filled_quantity: quantity_t)
      (out_resting_quantity: quantity_t)
  | order_filled_event (out_order_id: order_id_t) (out_filled_quantity: quantity_t)
  | order_cancelled_event (out_order_id: order_id_t) (out_filled_quantity: quantity_t)
      (out_cancelled_quantity: quantity_t) (out_cause: cancel_cause_t)
  | order_rejected_event (out_order_id: order_id_t) (out_reject_code: reject_code_t)
  | shutdown_out

end
