(* ===== verification/Ladder.thy ===== *)
theory Ladder
  imports Messages
begin

text \<open>
  The price ladder: the part of \<^verbatim>\<open>std::map\<close> that \<^verbatim>\<open>order_book_side_t\<close> uses, as an association
  list in iteration order, over the comparison \<^verbatim>\<open>resting_levels_compare_t\<close>. What the map
  promises (sorted, no two equal keys, lookup after insert and erase) is proved once for any
  strict total order, in the locale \<open>ladder_order\<close>, and interpreted for the comparison of
  either side.
\<close>

section \<open>Ordered maps in iteration order\<close>

type_synonym 'v ladder = "(price_t \<times> 'v) list"

text \<open>\<^verbatim>\<open>map::try_emplace\<close>: keeps an existing entry, else inserts at the sorted position.\<close>

fun map_try_emplace :: "('k \<Rightarrow> 'k \<Rightarrow> bool) \<Rightarrow> 'k \<Rightarrow> 'v \<Rightarrow> ('k \<times> 'v) list \<Rightarrow> ('k \<times> 'v) list" where
  "map_try_emplace cmp k v [] = [(k, v)]"
| "map_try_emplace cmp k v ((k', v') # m) =
     (if cmp k k' then (k, v) # (k', v') # m
      else if cmp k' k then (k', v') # map_try_emplace cmp k v m
      else (k', v') # m)"

text \<open>Writing through the reference or iterator to the entry of a key.\<close>

definition map_assign :: "'k \<Rightarrow> 'v \<Rightarrow> ('k \<times> 'v) list \<Rightarrow> ('k \<times> 'v) list" where
  "map_assign k v m = map (\<lambda>(k', v'). if k' = k then (k', v) else (k', v')) m"

text \<open>\<^verbatim>\<open>map::erase\<close> of the entry of a key.\<close>

definition map_erase :: "'k \<Rightarrow> ('k \<times> 'v) list \<Rightarrow> ('k \<times> 'v) list" where
  "map_erase k m = filter (\<lambda>(k', v'). k' \<noteq> k) m"

text \<open>The two combined: apply \<open>f\<close> to the entry of a key, or to \<open>d\<close> at its sorted position.\<close>

fun map_upsert ::
    "('k \<Rightarrow> 'k \<Rightarrow> bool) \<Rightarrow> 'k \<Rightarrow> 'v \<Rightarrow> ('v \<Rightarrow> 'v) \<Rightarrow> ('k \<times> 'v) list \<Rightarrow> ('k \<times> 'v) list" where
  "map_upsert cmp k d f [] = [(k, f d)]"
| "map_upsert cmp k d f ((k', v') # m) =
     (if cmp k k' then (k, f d) # (k', v') # m
      else if cmp k' k then (k', v') # map_upsert cmp k d f m
      else (k', f v') # m)"

text \<open>Reading the values of a ladder through a function.\<close>

definition map_values :: "('v \<Rightarrow> 'w) \<Rightarrow> ('k \<times> 'v) list \<Rightarrow> ('k \<times> 'w) list" where
  "map_values F m = map (\<lambda>(k, v). (k, F v)) m"

lemma map_values_simps [simp]:
  "map_values F [] = []"
  "map_values F ((k, v) # m) = (k, F v) # map_values F m"
  "map_values F (m @ m') = map_values F m @ map_values F m'"
  by (simp_all add: map_values_def)

lemma map_fst_values [simp]: "map fst (map_values F m) = map fst m"
  by (induction m) auto

lemma map_values_eq_Nil [simp]: "map_values F m = [] \<longleftrightarrow> m = []"
  by (simp add: map_values_def)

lemma length_map_values [simp]: "length (map_values F m) = length m"
  by (simp add: map_values_def)

lemma map_values_upsert:
  "(\<And>v. F (f v) = f' (F v)) \<Longrightarrow>
   map_values F (map_upsert cmp k d f m) = map_upsert cmp k (F d) f' (map_values F m)"
  by (induction m) auto

lemma map_assign_simps [simp]:
  "map_assign k v [] = []"
  "map_assign k v ((k', v') # m) = (if k' = k then (k', v) else (k', v')) # map_assign k v m"
  "map_assign k v (m @ m') = map_assign k v m @ map_assign k v m'"
  by (simp_all add: map_assign_def)

lemma map_erase_simps [simp]:
  "map_erase k [] = []"
  "map_erase k ((k', v') # m) = (if k' = k then map_erase k m else (k', v') # map_erase k m)"
  "map_erase k (m @ m') = map_erase k m @ map_erase k m'"
  by (simp_all add: map_erase_def)

lemma map_fst_assign [simp]: "map fst (map_assign k v m) = map fst m"
  by (induction m) auto

lemma map_assign_notin [simp]: "k \<notin> fst ` set m \<Longrightarrow> map_assign k v m = m"
  by (induction m) auto

lemma map_erase_notin [simp]: "k \<notin> fst ` set m \<Longrightarrow> map_erase k m = m"
  by (induction m) auto

section \<open>Laws of the comparison\<close>

locale ladder_order =
  fixes cmp :: "'k \<Rightarrow> 'k \<Rightarrow> bool"
  assumes cmp_irrefl: "\<not> cmp k k"
    and cmp_trans: "cmp k l \<Longrightarrow> cmp l m \<Longrightarrow> cmp k m"
    and cmp_total: "k \<noteq> l \<Longrightarrow> cmp k l \<or> cmp l k"
begin

lemma cmp_asym: "cmp k l \<Longrightarrow> \<not> cmp l k"
  using cmp_irrefl cmp_trans by blast

lemma cmp_neq: "cmp k l \<Longrightarrow> k \<noteq> l"
  using cmp_irrefl by blast

lemma not_cmp_trans: "\<not> cmp k l \<Longrightarrow> cmp m l \<Longrightarrow> cmp m k"
  using cmp_total cmp_trans by metis

lemma keys_distinct: "sorted_wrt cmp ks \<Longrightarrow> distinct ks"
  by (induction ks) (auto dest: cmp_neq)

lemma set_keys_try_emplace:
  "fst ` set (map_try_emplace cmp k v m) = insert k (fst ` set m)"
proof (induction m)
  case (Cons e m)
  obtain k' v' where [simp]: "e = (k', v')" by fastforce
  show ?case using Cons.IH cmp_total [of k k'] by auto
qed simp

lemma sorted_try_emplace:
  "sorted_wrt cmp (map fst m) \<Longrightarrow> sorted_wrt cmp (map fst (map_try_emplace cmp k v m))"
proof (induction m)
  case (Cons e m)
  obtain k' v' where e [simp]: "e = (k', v')" by fastforce
  from Cons.prems have k': "\<forall>x \<in> fst ` set m. cmp k' x" by simp
  consider "cmp k k'" | "\<not> cmp k k'" "cmp k' k" | "\<not> cmp k k'" "\<not> cmp k' k" by blast
  then show ?case
  proof cases
    case 1
    with k' have "\<forall>x \<in> fst ` set m. cmp k x" using cmp_trans by blast
    with 1 Cons.prems show ?thesis by simp
  next
    case 2
    with Cons.IH Cons.prems k' show ?thesis
      using set_keys_try_emplace [of k v m] by auto
  qed (use Cons.prems in simp)
qed simp

lemma cmp_cases:
  obtains "cmp k l" "\<not> cmp l k" "k \<noteq> l" | "cmp l k" "\<not> cmp k l" "k \<noteq> l"
  | "k = l" "\<not> cmp k l" "\<not> cmp l k"
  using cmp_total cmp_asym cmp_neq by blast

lemma map_of_try_emplace:
  "sorted_wrt cmp (map fst m) \<Longrightarrow>
   map_of (map_try_emplace cmp k v m) k = (case map_of m k of None \<Rightarrow> Some v | w \<Rightarrow> w)"
proof (induction m)
  case (Cons e m)
  obtain k' v' where e [simp]: "e = (k', v')" by fastforce
  from Cons.prems have k': "\<forall>x \<in> fst ` set m. cmp k' x" by simp
  show ?case
  proof (rule cmp_cases [of k k'])
    assume "cmp k k'" "k \<noteq> k'"
    moreover from this k' have "k \<notin> fst ` set m" using cmp_asym by blast
    then have "map_of m k = None" by (simp add: map_of_eq_None_iff)
    ultimately show ?thesis by simp
  qed (use Cons in auto)
qed simp

text \<open>
  Emplacing a default and then writing through the reference is one traversal: at the
  key's entry if there is one, else at its sorted position.
\<close>

lemma assign_try_emplace:
  "sorted_wrt cmp (map fst m) \<Longrightarrow>
   map_assign k (f (the (map_of (map_try_emplace cmp k d m) k))) (map_try_emplace cmp k d m)
     = map_upsert cmp k d f m"
proof (induction m)
  case (Cons e m)
  obtain k' v' where e [simp]: "e = (k', v')" by fastforce
  from Cons.prems have k': "\<forall>x \<in> fst ` set m. cmp k' x" by simp
  show ?case
  proof (rule cmp_cases [of k k'])
    assume "cmp k k'" "k \<noteq> k'"
    moreover from this k' have "k \<notin> fst ` set m" using cmp_asym by blast
    ultimately show ?thesis by auto
  next
    assume "cmp k' k" "\<not> cmp k k'" "k \<noteq> k'"
    with Cons show ?thesis by simp
  next
    assume "k = k'" "\<not> cmp k k'" "\<not> cmp k' k"
    moreover from this k' have "k \<notin> fst ` set m" using cmp_irrefl by blast
    ultimately show ?thesis by simp
  qed
qed simp

lemma keys_upsert: "fst ` set (map_upsert cmp k d f m) = insert k (fst ` set m)"
proof (induction m)
  case (Cons e m)
  then show ?case using cmp_total [of k "fst e"] by (cases e) auto
qed simp

lemma sorted_upsert:
  "sorted_wrt cmp (map fst m) \<Longrightarrow> sorted_wrt cmp (map fst (map_upsert cmp k d f m))"
proof (induction m)
  case (Cons e m)
  obtain k' v' where e [simp]: "e = (k', v')" by fastforce
  from Cons.prems have k': "\<forall>x \<in> fst ` set m. cmp k' x" by simp
  show ?case
  proof (rule cmp_cases [of k k'])
    assume lt: "cmp k k'" "k \<noteq> k'"
    with k' have "\<forall>x \<in> fst ` set m. cmp k x" using cmp_trans by blast
    with lt Cons.prems show ?thesis by simp
  next
    assume "cmp k' k" "\<not> cmp k k'"
    with Cons k' show ?thesis using keys_upsert [of k d f m] by auto
  qed (use Cons.prems in auto)
qed simp

text \<open>Related ladders stay related when the entries of one key are updated together.\<close>

lemma upsert_rel:
  assumes "list_all2 R m m'" "sorted_wrt cmp (map fst m)"
    and keys: "\<And>e e'. R e e' \<Longrightarrow> fst e = fst e'"
    and other: "\<And>e e'. e \<in> set m \<Longrightarrow> e' \<in> set m' \<Longrightarrow> R e e' \<Longrightarrow> fst e \<noteq> k \<Longrightarrow> R' e e'"
    and new: "k \<notin> fst ` set m \<Longrightarrow> R' (k, f d) (k, f' d')"
    and upd: "\<And>v v'. (k, v) \<in> set m \<Longrightarrow> (k, v') \<in> set m' \<Longrightarrow> R (k, v) (k, v') \<Longrightarrow>
                R' (k, f v) (k, f' v')"
  shows "list_all2 R' (map_upsert cmp k d f m) (map_upsert cmp k d' f' m')"
  using assms(1,2,4-6)
proof (induction rule: list_all2_induct)
  case (Cons e m e' m')
  obtain x v where e [simp]: "e = (x, v)" by fastforce
  from Cons.hyps(1) keys obtain v' where e' [simp]: "e' = (x, v')"
    by (cases e') fastforce
  from Cons.prems(1) have x: "\<forall>y \<in> fst ` set m. cmp x y" by simp
  have rest: "list_all2 R' m m'" if "k \<notin> fst ` set m"
  proof (rule list_all2_all_nthI)
    show "length m = length m'" using Cons.hyps(2) by (rule list_all2_lengthD)
    show "R' (m ! i) (m' ! i)" if "i < length m" for i
      using that \<open>k \<notin> fst ` set m\<close> Cons.hyps(2) Cons.prems(2) [of "m ! i" "m' ! i"]
      by (force simp: list_all2_conv_all_nth in_set_conv_nth)
  qed
  show ?case
  proof (rule cmp_cases [of k x])
    assume lt: "cmp k x" "k \<noteq> x"
    with x have out: "k \<notin> fst ` set m" using cmp_asym by blast
    with lt Cons.prems(3) have "R' (k, f d) (k, f' d')" by auto
    moreover from lt Cons.hyps(1) Cons.prems(2) have "R' e e'" by auto
    ultimately show ?thesis using lt rest [OF out] by simp
  next
    assume lt: "cmp x k" "\<not> cmp k x" "k \<noteq> x"
    have "list_all2 R' (map_upsert cmp k d f m) (map_upsert cmp k d' f' m')"
      by (rule Cons.IH) (use lt Cons.prems in auto)
    moreover from lt Cons.hyps(1) Cons.prems(2) have "R' e e'" by auto
    ultimately show ?thesis using lt by simp
  next
    assume eq: "k = x" "\<not> cmp k x" "\<not> cmp x k"
    with x have out: "k \<notin> fst ` set m" using cmp_irrefl by blast
    from eq Cons.hyps(1) Cons.prems(4) have "R' (k, f v) (k, f' v')" by auto
    with eq rest [OF out] show ?thesis by simp
  qed
qed simp

lemma upsert_split:
  assumes "sorted_wrt cmp (map fst m)"
  obtains m1 m2 where "m = m1 @ m2" "map_upsert cmp k d f m = m1 @ (k, f d) # m2"
      "k \<notin> fst ` set m"
  | m1 v m2 where "m = m1 @ (k, v) # m2" "map_upsert cmp k d f m = m1 @ (k, f v) # m2"
  using assms
proof (induction m arbitrary: thesis)
  case Nil
  then show ?case by simp
next
  case (Cons e m)
  obtain k' v' where e [simp]: "e = (k', v')" by fastforce
  from Cons.prems(3) have k': "\<forall>x \<in> fst ` set m. cmp k' x" by simp
  show ?case
  proof (rule cmp_cases [of k k'])
    assume "cmp k k'" "k \<noteq> k'"
    moreover from this k' have "k \<notin> fst ` set m" using cmp_asym by blast
    ultimately show ?thesis using Cons.prems(1) [of "[]" "e # m"] by simp
  next
    assume lt: "cmp k' k" "\<not> cmp k k'" "k \<noteq> k'"
    show ?thesis
    proof (rule Cons.IH)
      show "sorted_wrt cmp (map fst m)" using Cons.prems(3) by simp
    next
      fix m1 m2
      assume "m = m1 @ m2" "map_upsert cmp k d f m = m1 @ (k, f d) # m2" "k \<notin> fst ` set m"
      with lt show ?thesis using Cons.prems(1) [of "e # m1" m2] by simp
    next
      fix m1 v m2
      assume "m = m1 @ (k, v) # m2" "map_upsert cmp k d f m = m1 @ (k, f v) # m2"
      with lt show ?thesis using Cons.prems(2) [of "e # m1" v m2] by simp
    qed
  next
    assume "k = k'" "\<not> cmp k k'" "\<not> cmp k' k"
    then show ?thesis using Cons.prems(2) [of "[]" v' m] by simp
  qed
qed

end

section \<open>The two sides' orders\<close>

text \<open>\<^verbatim>\<open>resting_levels_compare_t\<close>: bids descending, asks ascending.\<close>

fun resting_levels_compare :: "side_t \<Rightarrow> price_t \<Rightarrow> price_t \<Rightarrow> bool" where
  "resting_levels_compare buy p q \<longleftrightarrow> p > q"
| "resting_levels_compare sell p q \<longleftrightarrow> p < q"

interpretation resting: ladder_order "resting_levels_compare s" for s
  by unfold_locales (cases s; auto)+

definition crosses :: "side_t \<Rightarrow> price_t \<Rightarrow> price_t \<Rightarrow> bool" where
  "crosses s aggressive_price resting_price \<longleftrightarrow>
     \<not> resting_levels_compare s aggressive_price resting_price"

lemma crosses_iff:
  "crosses buy p q \<longleftrightarrow> p \<le> q" "crosses sell p q \<longleftrightarrow> p \<ge> q"
  by (auto simp: crosses_def)

text \<open>A worse level crosses only if every better one does: the walk may stop at the first.\<close>

lemma crosses_better:
  "crosses s limit p \<Longrightarrow> resting_levels_compare s q p \<Longrightarrow> crosses s limit q"
  by (cases s) (auto simp: crosses_def)

end
