(* ===== verification/Order_Queue.thy ===== *)
theory Order_Queue
  imports Ladder
begin

text \<open>
  Resting orders and the intrusive FIFO of one price level (\<^verbatim>\<open>order_node_t\<close>,
  \<^verbatim>\<open>price_level_t\<close>). Nodes live in a store from addresses to nodes; a pointer is an address
  or \<open>None\<close> for \<^verbatim>\<open>nullptr\<close>. The level's \<^verbatim>\<open>head\<close>/\<^verbatim>\<open>tail\<close> and the nodes' links represent a
  list of addresses (\<open>level_queue\<close>); enqueueing at the tail and unlinking any node are
  proved to be list append and list removal.
\<close>

section \<open>Nodes and levels\<close>

type_synonym addr = nat

record order_node_t =
  node_order_id :: order_id_t
  node_price :: price_t
  node_quantity :: quantity_t
  node_side :: side_t
  node_active :: bool
  prev_same_price :: "addr option"
  next_same_price :: "addr option"

type_synonym heap = "addr \<Rightarrow> order_node_t"

record price_level_t =
  head :: "addr option"
  tail :: "addr option"
  total_quantity :: quantity_t

definition price_level_init :: price_level_t where
  "price_level_init = \<lparr>head = None, tail = None, total_quantity = 0\<rparr>"

section \<open>Enqueue and unlink\<close>

text \<open>
  The tail half of \<^verbatim>\<open>order_book_side_t::append\<close>: the branch on \<^verbatim>\<open>level.tail\<close>.
\<close>

definition enqueue :: "addr \<Rightarrow> heap \<Rightarrow> price_level_t \<Rightarrow> heap \<times> price_level_t" where
  "enqueue order h level =
     (case tail level of
        None \<Rightarrow>
          (h(order := (h order)\<lparr>prev_same_price := None, next_same_price := None\<rparr>),
           level\<lparr>head := Some order, tail := Some order\<rparr>)
      | Some t \<Rightarrow>
          (let h1 = h(order := (h order)\<lparr>prev_same_price := Some t, next_same_price := None\<rparr>);
               h2 = h1(t := (h1 t)\<lparr>next_same_price := Some order\<rparr>)
           in (h2, level\<lparr>tail := Some order\<rparr>)))"

text \<open>
  The relinking of \<^verbatim>\<open>order_book_side_t::detach\<close>, repeated in \<^verbatim>\<open>clob_t::retire_resting\<close>.
\<close>

definition unlink :: "addr \<Rightarrow> heap \<Rightarrow> price_level_t \<Rightarrow> heap \<times> price_level_t" where
  "unlink order h level =
     (let prev = prev_same_price (h order);
          next = next_same_price (h order);
          (h1, level1) =
            (case prev of
               Some p \<Rightarrow> (h(p := (h p)\<lparr>next_same_price := next\<rparr>), level)
             | None \<Rightarrow> (h, level\<lparr>head := next\<rparr>));
          (h2, level2) =
            (case next of
               Some n \<Rightarrow> (h1(n := (h1 n)\<lparr>prev_same_price := prev\<rparr>), level1)
             | None \<Rightarrow> (h1, level1\<lparr>tail := prev\<rparr>))
      in (h2(order := (h2 order)\<lparr>prev_same_price := None, next_same_price := None\<rparr>), level2))"

section \<open>The list of addresses a level represents\<close>

definition first_of :: "'a list \<Rightarrow> 'a option" where
  "first_of as = (case as of [] \<Rightarrow> None | a # _ \<Rightarrow> Some a)"

definition last_of :: "'a list \<Rightarrow> 'a option" where
  "last_of as = (if as = [] then None else Some (last as))"

lemma first_of_simps [simp]: "first_of [] = None" "first_of (a # as) = Some a"
  by (simp_all add: first_of_def)

lemma last_of_simps [simp]:
  "last_of [] = None" "last_of (as @ [a]) = Some a" "last_of (as @ a # b # bs) = last_of (b # bs)"
  "last_of [a] = Some a" "last_of (a # b # bs) = last_of (b # bs)"
  by (simp_all add: last_of_def)

lemma first_of_None [simp]: "first_of as = None \<longleftrightarrow> as = []"
  by (cases as) auto

lemma last_of_None [simp]: "last_of as = None \<longleftrightarrow> as = []"
  by (simp add: last_of_def)

lemma first_of_append: "first_of (as @ bs) = (if as = [] then first_of bs else first_of as)"
  by (cases as) auto

lemma last_of_append: "last_of (as @ bs) = (if bs = [] then last_of as else last_of bs)"
  by (simp add: last_of_def)

text \<open>A doubly linked segment: \<open>p\<close> precedes it and \<open>n\<close> follows it.\<close>

fun dll :: "heap \<Rightarrow> addr option \<Rightarrow> addr list \<Rightarrow> addr option \<Rightarrow> bool" where
  "dll h p [] n \<longleftrightarrow> True"
| "dll h p (a # as) n \<longleftrightarrow>
     prev_same_price (h a) = p \<and>
     next_same_price (h a) = (if as = [] then n else first_of as) \<and>
     dll h (Some a) as n"

lemma dll_cong:
  "(\<And>a. a \<in> set as \<Longrightarrow> prev_same_price (h a) = prev_same_price (h' a) \<and>
      next_same_price (h a) = next_same_price (h' a)) \<Longrightarrow> dll h p as n = dll h' p as n"
  by (induction as arbitrary: p) auto

lemma dll_append:
  "dll h p (as @ bs) n \<longleftrightarrow>
     dll h p as (if bs = [] then n else first_of bs) \<and>
     dll h (if as = [] then p else last_of as) bs n"
proof (induction as arbitrary: p)
  case (Cons a as)
  have "last_of (a # as) = (if as = [] then Some a else last_of as)"
    by (simp add: last_of_def)
  with Cons show ?case by (auto simp: first_of_append)
qed simp

lemma dll_upd [simp]:
  "a \<notin> set as \<Longrightarrow> dll (h(a := x)) p as n = dll h p as n"
  by (rule dll_cong) auto

text \<open>Changing the successor of the last node, and the predecessor of the first.\<close>

lemma dll_set_next:
  "dll h p (as @ [t]) n \<Longrightarrow> t \<notin> set as \<Longrightarrow>
   dll (h(t := (h t)\<lparr>next_same_price := n'\<rparr>)) p (as @ [t]) n'"
  by (auto simp: dll_append)

lemma dll_set_prev:
  "dll h p (a # as) n \<Longrightarrow> a \<notin> set as \<Longrightarrow>
   dll (h(a := (h a)\<lparr>prev_same_price := p'\<rparr>)) p' (a # as) n"
  by auto

definition level_queue :: "heap \<Rightarrow> price_level_t \<Rightarrow> addr list \<Rightarrow> bool" where
  "level_queue h level as \<longleftrightarrow>
     head level = first_of as \<and> tail level = last_of as \<and> dll h None as None \<and> distinct as"

lemma level_queue_init [simp]: "level_queue h price_level_init []"
  by (simp add: level_queue_def price_level_init_def)

lemma level_queue_total [simp]:
  "level_queue h (level\<lparr>total_quantity := q\<rparr>) as = level_queue h level as"
  by (simp add: level_queue_def)

lemma level_queue_cong:
  "(\<And>a. a \<in> set as \<Longrightarrow> prev_same_price (h a) = prev_same_price (h' a) \<and>
      next_same_price (h a) = next_same_price (h' a)) \<Longrightarrow>
   level_queue h level as = level_queue h' level as"
  using dll_cong [of as h h' None None] by (simp add: level_queue_def)

lemma level_queue_unique:
  assumes "level_queue h level as" "level_queue h level bs"
  shows "as = bs"
proof -
  have "dll h p as None \<Longrightarrow> dll h p bs None \<Longrightarrow> first_of as = first_of bs \<Longrightarrow> as = bs" for p
  proof (induction as arbitrary: p bs)
    case Nil
    then show ?case by (metis first_of_None)
  next
    case (Cons a as)
    then obtain bs' where bs: "bs = a # bs'" by (cases bs) auto
    with Cons.prems have "first_of as = first_of bs'"
      by (auto split: if_splits)
    with Cons bs show ?case by auto
  qed
  with assms show ?thesis by (auto simp: level_queue_def)
qed

section \<open>The two operations on the represented list\<close>

text \<open>The links are the only fields either operation writes.\<close>

definition same_order :: "order_node_t \<Rightarrow> order_node_t \<Rightarrow> bool" where
  "same_order n n' \<longleftrightarrow>
     n' = n\<lparr>prev_same_price := prev_same_price n', next_same_price := next_same_price n'\<rparr>"

lemma same_order_fields:
  "same_order n n' \<longleftrightarrow>
   node_order_id n' = node_order_id n \<and> node_price n' = node_price n \<and>
   node_quantity n' = node_quantity n \<and> node_side n' = node_side n \<and>
   node_active n' = node_active n"
  by (cases n; cases n') (auto simp: same_order_def)

lemma same_order_refl [simp]: "same_order n n"
  by (simp add: same_order_def)

lemma same_order_links [simp]:
  "same_order n (n\<lparr>prev_same_price := p, next_same_price := q\<rparr>)"
  "same_order n (n\<lparr>prev_same_price := p\<rparr>)"
  "same_order n (n\<lparr>next_same_price := q\<rparr>)"
  by (simp_all add: same_order_def)

theorem enqueue_queue:
  assumes "level_queue h level as" "order \<notin> set as" "enqueue order h level = (h', level')"
  shows "level_queue h' level' (as @ [order])"
    and "\<And>a. same_order (h a) (h' a)"
    and "\<And>a. a \<notin> insert order (set as) \<Longrightarrow> h' a = h a"
    and "total_quantity level' = total_quantity level"
proof -
  have *: "level_queue h' level' (as @ [order]) \<and> (\<forall>a. same_order (h a) (h' a)) \<and>
      (\<forall>a. a \<notin> insert order (set as) \<longrightarrow> h' a = h a) \<and>
      total_quantity level' = total_quantity level"
  proof (cases as rule: rev_cases)
    case Nil
    with assms show ?thesis by (auto simp: level_queue_def enqueue_def)
  next
    case (snoc bs t)
    with assms have t: "tail level = Some t" "head level = first_of as"
      and ne: "t \<noteq> order" "t \<notin> set bs" "order \<notin> set bs" and dl: "dll h None (bs @ [t]) None"
      and d: "distinct bs"
      by (auto simp: level_queue_def)
    let ?h1 = "h(order := (h order)\<lparr>prev_same_price := Some t, next_same_price := None\<rparr>)"
    from assms(3) t ne have h': "h' = ?h1(t := (?h1 t)\<lparr>next_same_price := Some order\<rparr>)"
      and l': "level' = level\<lparr>tail := Some order\<rparr>"
      by (auto simp: enqueue_def Let_def)
    have "dll ?h1 None (bs @ [t]) None"
      using dl ne by (subst dll_upd) auto
    then have "dll h' None (bs @ [t]) (Some order)"
      unfolding h' by (rule dll_set_next) (use ne in simp)
    then have "dll h' None ((bs @ [t]) @ [order]) None"
      unfolding dll_append using ne by (simp add: h')
    with snoc t ne d l' show ?thesis
      by (auto simp: level_queue_def h' first_of_append)
  qed
  from * show "level_queue h' level' (as @ [order])" and "\<And>a. same_order (h a) (h' a)"
    and "\<And>a. a \<notin> insert order (set as) \<Longrightarrow> h' a = h a"
    and "total_quantity level' = total_quantity level" by blast+
qed

text \<open>
  Unlinking: the predecessor half relinks the part before the node (or the level's
  \<^verbatim>\<open>head\<close>), the successor half the part after it (or the level's \<^verbatim>\<open>tail\<close>).
\<close>

lemma dll_bypass:
  assumes dl: "dll h None (xs @ a # ys) None" and d: "distinct (xs @ a # ys)"
    and h1: "h1 = (if xs = [] then h else h(last xs := (h (last xs))\<lparr>next_same_price := first_of ys\<rparr>))"
    and h2: "h2 = (if ys = [] then h1 else h1(hd ys := (h1 (hd ys))\<lparr>prev_same_price := last_of xs\<rparr>))"
  shows "dll h2 None (xs @ ys) None"
proof -
  from dl have xs: "dll h None xs (Some a)" and ys: "dll h (Some a) ys None"
    by (auto simp: dll_append)
  have xs1: "dll h1 None xs (first_of ys)"
  proof (cases xs rule: rev_cases)
    case (snoc bs t)
    with xs d show ?thesis unfolding h1 snoc by (simp del: dll.simps) (rule dll_set_next, auto)
  qed simp
  have ys1: "dll h1 (Some a) ys None"
    using ys d h1 by (cases xs rule: rev_cases) auto
  have xs2: "dll h2 None xs (first_of ys)"
    using xs1 d h2 by (cases ys) auto
  have ys2: "dll h2 (last_of xs) ys None"
  proof (cases ys)
    case (Cons b zs)
    with ys1 d show ?thesis unfolding h2 Cons by (simp del: dll.simps) (rule dll_set_prev, auto)
  qed simp
  from xs2 ys2 show ?thesis
    by (cases "ys = []"; cases "xs = []") (auto simp: dll_append)
qed

theorem unlink_queue:
  assumes "level_queue h level (xs @ order # ys)" "unlink order h level = (h', level')"
  shows "level_queue h' level' (xs @ ys)"
    and "\<And>a. same_order (h a) (h' a)"
    and "\<And>a. a \<notin> set (xs @ order # ys) \<Longrightarrow> h' a = h a"
    and "total_quantity level' = total_quantity level"
proof -
  let ?h1 = "if xs = [] then h else h(last xs := (h (last xs))\<lparr>next_same_price := first_of ys\<rparr>)"
  let ?h2 = "if ys = [] then ?h1 else ?h1(hd ys := (?h1 (hd ys))\<lparr>prev_same_price := last_of xs\<rparr>)"
  from assms(1) have dl: "dll h None (xs @ order # ys) None" and d: "distinct (xs @ order # ys)"
    and ht: "head level = first_of (xs @ order # ys)" "tail level = last_of (xs @ order # ys)"
    by (auto simp: level_queue_def)
  from dl have links: "prev_same_price (h order) = last_of xs" "next_same_price (h order) = first_of ys"
    by (auto simp: dll_append last_of_def split: if_splits)
  have h': "h' = ?h2(order := (?h2 order)\<lparr>prev_same_price := None, next_same_price := None\<rparr>)"
    and hd': "head level' = (if xs = [] then first_of ys else head level)"
    and tl': "tail level' = (if ys = [] then last_of xs else tail level)"
    and tot: "total_quantity level' = total_quantity level"
    using assms(2) links
    by (cases xs rule: rev_cases; cases ys; auto simp: unlink_def Let_def)+
  have "dll ?h2 None (xs @ ys) None" by (rule dll_bypass [OF dl d refl refl])
  then have "dll h' None (xs @ ys) None"
    unfolding h' using d by (subst dll_upd) auto
  with ht hd' tl' d show "level_queue h' level' (xs @ ys)"
    by (auto simp: level_queue_def first_of_append last_of_append) (auto simp: last_of_def)
  show "h' a = h a" if "a \<notin> set (xs @ order # ys)" for a
  proof -
    from that have "a \<noteq> order" "xs \<noteq> [] \<Longrightarrow> a \<noteq> last xs" "ys \<noteq> [] \<Longrightarrow> a \<noteq> hd ys" by auto
    then show ?thesis unfolding h' by simp
  qed
  show "same_order (h a) (h' a)" for a
    unfolding h' by (simp add: same_order_fields)
  show "total_quantity level' = total_quantity level" by (rule tot)
qed

end
