(* ===== verification/Book_Side.thy ===== *)
theory Book_Side
  imports Order_Queue
begin

text \<open>
  One resting side of the book (\<^verbatim>\<open>order_book_side_t\<close>): the price ladder of levels over the
  node store, with its operations, and the representation relation \<open>side_rep\<close> that ties a
  ladder and a store to the addresses resting at each price.
\<close>

section \<open>Operations\<close>

type_synonym levels = "price_level_t ladder"

definition append_order :: "side_t \<Rightarrow> addr \<Rightarrow> heap \<Rightarrow> levels \<Rightarrow> heap \<times> levels" where
  "append_order s order h levels =
     (let price = node_price (h order);
          levels1 = map_try_emplace (resting_levels_compare s) price price_level_init levels;
          level = the (map_of levels1 price);
          level1 = level\<lparr>total_quantity := wrap64 (total_quantity level + node_quantity (h order))\<rparr>;
          (h', level') = enqueue order h level1
      in (h', map_assign price level' levels1))"

definition detach :: "addr \<Rightarrow> heap \<Rightarrow> levels \<Rightarrow> heap \<times> levels" where
  "detach order h levels =
     (let price = node_price (h order)
      in case map_of levels price of
           None \<Rightarrow> (h, levels)
         | Some level \<Rightarrow>
             (let level1 = level\<lparr>total_quantity := wrap64 (total_quantity level - node_quantity (h order))\<rparr>;
                  (h', level') = unlink order h level1
              in (h', if head level' = None then map_erase price levels
                      else map_assign price level' levels)))"

definition best_level :: "levels \<Rightarrow> (price_t \<times> price_level_t) option" where
  "best_level levels = (case levels of [] \<Rightarrow> None | (price, level) # _ \<Rightarrow> Some (price, level))"

definition pop_best_level :: "levels \<Rightarrow> levels" where
  "pop_best_level levels = (case levels of [] \<Rightarrow> [] | _ # rest \<Rightarrow> rest)"

definition depth :: "levels \<Rightarrow> nat" where
  "depth levels = length levels"

text \<open>The loop of \<^verbatim>\<open>fillable_quantity\<close>, with \<^verbatim>\<open>available\<close> as its accumulator.\<close>

fun fillable_from :: "side_t \<Rightarrow> price_t \<Rightarrow> quantity_t \<Rightarrow> quantity_t \<Rightarrow> levels \<Rightarrow> quantity_t" where
  "fillable_from s limit_price need available [] = available"
| "fillable_from s limit_price need available ((price, level) # rest) =
     (if \<not> crosses s limit_price price then available
      else (let available1 = wrap64 (available + total_quantity level)
            in if available1 \<ge> need then need
               else fillable_from s limit_price need available1 rest))"

definition fillable_quantity :: "side_t \<Rightarrow> price_t \<Rightarrow> quantity_t \<Rightarrow> levels \<Rightarrow> quantity_t" where
  "fillable_quantity s limit_price need levels = fillable_from s limit_price need 0 levels"

section \<open>What a side represents\<close>

definition good_node :: "side_t \<Rightarrow> price_t \<Rightarrow> order_node_t \<Rightarrow> bool" where
  "good_node s p n \<longleftrightarrow> node_price n = p \<and> node_side n = s \<and> node_active n \<and>
     0 < node_quantity n \<and> node_quantity n \<le> int64_max"

lemma good_node_cong: "same_order n n' \<Longrightarrow> good_node s p n' = good_node s p n"
  by (simp add: good_node_def same_order_fields)

definition queue_total :: "heap \<Rightarrow> addr list \<Rightarrow> int" where
  "queue_total h as = sum_list (map (\<lambda>a. node_quantity (h a)) as)"

lemma queue_total_simps [simp]:
  "queue_total h [] = 0"
  "queue_total h (a # as) = node_quantity (h a) + queue_total h as"
  "queue_total h (as @ bs) = queue_total h as + queue_total h bs"
  by (simp_all add: queue_total_def)

lemma queue_total_cong:
  "(\<And>a. a \<in> set as \<Longrightarrow> node_quantity (h' a) = node_quantity (h a)) \<Longrightarrow> queue_total h' as = queue_total h as"
  by (induction as) auto

fun level_rep :: "side_t \<Rightarrow> heap \<Rightarrow> price_t \<times> price_level_t \<Rightarrow> price_t \<times> addr list \<Rightarrow> bool" where
  "level_rep s h (p, level) (p', as) \<longleftrightarrow>
     p = p' \<and> as \<noteq> [] \<and> level_queue h level as \<and> (\<forall>a \<in> set as. good_node s p (h a)) \<and>
     total_quantity level = wrap64 (queue_total h as)"

lemma level_rep_fst: "level_rep s h e e' \<Longrightarrow> fst e = fst e'"
  by (cases e; cases e') simp

lemma level_rep_cong:
  assumes "\<And>a. a \<in> set (snd e') \<Longrightarrow> h' a = h a"
  shows "level_rep s h' e e' = level_rep s h e e'"
proof -
  have "level_queue h' (snd e) (snd e') = level_queue h (snd e) (snd e')"
    by (rule level_queue_cong) (use assms in simp)
  moreover have "queue_total h' (snd e') = queue_total h (snd e')"
    by (rule queue_total_cong) (use assms in simp)
  ultimately show ?thesis using assms by (cases e; cases e') auto
qed

definition side_addrs :: "addr list ladder \<Rightarrow> addr list" where
  "side_addrs g = concat (map snd g)"

lemma side_addrs_simps [simp]:
  "side_addrs [] = []" "side_addrs ((p, as) # g) = as @ side_addrs g"
  "side_addrs (g @ g') = side_addrs g @ side_addrs g'"
  by (simp_all add: side_addrs_def)

definition side_rep :: "side_t \<Rightarrow> heap \<Rightarrow> levels \<Rightarrow> addr list ladder \<Rightarrow> bool" where
  "side_rep s h levels g \<longleftrightarrow>
     list_all2 (level_rep s h) levels g \<and>
     sorted_wrt (resting_levels_compare s) (map fst g) \<and> distinct (side_addrs g)"

lemma side_rep_keys:
  assumes "side_rep s h levels g"
  shows "map fst levels = map fst g"
proof -
  from assms have "list_all2 (level_rep s h) levels g" by (simp add: side_rep_def)
  then show ?thesis by (induction rule: list_all2_induct) (auto dest: level_rep_fst)
qed

lemma side_rep_Nil [simp]: "side_rep s h [] []"
  by (simp add: side_rep_def)

lemma side_rep_sorted:
  "side_rep s h levels g \<Longrightarrow> sorted_wrt (resting_levels_compare s) (map fst levels)"
  using side_rep_keys by (fastforce simp: side_rep_def)

lemma side_rep_cong:
  assumes "\<And>a. a \<in> set (side_addrs g) \<Longrightarrow> h' a = h a"
  shows "side_rep s h' levels g = side_rep s h levels g"
proof -
  have "list_all2 (level_rep s h') levels g = list_all2 (level_rep s h) levels g"
  proof (rule list.rel_cong [OF refl refl])
    show "level_rep s h' e e' = level_rep s h e e'" if "e' \<in> set g" for e e'
      using that assms by (intro level_rep_cong) (auto simp: side_addrs_def)
  qed
  then show ?thesis by (simp add: side_rep_def)
qed

lemma side_rep_level:
  assumes "side_rep s h levels g" "(p, as) \<in> set g"
  obtains l1 level l2 g1 g2 where "levels = l1 @ (p, level) # l2" "g = g1 @ (p, as) # g2"
    "list_all2 (level_rep s h) l1 g1" "level_rep s h (p, level) (p, as)"
    "list_all2 (level_rep s h) l2 g2" "p \<notin> fst ` set l1" "p \<notin> fst ` set l2"
proof -
  from assms(2) obtain g1 g2 where g: "g = g1 @ (p, as) # g2" by (meson split_list)
  with assms(1) obtain l1 e l2 where l: "levels = l1 @ e # l2"
    "list_all2 (level_rep s h) l1 g1" "level_rep s h e (p, as)" "list_all2 (level_rep s h) l2 g2"
    by (auto simp: side_rep_def list_all2_append2 list_all2_Cons2)
  from l(3) obtain level where e: "e = (p, level)" by (cases e) auto
  have "distinct (map fst levels)"
    using side_rep_sorted [OF assms(1)] by (rule resting.keys_distinct)
  with l(1) e have "p \<notin> fst ` set l1" "p \<notin> fst ` set l2" by auto
  with g l e show ?thesis using that by blast
qed

lemma side_rep_good:
  assumes "side_rep s h levels g" "(p, as) \<in> set g" "a \<in> set as"
  shows "good_node s p (h a)"
  using assms by (auto elim: side_rep_level)

lemma side_addrs_disjoint:
  assumes "distinct (side_addrs g)" "(p, as) \<in> set g" "(q, bs) \<in> set g" "p \<noteq> q"
  shows "set as \<inter> set bs = {}"
proof -
  from assms(2) obtain g1 g2 where g: "g = g1 @ (p, as) # g2" by (meson split_list)
  with assms(3,4) have "(q, bs) \<in> set g1 \<or> (q, bs) \<in> set g2" by auto
  then have "set bs \<subseteq> set (side_addrs g1) \<union> set (side_addrs g2)"
    by (auto simp: side_addrs_def)
  with assms(1) g show ?thesis by auto
qed

section \<open>The abstract side: prices with the orders queued at them\<close>

type_synonym resting_order = "order_id_t \<times> quantity_t"

definition abs_order :: "order_node_t \<Rightarrow> resting_order" where
  "abs_order n = (node_order_id n, node_quantity n)"

definition abs_side :: "heap \<Rightarrow> addr list ladder \<Rightarrow> resting_order list ladder" where
  "abs_side h g = map_values (map (\<lambda>a. abs_order (h a))) g"

lemma abs_side_simps [simp]:
  "abs_side h [] = []"
  "abs_side h ((p, as) # g) = (p, map (\<lambda>a. abs_order (h a)) as) # abs_side h g"
  "abs_side h (g @ g') = abs_side h g @ abs_side h g'"
  by (simp_all add: abs_side_def)

lemma abs_side_cong:
  "(\<And>a. a \<in> set (side_addrs g) \<Longrightarrow> abs_order (h' a) = abs_order (h a)) \<Longrightarrow> abs_side h' g = abs_side h g"
  by (induction g) auto

lemma abs_side_frame:
  assumes "A \<inter> set (side_addrs g) = {}" "\<And>a. a \<notin> A \<Longrightarrow> h' a = h a"
  shows "abs_side h' g = abs_side h g"
proof (rule abs_side_cong)
  fix a assume "a \<in> set (side_addrs g)"
  with assms(1) have "a \<notin> A" by blast
  then show "abs_order (h' a) = abs_order (h a)" by (simp add: assms(2))
qed

lemma abs_order_cong: "same_order n n' \<Longrightarrow> abs_order n' = abs_order n"
  by (simp add: abs_order_def same_order_fields)

section \<open>Appending a node\<close>

abbreviation enqueue_at :: "side_t \<Rightarrow> price_t \<Rightarrow> 'a \<Rightarrow> 'a list ladder \<Rightarrow> 'a list ladder" where
  "enqueue_at s p x m \<equiv> map_upsert (resting_levels_compare s) p [] (\<lambda>xs. xs @ [x]) m"

lemma side_addrs_enqueue_at:
  assumes "sorted_wrt (resting_levels_compare s) (map fst g)"
  shows "set (side_addrs (enqueue_at s p a g)) = insert a (set (side_addrs g))"
    and "distinct (side_addrs g) \<Longrightarrow> a \<notin> set (side_addrs g) \<Longrightarrow>
         distinct (side_addrs (enqueue_at s p a g))"
  by (rule resting.upsert_split [OF assms, of p "[]" "\<lambda>xs. xs @ [a]"]; auto)+

lemma abs_side_enqueue_at:
  assumes "\<And>a. same_order (h a) (h' a)"
  shows "abs_side h' (enqueue_at s p x g) = enqueue_at s p (abs_order (h x)) (abs_side h g)"
proof -
  have "abs_order (h' a) = abs_order (h a)" for a
    using assms by (rule abs_order_cong)
  then show ?thesis unfolding abs_side_def
    by (subst map_values_upsert [where f' = "\<lambda>xs. xs @ [abs_order (h x)]"]) simp_all
qed

text \<open>The level of a price, the empty level if there is none, and the addresses queued there.\<close>

definition level_at :: "levels \<Rightarrow> price_t \<Rightarrow> price_level_t" where
  "level_at levels p = (case map_of levels p of None \<Rightarrow> price_level_init | Some l \<Rightarrow> l)"

definition queue_at :: "'a list ladder \<Rightarrow> price_t \<Rightarrow> 'a list" where
  "queue_at g p = (case map_of g p of None \<Rightarrow> [] | Some as \<Rightarrow> as)"

lemma map_of_at:
  "p \<notin> fst ` set levels \<Longrightarrow> level_at levels p = price_level_init"
  "distinct (map fst levels) \<Longrightarrow> (p, l) \<in> set levels \<Longrightarrow> level_at levels p = l"
  "p \<notin> fst ` set g \<Longrightarrow> queue_at g p = []"
  "distinct (map fst g) \<Longrightarrow> (p, as) \<in> set g \<Longrightarrow> queue_at g p = as"
  by (simp_all add: level_at_def queue_at_def map_of_eq_None_iff [THEN iffD2])

lemma side_rep_distinct_keys:
  assumes "side_rep s h levels g"
  shows "fst ` set levels = fst ` set g" "distinct (map fst levels)" "distinct (map fst g)"
  using side_rep_keys [OF assms] resting.keys_distinct [OF side_rep_sorted [OF assms]]
  by (metis list.set_map, simp_all)

lemma side_rep_at:
  assumes rep: "side_rep s h levels g"
  shows "level_queue h (level_at levels p) (queue_at g p)"
    and "\<And>a. a \<in> set (queue_at g p) \<Longrightarrow> good_node s p (h a)"
    and "total_quantity (level_at levels p) = wrap64 (queue_total h (queue_at g p))"
    and "set (queue_at g p) \<subseteq> set (side_addrs g)"
    and "\<And>e. e \<in> set g \<Longrightarrow> fst e \<noteq> p \<Longrightarrow> set (queue_at g p) \<inter> set (snd e) = {}"
proof -
  note keys = side_rep_distinct_keys [OF rep]
  have "level_queue h (level_at levels p) (queue_at g p) \<and>
      (\<forall>a \<in> set (queue_at g p). good_node s p (h a)) \<and>
      total_quantity (level_at levels p) = wrap64 (queue_total h (queue_at g p)) \<and>
      set (queue_at g p) \<subseteq> set (side_addrs g) \<and>
      (\<forall>e \<in> set g. fst e \<noteq> p \<longrightarrow> set (queue_at g p) \<inter> set (snd e) = {})"
  proof (cases "p \<in> fst ` set g")
    case False
    with keys(1) show ?thesis by (simp add: map_of_at) (simp add: price_level_init_def)
  next
    case True
    then obtain as where as: "(p, as) \<in> set g" by auto
    from rep as obtain l1 l l2 where l: "levels = l1 @ (p, l) # l2" "level_rep s h (p, l) (p, as)"
      by (rule side_rep_level)
    from l(1) have "level_at levels p = l" by (intro map_of_at(2) keys(2)) simp
    moreover have "queue_at g p = as" using as by (intro map_of_at(4) keys(3))
    moreover have "set as \<inter> set (snd e) = {}" if "e \<in> set g" "fst e \<noteq> p" for e
      using rep that by (intro side_addrs_disjoint [OF _ as, of "fst e"]) (auto simp: side_rep_def)
    ultimately show ?thesis using l(2) as by (auto simp: side_addrs_def)
  qed
  then show "level_queue h (level_at levels p) (queue_at g p)"
    and "\<And>a. a \<in> set (queue_at g p) \<Longrightarrow> good_node s p (h a)"
    and "total_quantity (level_at levels p) = wrap64 (queue_total h (queue_at g p))"
    and "set (queue_at g p) \<subseteq> set (side_addrs g)"
    and "\<And>e. e \<in> set g \<Longrightarrow> fst e \<noteq> p \<Longrightarrow> set (queue_at g p) \<inter> set (snd e) = {}"
    by blast+
qed

text \<open>\<^verbatim>\<open>append\<close> is an update of the entry of the order's price.\<close>

definition enqueue_level :: "addr \<Rightarrow> heap \<Rightarrow> price_level_t \<Rightarrow> heap \<times> price_level_t" where
  "enqueue_level order h level =
     enqueue order h (level\<lparr>total_quantity := wrap64 (total_quantity level + node_quantity (h order))\<rparr>)"

lemma append_order_upsert:
  assumes "sorted_wrt (resting_levels_compare s) (map fst levels)"
    and "append_order s order h levels = (h', levels')"
  shows "h' = fst (enqueue_level order h (level_at levels (node_price (h order))))"
    and "levels' = map_upsert (resting_levels_compare s) (node_price (h order)) price_level_init
                     (\<lambda>l. snd (enqueue_level order h l)) levels"
proof -
  let ?p = "node_price (h order)"
  let ?l1 = "map_try_emplace (resting_levels_compare s) ?p price_level_init levels"
  have lv: "the (map_of ?l1 ?p) = level_at levels ?p"
    unfolding level_at_def resting.map_of_try_emplace [OF assms(1)] by (simp split: option.split)
  show "h' = fst (enqueue_level order h (level_at levels ?p))"
    using assms(2) unfolding append_order_def Let_def lv
    by (auto simp: enqueue_level_def split: prod.splits)
  have "levels' = map_assign ?p (snd (enqueue_level order h (the (map_of ?l1 ?p)))) ?l1"
    using assms(2) unfolding append_order_def Let_def lv
    by (auto simp: enqueue_level_def split: prod.splits)
  then show "levels' = map_upsert (resting_levels_compare s) ?p price_level_init
                     (\<lambda>l. snd (enqueue_level order h l)) levels"
    using resting.assign_try_emplace [OF assms(1), where f = "\<lambda>l. snd (enqueue_level order h l)"]
    by simp
qed

lemma enqueue_level_rep:
  assumes "level_queue h level as" "\<forall>a \<in> set as. good_node s p (h a)"
    and "total_quantity level = wrap64 (queue_total h as)" "order \<notin> set as"
    and good: "good_node s p (h order)" and enq: "enqueue_level order h level = (h', level')"
  shows "level_rep s h' (p, level') (p, as @ [order])"
    and "\<And>a. same_order (h a) (h' a)"
    and "\<And>a. a \<notin> insert order (set as) \<Longrightarrow> h' a = h a"
proof -
  note enqd = enqueue_queue [OF _ assms(4) enq [unfolded enqueue_level_def], simplified, OF assms(1)]
  show same: "\<And>a. same_order (h a) (h' a)"
    and "\<And>a. a \<notin> insert order (set as) \<Longrightarrow> h' a = h a"
    using enqd by blast+
  have "queue_total h' (as @ [order]) = queue_total h (as @ [order])"
    using same by (intro queue_total_cong) (simp add: same_order_fields)
  moreover have "\<forall>a \<in> set (as @ [order]). good_node s p (h' a)"
    using assms(2) good by (auto simp: good_node_cong [OF same])
  ultimately show "level_rep s h' (p, level') (p, as @ [order])"
    using enqd(1,4) assms(3) by simp
qed

theorem append_order_rep:
  assumes rep: "side_rep s h levels g" and new: "order \<notin> set (side_addrs g)"
    and good: "good_node s p (h order)" and app: "append_order s order h levels = (h', levels')"
  shows "side_rep s h' levels' (enqueue_at s p order g)"
    and "\<And>a. same_order (h a) (h' a)"
    and "\<And>a. a \<notin> insert order (set (side_addrs g)) \<Longrightarrow> h' a = h a"
proof -
  note sorted = side_rep_sorted [OF rep] and keys = side_rep_distinct_keys [OF rep]
    and at = side_rep_at [OF rep, where p = p]
  from good have p: "node_price (h order) = p" by (simp add: good_node_def)
  let ?F = "\<lambda>l. snd (enqueue_level order h l)"
  note app' = append_order_upsert [OF sorted app, unfolded p]
  have enq: "enqueue_level order h (level_at levels p) = (h', ?F (level_at levels p))"
    by (simp add: app'(1))
  from new at(4) have out: "order \<notin> set (queue_at g p)" by auto
  note enqd = enqueue_level_rep [OF at(1) ballI [OF at(2)] at(3) out good enq]
  show "\<And>a. same_order (h a) (h' a)" by (rule enqd(2))
  show "\<And>a. a \<notin> insert order (set (side_addrs g)) \<Longrightarrow> h' a = h a"
    using enqd(3) at(4) by auto
  have "list_all2 (level_rep s h') levels' (enqueue_at s p order g)"
    unfolding app'(2)
  proof (rule resting.upsert_rel [OF _ sorted level_rep_fst])
    show "list_all2 (level_rep s h) levels g" using rep by (simp add: side_rep_def)
    show "level_rep s h' e e'" if "e' \<in> set g" "level_rep s h e e'" "fst e \<noteq> p" for e e'
    proof (subst level_rep_cong [where h = h])
      fix a assume a: "a \<in> set (snd e')"
      with that(1) new have "a \<noteq> order" by (auto simp: side_addrs_def)
      moreover from a that at(5) [of e'] have "a \<notin> set (queue_at g p)"
        using level_rep_fst [OF that(2)] by auto
      ultimately show "h' a = h a" using enqd(3) by blast
    qed (rule that(2))
    show "level_rep s h' (p, ?F price_level_init) (p, [] @ [order])" if "p \<notin> fst ` set levels"
      using that enqd(1) keys(1) by (simp add: map_of_at)
    show "level_rep s h' (p, ?F v) (p, v' @ [order])" if "(p, v) \<in> set levels" "(p, v') \<in> set g" for v v'
      using that enqd(1) map_of_at(2) [OF keys(2) that(1)] map_of_at(4) [OF keys(3) that(2)] by simp
  qed
  with rep new side_addrs_enqueue_at [where s = s and g = g and p = p and a = order] resting.sorted_upsert [of s g]
  show "side_rep s h' levels' (enqueue_at s p order g)"
    by (simp add: side_rep_def)
qed

section \<open>Changing one level\<close>

lemma list_all2_level_rep_frame:
  assumes "list_all2 (level_rep s h) l g" "\<And>a. a \<in> set (side_addrs g) \<Longrightarrow> h' a = h a"
  shows "list_all2 (level_rep s h') l g"
proof (rule list.rel_mono_strong [OF assms(1)])
  fix e e' assume "e' \<in> set g" "level_rep s h e e'"
  then show "level_rep s h' e e'"
    using assms(2) by (subst level_rep_cong [where h = h]) (auto simp: side_addrs_def)
qed

lemma side_rep_replace:
  assumes rep: "side_rep s h (l1 @ (p, level) # l2) (g1 @ (p, as) # g2)"
    and l1: "list_all2 (level_rep s h) l1 g1"
    and frame: "\<And>a. a \<notin> set as \<Longrightarrow> h' a = h a"
  shows "side_rep s h' (l1 @ l2) (g1 @ g2)"
    and "level_rep s h' (p, level') (p, as') \<Longrightarrow> distinct as' \<Longrightarrow> set as' \<subseteq> set as \<Longrightarrow>
         side_rep s h' (l1 @ (p, level') # l2) (g1 @ (p, as') # g2)"
proof -
  have "length l1 = length g1" using l1 by (rule list_all2_lengthD)
  with rep have l2: "list_all2 (level_rep s h) l2 g2"
    by (simp add: side_rep_def list_all2_append)
  from rep have d: "distinct (side_addrs g1 @ as @ side_addrs g2)" by (simp add: side_rep_def)
  have "list_all2 (level_rep s h') l1 g1" "list_all2 (level_rep s h') l2 g2"
    by (rule list_all2_level_rep_frame [OF l1] list_all2_level_rep_frame [OF l2]; use frame d in auto)+
  with rep show "side_rep s h' (l1 @ l2) (g1 @ g2)"
    and "level_rep s h' (p, level') (p, as') \<Longrightarrow> distinct as' \<Longrightarrow> set as' \<subseteq> set as \<Longrightarrow>
         side_rep s h' (l1 @ (p, level') # l2) (g1 @ (p, as') # g2)"
    by (auto simp: side_rep_def sorted_wrt_append list_all2_appendI)
qed

lemma side_rep_replace_first:
  assumes "side_rep s h ((p, level) # l) ((p, as) # g)" "\<And>a. a \<notin> set as \<Longrightarrow> h' a = h a"
  shows "side_rep s h' l g"
    and "level_rep s h' (p, level') (p, as') \<Longrightarrow> distinct as' \<Longrightarrow> set as' \<subseteq> set as \<Longrightarrow>
         side_rep s h' ((p, level') # l) ((p, as') # g)"
  using side_rep_replace [of s h "[]" p level l "[]" as g h'] assms by simp_all

section \<open>Detaching a node\<close>

definition drop_where :: "('a \<Rightarrow> bool) \<Rightarrow> 'a list ladder \<Rightarrow> 'a list ladder" where
  "drop_where P m = filter (\<lambda>(k, xs). xs \<noteq> []) (map_values (filter (\<lambda>x. \<not> P x)) m)"

lemma drop_where_simps [simp]:
  "drop_where P [] = []"
  "drop_where P ((k, xs) # m) =
     (if filter (\<lambda>x. \<not> P x) xs = [] then drop_where P m
      else (k, filter (\<lambda>x. \<not> P x) xs) # drop_where P m)"
  "drop_where P (m @ m') = drop_where P m @ drop_where P m'"
  by (simp_all add: drop_where_def)

lemma drop_where_id:
  "\<forall>(k, xs) \<in> set m. xs \<noteq> [] \<and> (\<forall>x \<in> set xs. \<not> P x) \<Longrightarrow> drop_where P m = m"
  by (induction m) auto

lemma side_rep_nonempty: "side_rep s h levels g \<Longrightarrow> (p, as) \<in> set g \<Longrightarrow> as \<noteq> []"
  by (auto elim!: side_rep_level)

lemma drop_where_addr:
  assumes "side_rep s h levels (g1 @ (p, xs @ a # ys) # g2)"
  shows "drop_where ((=) a) (g1 @ (p, xs @ a # ys) # g2) =
     (if xs @ ys = [] then g1 @ g2 else g1 @ (p, xs @ ys) # g2)"
proof -
  from assms have d: "distinct (side_addrs g1 @ (xs @ a # ys) @ side_addrs g2)"
    by (simp add: side_rep_def)
  have "drop_where ((=) a) g1 = g1" "drop_where ((=) a) g2 = g2"
    by (rule drop_where_id; use d side_rep_nonempty [OF assms] in \<open>auto simp: side_addrs_def\<close>)+
  moreover have "filter (\<lambda>x. a \<noteq> x) xs = xs" "filter (\<lambda>x. a \<noteq> x) ys = ys"
    by (rule filter_True; use d in auto)+
  ultimately show ?thesis by simp
qed

theorem detach_rep:
  assumes rep: "side_rep s h levels g" and mem: "(p, as) \<in> set g" "order \<in> set as"
    and det: "detach order h levels = (h', levels')"
  shows "side_rep s h' levels' (drop_where ((=) order) g)"
    and "\<And>a. same_order (h a) (h' a)"
    and "\<And>a. a \<notin> set as \<Longrightarrow> h' a = h a"
proof -
  from mem(2) obtain xs ys where as: "as = xs @ order # ys" by (meson split_list)
  from rep mem(1) obtain l1 level l2 g1 g2 where l: "levels = l1 @ (p, level) # l2"
    and g: "g = g1 @ (p, as) # g2" and l1: "list_all2 (level_rep s h) l1 g1"
    and lv: "level_rep s h (p, level) (p, as)" and out: "p \<notin> fst ` set l1" "p \<notin> fst ` set l2"
    by (rule side_rep_level)
  have p: "node_price (h order) = p"
    using side_rep_good [OF rep mem] by (simp add: good_node_def)
  have "map_of levels p = Some level"
    using side_rep_distinct_keys(2) [OF rep] l by (intro map_of_is_SomeI) auto
  then obtain level' where un: "unlink order h
      (level\<lparr>total_quantity := wrap64 (total_quantity level - node_quantity (h order))\<rparr>) = (h', level')"
    and levels': "levels' = (if head level' = None then map_erase p levels else map_assign p level' levels)"
    using det by (auto simp: detach_def p Let_def split: prod.splits)
  note unl = unlink_queue [OF _ un, simplified, OF lv [simplified, THEN conjunct2, THEN conjunct1, unfolded as]]
  show same: "\<And>a. same_order (h a) (h' a)" by (rule unl(2))
  show frame: "\<And>a. a \<notin> set as \<Longrightarrow> h' a = h a" using unl(3) as by auto
  have tot: "queue_total h' zs = queue_total h zs" for zs
    using same by (intro queue_total_cong) (simp add: same_order_fields)
  from lv have lv': "level_rep s h' (p, level') (p, xs @ ys)" if "xs @ ys \<noteq> []"
    using that unl(1,4) by (auto simp: as tot good_node_cong [OF same] algebra_simps)
  have d: "distinct (xs @ ys)" using unl(1) by (auto simp: level_queue_def)
  have drop: "drop_where ((=) order) g = (if xs @ ys = [] then g1 @ g2 else g1 @ (p, xs @ ys) # g2)"
    using rep unfolding g as by (rule drop_where_addr)
  show "side_rep s h' levels' (drop_where ((=) order) g)"
  proof (cases "xs @ ys = []")
    case True
    with unl(1) have "head level' = None" by (simp add: level_queue_def)
    with True show ?thesis unfolding drop levels' l
      using side_rep_replace(1) [OF rep [unfolded l g] l1 frame] out by simp
  next
    case False
    with unl(1) have "(head level' = None) = False" by (simp add: level_queue_def)
    moreover have "side_rep s h' (l1 @ (p, level') # l2) (g1 @ (p, xs @ ys) # g2)"
      by (rule side_rep_replace(2) [OF rep [unfolded l g] l1 frame lv' [OF False] d]) (auto simp: as)
    ultimately show ?thesis using out unfolding drop levels' l if_not_P [OF False] by auto
  qed
qed

lemma abs_side_drop:
  assumes same: "\<And>a. same_order (h a) (h' a)"
    and inj: "inj_on (\<lambda>a. node_order_id (h a)) (insert x (set (side_addrs g)))"
  shows "abs_side h' (drop_where ((=) x) g) =
    drop_where (\<lambda>(i, q). i = node_order_id (h x)) (abs_side h g)"
  using inj
proof (induction g)
  case (Cons e g)
  obtain p as where e: "e = (p, as)" by fastforce
  have ao: "abs_order (h' a) = abs_order (h a)" for a using same by (rule abs_order_cong)
  have "(node_order_id (h a) = node_order_id (h x)) = (x = a)" if "a \<in> set as" for a
    using that Cons.prems by (auto simp: e inj_on_def)
  then have f: "filter (\<lambda>r. \<not> (case r of (i, q) \<Rightarrow> i = node_order_id (h x))) (map (\<lambda>a. abs_order (h a)) as)
      = map (\<lambda>a. abs_order (h a)) (filter (\<lambda>a. x \<noteq> a) as)"
    by (auto simp: filter_map abs_order_def comp_def intro!: arg_cong [where f = "map _"] filter_cong)
  have "abs_side h' (drop_where ((=) x) g) =
    drop_where (\<lambda>(i, q). i = node_order_id (h x)) (abs_side h g)"
    by (rule Cons.IH) (rule inj_on_subset [OF Cons.prems], auto simp: e)
  then show ?case by (auto simp: e f ao simp del: filter_map)
qed simp

end
