(* ===== verification/Clob.thy ===== *)
theory Clob
  imports Book_Side
begin

text \<open>
  The single-symbol book (\<^verbatim>\<open>clob_t\<close>): its state, the matching loops and the three event
  handlers, at the level of the source's pointers. A loop that may not return, and an
  \<^verbatim>\<open>assert\<close> that fails, is \<open>None\<close>; that neither happens on a well-formed book is proved in
  the theory \<^verbatim>\<open>Clob_Refinement\<close>.
\<close>

section \<open>State\<close>

text \<open>
  \<open>nodes\<close> and \<open>next_node\<close> are the resting-order arena: a monotonic resource hands out fresh
  addresses and never reuses one. The emitter is the list of the events it was called with,
  in order: the book never reads its emitter, so what any emitter does is a fold over this
  list.
\<close>

record clob_t =
  nodes :: heap
  next_node :: addr
  bids :: levels
  asks :: levels
  lookup :: "order_id_t \<rightharpoonup> addr"
  emitter :: "output_event_t list"

definition order_node_init :: order_node_t where
  "order_node_init = \<lparr>node_order_id = 0, node_price = 0, node_quantity = 0, node_side = buy,
     node_active = True, prev_same_price = None, next_same_price = None\<rparr>"

definition clob_init :: clob_t where
  "clob_init = \<lparr>nodes = (\<lambda>_. order_node_init), next_node = 0, bids = [], asks = [],
     lookup = Map.empty, emitter = []\<rparr>"

definition emit :: "output_event_t \<Rightarrow> clob_t \<Rightarrow> clob_t" where
  "emit ev c = c\<lparr>emitter := emitter c @ [ev]\<rparr>"

fun side_book :: "side_t \<Rightarrow> clob_t \<Rightarrow> levels" where
  "side_book buy c = bids c"
| "side_book sell c = asks c"

fun set_side_book :: "side_t \<Rightarrow> levels \<Rightarrow> clob_t \<Rightarrow> clob_t" where
  "set_side_book buy levels c = c\<lparr>bids := levels\<rparr>"
| "set_side_book sell levels c = c\<lparr>asks := levels\<rparr>"

definition bid_depth :: "clob_t \<Rightarrow> nat" where
  "bid_depth c = depth (bids c)"

definition ask_depth :: "clob_t \<Rightarrow> nat" where
  "ask_depth c = depth (asks c)"

section \<open>Matching\<close>

text \<open>\<^verbatim>\<open>retire_resting\<close>: unlink the node, mark it inactive, forget its id.\<close>

definition retire_resting :: "clob_t \<Rightarrow> price_level_t \<Rightarrow> addr \<Rightarrow> clob_t \<times> price_level_t" where
  "retire_resting c level node =
     (let (h, level') = unlink node (nodes c) level;
          h' = h(node := (h node)\<lparr>node_active := False\<rparr>)
      in (c\<lparr>nodes := h', lookup := (lookup c)(node_order_id (h' node) := None)\<rparr>, level'))"

text \<open>
  One iteration of the loop of \<^verbatim>\<open>match_level\<close>: the state it carries is the book, the level
  (a reference into the ladder, written back by \<^verbatim>\<open>match_against\<close>), the incoming order and
  the quantity filled so far.
\<close>

type_synonym match_state = "clob_t \<times> price_level_t \<times> add_order_event_t \<times> quantity_t"

definition match_resting :: "addr \<Rightarrow> match_state \<Rightarrow> match_state" where
  "match_resting resting st =
     (case st of (c, level, incoming, filled_quantity) \<Rightarrow>
        let resting_qty = node_quantity (nodes c resting);
            trade_qty = min (add_quantity incoming) resting_qty;
            resting_remaining = wrap64 (resting_qty - trade_qty);
            resting_id = node_order_id (nodes c resting);
            c1 = emit (trade_event (add_order_id incoming) resting_id trade_qty) c;
            filled_quantity1 = wrap64 (filled_quantity + trade_qty);
            level1 = level\<lparr>total_quantity := wrap64 (total_quantity level - trade_qty)\<rparr>;
            incoming1 = incoming\<lparr>add_quantity := wrap64 (add_quantity incoming - trade_qty)\<rparr>
        in if resting_remaining = 0
           then (let c2 = emit (order_filled_event resting_id trade_qty) c1;
                     (c3, level2) = retire_resting c2 level1 resting
                 in (c3, level2, incoming1, filled_quantity1))
           else (let c2 = c1\<lparr>nodes := (nodes c1)(resting :=
                         (nodes c1 resting)\<lparr>node_quantity := resting_remaining\<rparr>)\<rparr>;
                     c3 = emit (order_resting_event resting_id trade_qty resting_remaining) c2
                 in (c3, level1, incoming1, filled_quantity1)))"

partial_function (option) match_level_loop :: "addr option \<Rightarrow> match_state \<Rightarrow> match_state option" where
  "match_level_loop cursor st =
     (case st of (c, level, incoming, filled_quantity) \<Rightarrow>
        case cursor of
          None \<Rightarrow> Some st
        | Some resting \<Rightarrow>
            if add_quantity incoming > 0
            then if \<not> node_active (nodes c resting) then None
                 else match_level_loop (next_same_price (nodes c resting)) (match_resting resting st)
            else Some st)"

definition match_level ::
    "clob_t \<Rightarrow> price_level_t \<Rightarrow> add_order_event_t \<Rightarrow> match_state option" where
  "match_level c level incoming = match_level_loop (head level) (c, level, incoming, 0)"

text \<open>\<^verbatim>\<open>match_against\<close>: \<open>s\<close> is the side of the book that is walked.\<close>

partial_function (option) match_against ::
    "side_t \<Rightarrow> clob_t \<Rightarrow> add_order_event_t \<Rightarrow> quantity_t \<Rightarrow>
     (clob_t \<times> add_order_event_t \<times> quantity_t) option" where
  "match_against s c incoming filled_quantity =
     (if add_quantity incoming > 0
      then (case best_level (side_book s c) of
              None \<Rightarrow> Some (c, incoming, filled_quantity)
            | Some (level_price, level) \<Rightarrow>
                if \<not> crosses s (add_price incoming) level_price
                then Some (c, incoming, filled_quantity)
                else Option.bind (match_level c level incoming)
                  (\<lambda>(c1, level1, incoming1, level_filled).
                     match_against s
                       (set_side_book s
                          (if head level1 = None
                           then pop_best_level (map_assign level_price level1 (side_book s c1))
                           else map_assign level_price level1 (side_book s c1)) c1)
                       incoming1 (wrap64 (filled_quantity + level_filled))))
      else Some (c, incoming, filled_quantity))"

declare match_level_loop.simps [code] match_against.simps [code]

section \<open>Resting and cancelling\<close>

definition allocate_resting_node ::
    "order_id_t \<Rightarrow> side_t \<Rightarrow> price_t \<Rightarrow> quantity_t \<Rightarrow> clob_t \<Rightarrow> addr \<times> clob_t" where
  "allocate_resting_node i s price qty c =
     (next_node c,
      c\<lparr>nodes := (nodes c)(next_node c :=
           \<lparr>node_order_id = i, node_price = price, node_quantity = qty, node_side = s,
            node_active = True, prev_same_price = None, next_same_price = None\<rparr>),
        next_node := Suc (next_node c)\<rparr>)"

definition rest_order :: "side_t \<Rightarrow> add_order_event_t \<Rightarrow> clob_t \<Rightarrow> bool \<times> clob_t" where
  "rest_order s residual c =
     (let (node, c1) = allocate_resting_node (add_order_id residual) (add_side residual)
                         (add_price residual) (add_quantity residual) c
      in if lookup c1 (add_order_id residual) \<noteq> None
         then (False, c1\<lparr>nodes := (nodes c1)(node := (nodes c1 node)\<lparr>node_active := False\<rparr>)\<rparr>)
         else (let c2 = c1\<lparr>lookup := (lookup c1)(add_order_id residual \<mapsto> node)\<rparr>;
                   (h, levels) = append_order s node (nodes c2) (side_book s c2)
               in (True, set_side_book s levels (c2\<lparr>nodes := h\<rparr>))))"

definition fillable_at_limit :: "side_t \<Rightarrow> add_order_event_t \<Rightarrow> clob_t \<Rightarrow> bool" where
  "fillable_at_limit s incoming c =
     (let need = add_quantity incoming;
          available = fillable_quantity (opposite_of s) (add_price incoming) need
                        (side_book (opposite_of s) c)
      in available \<ge> need)"

definition cancel_resting ::
    "side_t \<Rightarrow> addr \<Rightarrow> order_id_t \<Rightarrow> quantity_t \<Rightarrow> clob_t \<Rightarrow> clob_t" where
  "cancel_resting s node order_id cancelled c =
     (let (h, levels) = detach node (nodes c) (side_book s c);
          c1 = set_side_book s levels (c\<lparr>nodes := h(node := (h node)\<lparr>node_active := False\<rparr>)\<rparr>);
          c2 = c1\<lparr>lookup := (lookup c1)(order_id := None)\<rparr>
      in emit (order_cancelled_event order_id 0 cancelled user_request) c2)"

section \<open>The handlers\<close>

definition add_order :: "side_t \<Rightarrow> add_order_event_t \<Rightarrow> clob_t \<Rightarrow> clob_t option" where
  "add_order s event c =
     (if add_tif event = fok \<and> \<not> fillable_at_limit s event c
      then Some (emit (order_cancelled_event (add_order_id event) 0 (add_quantity event) fill_or_kill) c)
      else Option.bind (match_against (opposite_of s) c event 0)
        (\<lambda>(c1, residual, filled_quantity).
           let residue = add_quantity residual
           in if residue = 0
              then Some (emit (order_filled_event (add_order_id event) filled_quantity) c1)
              else if add_tif event = gtc
              then (let (rested, c2) = rest_order s residual c1
                    in if \<not> rested
                       then Some (emit (order_rejected_event (add_order_id event) duplicate_order_id) c2)
                       else Some (emit (order_resting_event (add_order_id event) filled_quantity residue) c2))
              else (let cause = (if add_tif event = ioc then immediate_or_cancel else fill_or_kill)
                    in Some (emit (order_cancelled_event (add_order_id event) filled_quantity residue cause) c1))))"

definition on_add_order :: "add_order_event_t \<Rightarrow> clob_t \<Rightarrow> clob_t option" where
  "on_add_order event c =
     (if add_order_id event \<le> 0
      then Some (emit (order_rejected_event (add_order_id event) invalid_order_id) c)
      else if add_quantity event \<le> 0
      then Some (emit (order_rejected_event (add_order_id event) invalid_quantity) c)
      else if add_price event \<le> 0
      then Some (emit (order_rejected_event (add_order_id event) invalid_price) c)
      else if add_side event = buy then add_order buy event c
      else add_order sell event c)"

definition on_cancel_order :: "cancel_order_event_t \<Rightarrow> clob_t \<Rightarrow> clob_t" where
  "on_cancel_order event c =
     (if cancel_order_id event \<le> 0
      then emit (order_rejected_event (cancel_order_id event) invalid_order_id) c
      else (case lookup c (cancel_order_id event) of
              None \<Rightarrow> emit (order_rejected_event (cancel_order_id event) unknown_order_id) c
            | Some node \<Rightarrow>
                if \<not> node_active (nodes c node)
                then emit (order_rejected_event (cancel_order_id event) unknown_order_id) c
                else (let cancelled = node_quantity (nodes c node)
                      in if node_side (nodes c node) = buy
                         then cancel_resting buy node (cancel_order_id event) cancelled c
                         else cancel_resting sell node (cancel_order_id event) cancelled c)))"

fun clob_step :: "clob_t \<Rightarrow> input_event_t \<Rightarrow> clob_t option" where
  "clob_step c (add_order_in event) = on_add_order event c"
| "clob_step c (cancel_order_in event) = Some (on_cancel_order event c)"
| "clob_step c shutdown_in = Some c"

fun clob_run :: "clob_t \<Rightarrow> input_event_t list \<Rightarrow> clob_t option" where
  "clob_run c [] = Some c"
| "clob_run c (e # es) = Option.bind (clob_step c e) (\<lambda>c'. clob_run c' es)"

lemma clob_run_append: "clob_run c (es @ es') = Option.bind (clob_run c es) (\<lambda>c'. clob_run c' es')"
  by (induction es arbitrary: c) (auto simp: bind_assoc)

end
