(* ===== verification/Clob_Memory.thy ===== *)
theory Clob_Memory
  imports Clob
begin

text \<open>
  The arena sizes of \<^verbatim>\<open>clob_memory_t\<close> (\<^verbatim>\<open>order_book.hpp\<close>), on 64-bit words as the source computes
  them: the page-aligned resting-order arena and the arena of the ladder and lookup pool, and
  the memory handle the factory builds a book from.
\<close>

section \<open>Sizes\<close>

definition align_up :: "64 word \<Rightarrow> 64 word \<Rightarrow> 64 word" where
  "align_up sz alignment = ((sz + alignment - 1) div alignment) * alignment"

text \<open>
  \<^verbatim>\<open>sizeof(order_node_t)\<close>: three 8-byte integers, two bytes with their padding and two pointers
  make 48 bytes, rounded to the 64 of \<^verbatim>\<open>alignas(64)\<close>.
\<close>

definition sizeof_order_node :: "64 word" where
  "sizeof_order_node = 64"

definition resting_order_arena_byte_count :: "64 word \<Rightarrow> 64 word" where
  "resting_order_arena_byte_count max_orders =
     (if max_orders = 0 then 0
      else (let per = align_up sizeof_order_node 64 in align_up (max_orders * per) 4096))"

definition ladder_lookup_arena_byte_count :: "64 word \<Rightarrow> 64 word" where
  "ladder_lookup_arena_byte_count capacity =
     (let scaled = min (max capacity 16 * 96) (32 * 1024 * 1024) + 262144
      in align_up scaled 4096)"

record clob_memory_t =
  book_capacity :: "64 word"
  ladder_lookup_arena :: "64 word"
  resting_order_arena :: "64 word"

text \<open>The constructor, with the sizes of the two arenas it allocates.\<close>

definition clob_memory_init :: "64 word \<Rightarrow> clob_memory_t" where
  "clob_memory_init capacity =
     \<lparr>book_capacity = capacity, ladder_lookup_arena = ladder_lookup_arena_byte_count capacity,
      resting_order_arena = resting_order_arena_byte_count capacity\<rparr>"

text \<open>The bucket count the book reserves in its id lookup.\<close>

definition lookup_reserve :: "clob_memory_t \<Rightarrow> 64 word" where
  "lookup_reserve memory = max (book_capacity memory * 2) 16"

text \<open>
  \<^verbatim>\<open>clob_factory_t::create\<close>: the memory handle and the empty book that owns it. The capacity
  sizes the arenas and the lookup; the book does not refuse orders beyond it.
\<close>

definition clob_factory_create :: "64 word \<Rightarrow> clob_memory_t \<times> clob_t" where
  "clob_factory_create capacity = (clob_memory_init capacity, clob_init)"

section \<open>Rounding\<close>

lemma align_up_nat:
  assumes a: "0 < unat alignment" and fit: "unat sz + unat alignment < 18446744073709551616"
  shows "unat (align_up sz alignment) = ((unat sz + unat alignment - 1) div unat alignment) * unat alignment"
proof -
  let ?s = "unat sz" and ?a = "unat alignment"
  have "unat (sz + alignment) = ?s + ?a" using fit by (simp add: unat_word_ariths)
  moreover have "1 \<le> sz + alignment" using calculation a by (simp add: word_le_nat_alt)
  ultimately have n: "unat (sz + alignment - 1) = ?s + ?a - 1" by (simp add: unat_sub)
  have le: "((?s + ?a - 1) div ?a) * ?a \<le> ?s + ?a - 1" by (rule div_times_less_eq_dividend)
  have "unat ((sz + alignment - 1) div alignment) = (?s + ?a - 1) div ?a" by (simp add: unat_div n)
  then have "unat (align_up sz alignment) = (((?s + ?a - 1) div ?a) * ?a) mod 18446744073709551616"
    by (simp add: align_up_def unat_word_ariths)
  also have "\<dots> = ((?s + ?a - 1) div ?a) * ?a" by (rule mod_less) (use le fit in linarith)
  finally show ?thesis .
qed

lemma round_up_nat:
  fixes s a :: nat
  assumes "0 < a"
  shows "s \<le> ((s + a - 1) div a) * a" "((s + a - 1) div a) * a < s + a"
proof -
  have "((s + a - 1) div a) * a + (s + a - 1) mod a = s + a - 1" by simp
  moreover have "(s + a - 1) mod a < a" using assms by simp
  ultimately show "s \<le> ((s + a - 1) div a) * a" "((s + a - 1) div a) * a < s + a" using assms by linarith+
qed

section \<open>The sizes are enough and bounded\<close>

text \<open>
  The resting-order arena holds the configured number of orders. For up to \<open>2 ^ 57\<close> orders
  it is a whole number of pages with room for one 64-byte node per order, and wastes less
  than a page.
\<close>

lemma resting_arena_holds_all_orders:
  assumes "unat max_orders \<le> 144115188075855872"
  shows "unat max_orders * unat sizeof_order_node \<le> unat (resting_order_arena_byte_count max_orders) \<and>
    4096 dvd unat (resting_order_arena_byte_count max_orders) \<and>
    unat (resting_order_arena_byte_count max_orders) < unat max_orders * unat sizeof_order_node + 4096"
proof (cases "max_orders = 0")
  case False
  have per: "align_up sizeof_order_node 64 = 64" by code_simp
  have p: "unat (max_orders * 64) = unat max_orders * 64" using assms by (simp add: unat_word_ariths)
  have a: "unat (4096 :: 64 word) = 4096" by simp
  have "unat (align_up (max_orders * 64) 4096) =
      ((unat (max_orders * 64) + unat (4096 :: 64 word) - 1) div unat (4096 :: 64 word)) * unat (4096 :: 64 word)"
    by (rule align_up_nat) (use assms in \<open>simp_all add: p\<close>)
  then have r: "unat (resting_order_arena_byte_count max_orders) = ((unat max_orders * 64 + 4096 - 1) div 4096) * 4096"
    using False by (simp add: resting_order_arena_byte_count_def Let_def per p)
  have "unat sizeof_order_node = 64" by (simp add: sizeof_order_node_def)
  with r round_up_nat [of 4096 "unat max_orders * 64"] show ?thesis by simp
qed (simp add: resting_order_arena_byte_count_def)

text \<open>
  The ladder and lookup arena is bounded for every capacity, even when the scaled size
  wraps: a whole number of pages between 256 KiB and 32 MiB plus 256 KiB.
\<close>

lemma ladder_arena_bounds:
  "262144 \<le> unat (ladder_lookup_arena_byte_count capacity) \<and>
   unat (ladder_lookup_arena_byte_count capacity) \<le> 33816576 \<and>
   4096 dvd unat (ladder_lookup_arena_byte_count capacity)"
proof -
  let ?m = "min (max capacity 16 * 96) 33554432 :: 64 word"
  have m: "unat ?m \<le> 33554432" by (simp add: min_def word_le_nat_alt)
  have s: "unat (?m + 262144) = unat ?m + 262144" using m by (simp add: unat_word_ariths)
  have "unat (align_up (?m + 262144) 4096) =
      ((unat (?m + 262144) + unat (4096 :: 64 word) - 1) div unat (4096 :: 64 word)) * unat (4096 :: 64 word)"
    by (rule align_up_nat) (use m in \<open>simp_all add: s\<close>)
  then have r: "unat (ladder_lookup_arena_byte_count capacity) = ((unat ?m + 262144 + 4096 - 1) div 4096) * 4096"
    by (simp add: ladder_lookup_arena_byte_count_def Let_def s)
  have "(unat ?m + 262144 + 4096 - 1) div 4096 \<le> (33816576 + 4096 - 1) div 4096"
    by (rule div_le_mono) (use m in simp)
  then have "((unat ?m + 262144 + 4096 - 1) div 4096) * 4096 \<le> 33816576" by simp
  with r round_up_nat(1) [of 4096 "unat ?m + 262144"] show ?thesis by simp
qed

end
