(* ===== verification/Clob_Arena.thy ===== *)
theory Clob_Arena
  imports Clob_Memory
begin

text \<open>
  Where the resting orders live: the book takes one node from a \<^verbatim>\<open>std::pmr::monotonic_buffer_resource\<close> over its
  resting-order arena for every order that comes to rest, and never gives one back. Shown here: a
  book of a given capacity serves that many add orders from its arena, one fewer when the arena does not start on
  a cache line, with nodes on cache lines of their own.
\<close>

section \<open>The monotonic resource\<close>

text \<open>
  A buffer given to the constructor, used from the front; when a request does not fit, the resource goes to its
  upstream for a new buffer and never returns to the first. Addresses are natural numbers.
\<close>

record mono_resource =
  mono_next :: nat
  mono_left :: nat
  mono_spilled :: bool

datatype block = In_arena nat | From_upstream

definition mono_init :: "nat \<Rightarrow> nat \<Rightarrow> mono_resource" where
  "mono_init data_at bytes = \<lparr>mono_next = data_at, mono_left = bytes, mono_spilled = False\<rparr>"

definition padding :: "nat \<Rightarrow> nat \<Rightarrow> nat" where
  "padding address alignment = (alignment - address mod alignment) mod alignment"

definition mono_allocate :: "nat \<Rightarrow> nat \<Rightarrow> mono_resource \<Rightarrow> block \<times> mono_resource" where
  "mono_allocate bytes alignment m =
     (let skip = padding (mono_next m) alignment
      in if \<not> mono_spilled m \<and> skip + bytes \<le> mono_left m
         then (In_arena (mono_next m + skip),
               m\<lparr>mono_next := mono_next m + skip + bytes, mono_left := mono_left m - (skip + bytes)\<rparr>)
         else (From_upstream, m\<lparr>mono_spilled := True\<rparr>))"

text \<open>The requests of \<^verbatim>\<open>allocate_resting_node\<close>, one per node.\<close>

fun node_blocks :: "nat \<Rightarrow> mono_resource \<Rightarrow> block list" where
  "node_blocks 0 m = []"
| "node_blocks (Suc n) m =
     (let (b, m') = mono_allocate (unat sizeof_order_node) 64 m in b # node_blocks n m')"

text \<open>The resource of \<^verbatim>\<open>clob_memory_t\<close> over its arena at \<open>data_at\<close>.\<close>

definition resting_order_mono :: "nat \<Rightarrow> clob_memory_t \<Rightarrow> mono_resource" where
  "resting_order_mono data_at memory = mono_init data_at (unat (resting_order_arena memory))"

section \<open>Blocks\<close>

lemma padding_0 [simp]: "0 < a \<Longrightarrow> (x + padding x a) mod a = 0"
proof -
  assume "0 < a"
  then have "(x + (a - x mod a)) mod a = 0"
    by (metis add.commute le_add_diff_inverse mod_add_left_eq mod_le_divisor mod_less_divisor mod_self order_less_imp_le)
  then show ?thesis by (simp add: padding_def mod_add_right_eq)
qed

lemma padding_aligned [simp]: "x mod a = 0 \<Longrightarrow> padding x a = 0"
  by (simp add: padding_def)

lemma unat_sizeof_order_node [simp]: "unat sizeof_order_node = 64"
  by (simp add: sizeof_order_node_def)

lemma node_blocks_step:
  assumes "\<not> mono_spilled m" "padding (mono_next m) 64 + 64 \<le> mono_left m"
  shows "node_blocks (Suc n) m = In_arena (mono_next m + padding (mono_next m) 64) #
    node_blocks n (m\<lparr>mono_next := mono_next m + padding (mono_next m) 64 + 64,
      mono_left := mono_left m - (padding (mono_next m) 64 + 64)\<rparr>)"
  using assms by (simp add: mono_allocate_def Let_def)

lemma upt_Suc_shift: "map f [0..<Suc n] = f 0 # map (\<lambda>i. f (Suc i)) [0..<n]"
  by (simp add: upt_conv_Cons comp_def flip: map_Suc_upt del: upt_Suc)

lemma node_blocks_aligned:
  assumes "\<not> mono_spilled m" "mono_next m mod 64 = 0" "64 * n \<le> mono_left m"
  shows "node_blocks n m = map (\<lambda>i. In_arena (mono_next m + 64 * i)) [0..<n]"
  using assms
proof (induction n arbitrary: m)
  case (Suc n)
  let ?m = "m\<lparr>mono_next := mono_next m + 64, mono_left := mono_left m - 64\<rparr>"
  have "node_blocks n ?m = map (\<lambda>i. In_arena (mono_next ?m + 64 * i)) [0..<n]"
    using Suc.prems by (intro Suc.IH) simp_all
  with node_blocks_step [of m n] Suc.prems show ?case by (simp add: upt_Suc_shift add.assoc del: node_blocks.simps upt_Suc)
qed simp

lemma node_blocks_in_arena:
  assumes "\<not> mono_spilled m" "padding (mono_next m) 64 + 64 * n \<le> mono_left m"
  shows "node_blocks n m = map (\<lambda>i. In_arena (mono_next m + padding (mono_next m) 64 + 64 * i)) [0..<n]"
proof (cases n)
  case (Suc k)
  let ?p = "padding (mono_next m) 64"
  let ?m = "m\<lparr>mono_next := mono_next m + ?p + 64, mono_left := mono_left m - (?p + 64)\<rparr>"
  have "(mono_next m + ?p + 64) mod 64 = 0" using padding_0 [of 64 "mono_next m"] by simp
  then have "node_blocks k ?m = map (\<lambda>i. In_arena (mono_next ?m + 64 * i)) [0..<k]"
    using assms Suc by (intro node_blocks_aligned) simp_all
  with node_blocks_step [of m k] assms Suc show ?thesis by (simp add: upt_Suc_shift add.assoc del: node_blocks.simps upt_Suc)
qed simp

lemma node_blocks_spill:
  "mono_left m < padding (mono_next m) 64 + 64 * n \<Longrightarrow> 0 < n \<Longrightarrow> From_upstream \<in> set (node_blocks n m)"
proof (induction n arbitrary: m)
  case (Suc n)
  show ?case
  proof (cases "\<not> mono_spilled m \<and> padding (mono_next m) 64 + 64 \<le> mono_left m")
    case True
    let ?p = "padding (mono_next m) 64"
    have n: "0 < n" using Suc.prems(1) True by (cases n) auto
    have "(mono_next m + ?p + 64) mod 64 = 0" using padding_0 [of 64 "mono_next m"] by simp
    then have "From_upstream \<in> set (node_blocks n (m\<lparr>mono_next := mono_next m + ?p + 64, mono_left := mono_left m - (?p + 64)\<rparr>))"
      using Suc.prems(1) True n by (intro Suc.IH) (simp, linarith)
    with True node_blocks_step [of m n] show ?thesis by (simp del: node_blocks.simps)
  next
    case False
    then show ?thesis by (auto simp: mono_allocate_def Let_def)
  qed
qed simp

section \<open>How many nodes a book takes\<close>

lemma match_resting_next_node: "next_node (fst (match_resting a st)) = next_node (fst st)"
  by (cases st) (simp add: match_resting_def retire_resting_def emit_def Let_def case_prod_beta)

lemma match_level_loop_next_node:
  assumes "match_level_loop cursor st = Some st'"
  shows "next_node (fst st') = next_node (fst st)"
proof (rule match_level_loop.raw_induct [where P = "\<lambda>cursor st st'. next_node (fst st') = next_node (fst st)", OF _ assms])
  fix loop :: "addr option \<Rightarrow> match_state \<Rightarrow> match_state option" and cursor st st'
  assume "\<And>cursor st st'. loop cursor st = Some st' \<Longrightarrow> next_node (fst st') = next_node (fst st)"
    and "(case st of (c, level, incoming, filled_quantity) \<Rightarrow>
        case cursor of None \<Rightarrow> Some st
        | Some resting \<Rightarrow>
            if add_quantity incoming > 0
            then if \<not> node_active (nodes c resting) then None
                 else loop (next_same_price (nodes c resting)) (match_resting resting st)
            else Some st) = Some st'"
  then show "next_node (fst st') = next_node (fst st)"
    by (auto simp: match_resting_next_node split: prod.splits option.splits if_splits)
qed

lemma set_side_book_next_node [simp]: "next_node (set_side_book s l c) = next_node c"
  by (cases s) simp_all

lemma match_against_next_node:
  assumes "match_against s c incoming filled = Some r"
  shows "next_node (fst r) = next_node c"
proof (rule match_against.raw_induct [where P = "\<lambda>s c incoming filled r. next_node (fst r) = next_node c", OF _ assms])
  fix loop :: "side_t \<Rightarrow> clob_t \<Rightarrow> add_order_event_t \<Rightarrow> quantity_t \<Rightarrow> (clob_t \<times> add_order_event_t \<times> quantity_t) option"
    and s c incoming filled r
  assume IH: "\<And>s c incoming filled r. loop s c incoming filled = Some r \<Longrightarrow> next_node (fst r) = next_node c"
  assume r: "(if add_quantity incoming > 0
      then (case best_level (side_book s c) of
              None \<Rightarrow> Some (c, incoming, filled)
            | Some (level_price, level) \<Rightarrow>
                if \<not> crosses s (add_price incoming) level_price then Some (c, incoming, filled)
                else Option.bind (match_level c level incoming)
                  (\<lambda>(c1, level1, incoming1, level_filled).
                     loop s
                       (set_side_book s
                          (if head level1 = None
                           then pop_best_level (map_assign level_price level1 (side_book s c1))
                           else map_assign level_price level1 (side_book s c1)) c1)
                       incoming1 (wrap64 (filled + level_filled))))
      else Some (c, incoming, filled)) = Some r"
  have level: "next_node c1 = next_node c" if "match_level c level incoming = Some (c1, x)" for level c1 x
    using match_level_loop_next_node [OF that [unfolded match_level_def]] by simp
  show "next_node (fst r) = next_node c"
    using r by (auto simp: bind_eq_Some_conv split: if_splits option.splits dest!: IH level)
qed

lemma rest_order_next_node: "next_node (snd (rest_order s e c)) = Suc (next_node c)"
  by (simp add: rest_order_def allocate_resting_node_def Let_def case_prod_beta)

lemma emit_next_node [simp]: "next_node (emit ev c) = next_node c"
  by (simp add: emit_def)

lemma add_order_next_node: "add_order s e c = Some c' \<Longrightarrow> next_node c' \<le> Suc (next_node c)"
  by (auto simp: add_order_def bind_eq_Some_conv Let_def case_prod_beta rest_order_next_node
      dest!: match_against_next_node split: if_splits)

fun is_add :: "input_event_t \<Rightarrow> bool" where
  "is_add (add_order_in _) = True"
| "is_add _ = False"

lemma clob_step_next_node:
  "clob_step c e = Some c' \<Longrightarrow> next_node c' \<le> next_node c + (if is_add e then 1 else 0)"
  by (cases e) (auto simp: on_add_order_def on_cancel_order_def cancel_resting_def Let_def case_prod_beta
      dest: add_order_next_node split: if_splits option.splits)

lemma clob_run_next_node:
  "clob_run c es = Some c' \<Longrightarrow> next_node c' \<le> next_node c + length (filter is_add es)"
proof (induction es arbitrary: c)
  case (Cons e es)
  then obtain c1 where "clob_step c e = Some c1" "clob_run c1 es = Some c'" by (auto simp: bind_eq_Some_conv)
  with Cons.IH [of c1] clob_step_next_node [of c e c1] show ?case by (auto split: if_splits)
qed simp

section \<open>Properties of the resting-order arena\<close>

text \<open>
  C30: the capacity of a book is the number of add orders its arena serves. After any input with at most that
  many add orders, one fewer when the arena does not start on a cache line, every node the book has taken lies
  in the arena, each on a cache line of its own, one after the other from the first line on; the
  upstream allocator was never asked. Capacities up to two to the 57 are covered.
\<close>

theorem resting_nodes_in_arena:
  assumes "unat capacity \<le> 144115188075855872" "clob_factory_create capacity = (memory, book)"
    and "clob_run book es = Some c"
    and "length (filter is_add es) + (if data_at mod 64 = 0 then 0 else 1) \<le> unat capacity"
  shows "node_blocks (next_node c) (resting_order_mono data_at memory) =
      map (\<lambda>i. In_arena (data_at + padding data_at 64 + 64 * i)) [0..<next_node c] \<and>
    (data_at + padding data_at 64) mod 64 = 0 \<and>
    data_at + padding data_at 64 + 64 * next_node c \<le> data_at + unat (resting_order_arena memory)"
proof -
  have m: "memory = clob_memory_init capacity" "book = clob_init" using assms(2) by (simp_all add: clob_factory_create_def)
  have "next_node c \<le> length (filter is_add es)"
    using clob_run_next_node [OF assms(3)] by (simp add: m clob_init_def)
  moreover have "padding data_at 64 \<le> (if data_at mod 64 = 0 then 0 else 64)"
    using mod_less_divisor [of 64 "64 - data_at mod 64"] by (auto simp: padding_def)
  ultimately have "padding data_at 64 + 64 * next_node c \<le> 64 * unat capacity" using assms(4) by (auto split: if_splits)
  also have "64 * unat capacity \<le> unat (resting_order_arena memory)"
    using resting_arena_holds_all_orders [OF assms(1)] by (simp add: m clob_memory_init_def)
  finally have room: "padding data_at 64 + 64 * next_node c \<le> unat (resting_order_arena memory)" .
  with node_blocks_in_arena [of "resting_order_mono data_at memory" "next_node c"] show ?thesis
    by (simp add: resting_order_mono_def mono_init_def)
qed

theorem resting_nodes_in_arena_witness:
  "\<exists>c. clob_run clob_init
       [add_order_in \<lparr>add_order_id = 1, add_side = buy, add_quantity = 5, add_price = 100, add_tif = gtc\<rparr>,
        add_order_in \<lparr>add_order_id = 2, add_side = sell, add_quantity = 7, add_price = 103, add_tif = gtc\<rparr>] = Some c \<and>
     node_blocks (next_node c) (resting_order_mono 16 (clob_memory_init 3)) = map (\<lambda>i. In_arena (64 + 64 * i)) [0..<next_node c]"
proof -
  let ?es = "[add_order_in \<lparr>add_order_id = 1, add_side = buy, add_quantity = 5, add_price = 100, add_tif = gtc\<rparr>,
        add_order_in \<lparr>add_order_id = 2, add_side = sell, add_quantity = 7, add_price = 103, add_tif = gtc\<rparr>]"
  have "clob_run clob_init ?es \<noteq> None" by code_simp
  then obtain c where c: "clob_run clob_init ?es = Some c" by blast
  have "unat (3 :: 64 word) \<le> 144115188075855872" "clob_factory_create 3 = (clob_memory_init 3, clob_init)"
    "length (filter is_add ?es) + (if (16::nat) mod 64 = 0 then 0 else 1) \<le> unat (3 :: 64 word)"
    by (simp_all add: clob_factory_create_def)
  from resting_nodes_in_arena [OF this(1,2) c this(3)] c show ?thesis by (auto simp: padding_def)
qed

text \<open>
  The arena is a vector of bytes, which is not aligned to a cache line: 64 orders are planned for exactly
  one page, of which the first 48 bytes are lost, and the last order goes upstream.
\<close>

lemma misaligned_arena_spills: "From_upstream \<in> set (node_blocks 64 (resting_order_mono 16 (clob_memory_init 64)))"
proof (rule node_blocks_spill)
  have "resting_order_arena_byte_count 64 = 4096" by code_simp
  then show "mono_left (resting_order_mono 16 (clob_memory_init 64)) <
      padding (mono_next (resting_order_mono 16 (clob_memory_init 64))) 64 + 64 * 64"
    by (simp add: resting_order_mono_def mono_init_def clob_memory_init_def padding_def)
qed simp

end
