(* ===== verification/Book_Spec.thy ===== *)
theory Book_Spec
  imports Book_Side
begin

text \<open>
  The abstract book: per side, the prices in priority order with the orders queued at each.
  Matching, resting and cancelling are defined on these lists with unbounded integers and
  no pointers. This is the contract the pointer-level book of the theory \<^verbatim>\<open>Clob\<close> is proved
  to refine, and the place where the trading properties are proved.
\<close>

section \<open>The abstract book\<close>

type_synonym queue_side = "resting_order list ladder"

record book =
  bid_queues :: queue_side
  ask_queues :: queue_side

definition empty_book :: book where
  "empty_book = \<lparr>bid_queues = [], ask_queues = []\<rparr>"

fun queues :: "side_t \<Rightarrow> book \<Rightarrow> queue_side" where
  "queues buy b = bid_queues b"
| "queues sell b = ask_queues b"

fun set_queues :: "side_t \<Rightarrow> queue_side \<Rightarrow> book \<Rightarrow> book" where
  "set_queues buy m b = b\<lparr>bid_queues := m\<rparr>"
| "set_queues sell m b = b\<lparr>ask_queues := m\<rparr>"

lemma queues_set_queues [simp]:
  "queues s (set_queues s m b) = m"
  "queues (opposite_of s) (set_queues s m b) = queues (opposite_of s) b"
  "queues s (set_queues (opposite_of s) m b) = queues s b"
  by (cases s; simp)+

lemma set_queues_queues [simp]: "set_queues s (queues s b) b = b"
  by (cases s) simp_all

lemma book_eqI:
  "queues s b = queues s b' \<Longrightarrow> queues (opposite_of s) b = queues (opposite_of s) b' \<Longrightarrow> b = b'"
  by (cases s; cases b; cases b') simp_all

definition side_orders :: "queue_side \<Rightarrow> resting_order list" where
  "side_orders m = concat (map snd m)"

lemma side_orders_simps [simp]:
  "side_orders [] = []" "side_orders ((p, xs) # m) = xs @ side_orders m"
  "side_orders (m @ m') = side_orders m @ side_orders m'"
  by (simp_all add: side_orders_def)

definition resting_ids :: "book \<Rightarrow> order_id_t list" where
  "resting_ids b = map fst (side_orders (bid_queues b) @ side_orders (ask_queues b))"

lemma resting_ids_side:
  "set (resting_ids b) = fst ` set (side_orders (queues s b)) \<union> fst ` set (side_orders (queues (opposite_of s) b))"
  by (cases s) (auto simp: resting_ids_def)

section \<open>Matching on the lists\<close>

text \<open>
  An incoming order with a limit trades with a resting order of side \<open>s\<close> when that one's price is at
  or through the limit: bids at or above it, asks at or below it.
\<close>

fun tradable :: "side_t \<Rightarrow> price_t \<Rightarrow> price_t \<Rightarrow> bool" where
  "tradable buy limit p \<longleftrightarrow> limit \<le> p"
| "tradable sell limit p \<longleftrightarrow> p \<le> limit"

lemma crosses_tradable [simp]: "crosses s limit p \<longleftrightarrow> tradable s limit p"
  by (cases s) (simp_all add: crosses_iff)

lemma tradable_better: "tradable s limit p \<Longrightarrow> resting_levels_compare s q p \<Longrightarrow> tradable s limit q"
  by (cases s) auto

fun spec_match_queue ::
    "order_id_t \<Rightarrow> resting_order list \<Rightarrow> quantity_t \<Rightarrow>
     output_event_t list \<times> resting_order list \<times> quantity_t" where
  "spec_match_queue i [] q = ([], [], q)"
| "spec_match_queue i ((r, rq) # rest) q =
     (if q \<le> 0 then ([], (r, rq) # rest, q)
      else if rq \<le> q
      then (let (evs, rest', q') = spec_match_queue i rest (q - rq)
            in (trade_event i r rq # order_filled_event r rq # evs, rest', q'))
      else ([trade_event i r q, order_resting_event r q (rq - q)], (r, rq - q) # rest, 0))"

fun spec_match_side ::
    "side_t \<Rightarrow> order_id_t \<Rightarrow> price_t \<Rightarrow> queue_side \<Rightarrow> quantity_t \<Rightarrow>
     output_event_t list \<times> queue_side \<times> quantity_t" where
  "spec_match_side s i limit [] q = ([], [], q)"
| "spec_match_side s i limit ((p, xs) # m) q =
     (if q \<le> 0 \<or> \<not> tradable s limit p then ([], (p, xs) # m, q)
      else (case spec_match_queue i xs q of (evs, xs', q') \<Rightarrow>
              if xs' = []
              then (let (evs', m', q'') = spec_match_side s i limit m q' in (evs @ evs', m', q''))
              else (evs, (p, xs') # m, q')))"

text \<open>
  The fill-or-kill probe sums the levels' \<^verbatim>\<open>total_quantity\<close>, which the source keeps in 64
  bits: the sums wrap here as they do there.
\<close>

definition spec_total :: "resting_order list \<Rightarrow> int" where
  "spec_total xs = sum_list (map snd xs)"

fun spec_fillable :: "side_t \<Rightarrow> price_t \<Rightarrow> quantity_t \<Rightarrow> quantity_t \<Rightarrow> queue_side \<Rightarrow> quantity_t" where
  "spec_fillable s limit need available [] = available"
| "spec_fillable s limit need available ((p, xs) # m) =
     (if \<not> tradable s limit p then available
      else (let available1 = wrap64 (available + wrap64 (spec_total xs))
            in if available1 \<ge> need then need else spec_fillable s limit need available1 m))"

section \<open>The handlers on the lists\<close>

definition spec_add_order :: "side_t \<Rightarrow> add_order_event_t \<Rightarrow> book \<Rightarrow> output_event_t list \<times> book" where
  "spec_add_order s e b =
     (let i = add_order_id e; q = add_quantity e; opp = queues (opposite_of s) b
      in if add_tif e = fok \<and> spec_fillable (opposite_of s) (add_price e) q 0 opp < q
         then ([order_cancelled_event i 0 q fill_or_kill], b)
         else (case spec_match_side (opposite_of s) i (add_price e) opp q of (evs, opp', residue) \<Rightarrow>
                 let b' = set_queues (opposite_of s) opp' b
                 in if residue = 0 then (evs @ [order_filled_event i q], b')
                    else if add_tif e = gtc
                    then (if i \<in> set (resting_ids b')
                          then (evs @ [order_rejected_event i duplicate_order_id], b')
                          else (evs @ [order_resting_event i (q - residue) residue],
                                set_queues s (enqueue_at s (add_price e) (i, residue) (queues s b')) b'))
                    else (evs @ [order_cancelled_event i (q - residue) residue
                            (if add_tif e = ioc then immediate_or_cancel else fill_or_kill)], b')))"

definition spec_on_add :: "add_order_event_t \<Rightarrow> book \<Rightarrow> output_event_t list \<times> book" where
  "spec_on_add e b =
     (if add_order_id e \<le> 0 then ([order_rejected_event (add_order_id e) invalid_order_id], b)
      else if add_quantity e \<le> 0 then ([order_rejected_event (add_order_id e) invalid_quantity], b)
      else if add_price e \<le> 0 then ([order_rejected_event (add_order_id e) invalid_price], b)
      else spec_add_order (add_side e) e b)"

definition find_resting :: "order_id_t \<Rightarrow> book \<Rightarrow> quantity_t option" where
  "find_resting i b = map_of (side_orders (bid_queues b) @ side_orders (ask_queues b)) i"

definition remove_order :: "order_id_t \<Rightarrow> book \<Rightarrow> book" where
  "remove_order i b =
     \<lparr>bid_queues = drop_where (\<lambda>(j, q). j = i) (bid_queues b),
      ask_queues = drop_where (\<lambda>(j, q). j = i) (ask_queues b)\<rparr>"

definition spec_on_cancel :: "cancel_order_event_t \<Rightarrow> book \<Rightarrow> output_event_t list \<times> book" where
  "spec_on_cancel e b =
     (let i = cancel_order_id e
      in if i \<le> 0 then ([order_rejected_event i invalid_order_id], b)
         else (case find_resting i b of
                 None \<Rightarrow> ([order_rejected_event i unknown_order_id], b)
               | Some q \<Rightarrow> ([order_cancelled_event i 0 q user_request], remove_order i b)))"

fun spec_step :: "book \<Rightarrow> input_event_t \<Rightarrow> output_event_t list \<times> book" where
  "spec_step b (add_order_in e) = spec_on_add e b"
| "spec_step b (cancel_order_in e) = spec_on_cancel e b"
| "spec_step b shutdown_in = ([], b)"

fun spec_run :: "book \<Rightarrow> input_event_t list \<Rightarrow> output_event_t list \<times> book" where
  "spec_run b [] = ([], b)"
| "spec_run b (e # es) =
     (case spec_step b e of (evs, b') \<Rightarrow>
        (case spec_run b' es of (evs', b'') \<Rightarrow> (evs @ evs', b'')))"

lemma spec_run_append:
  "spec_run b (es @ es') =
     (case spec_run b es of (evs, b') \<Rightarrow> (case spec_run b' es' of (evs', b'') \<Rightarrow> (evs @ evs', b'')))"
  by (induction es arbitrary: b) (auto split: prod.splits)

end
