(* ===== verification/Book_Matching.thy ===== *)
theory Book_Matching
  imports Book_Spec
begin

text \<open>
  The laws of the abstract matching: walking the ladder level by level is one walk over the
  crossing orders in price-time order, the trades are the greedy allocation of the incoming
  quantity to them, and quantity is conserved. Then the well-formedness of the abstract book
  and its preservation by every handler.
\<close>

section \<open>Allocation in queue order\<close>

definition all_positive :: "resting_order list \<Rightarrow> bool" where
  "all_positive xs \<longleftrightarrow> (\<forall>(r, rq) \<in> set xs. 0 < rq)"

lemma all_positive_simps [simp]:
  "all_positive []" "all_positive ((r, rq) # xs) \<longleftrightarrow> 0 < rq \<and> all_positive xs"
  "all_positive (xs @ ys) \<longleftrightarrow> all_positive xs \<and> all_positive ys"
  by (auto simp: all_positive_def)

lemma spec_total_simps [simp]:
  "spec_total [] = 0" "spec_total ((r, rq) # xs) = rq + spec_total xs"
  "spec_total (xs @ ys) = spec_total xs + spec_total ys"
  by (simp_all add: spec_total_def)

lemma spec_total_nonneg: "all_positive xs \<Longrightarrow> 0 \<le> spec_total xs"
  by (induction xs) auto

lemma spec_total_pos: "all_positive xs \<Longrightarrow> xs \<noteq> [] \<Longrightarrow> 0 < spec_total xs"
  using spec_total_nonneg by (cases xs) fastforce+

text \<open>What each queued order receives of an incoming quantity, and what stays queued.\<close>

fun allocate :: "quantity_t \<Rightarrow> resting_order list \<Rightarrow> resting_order list" where
  "allocate q [] = []"
| "allocate q ((r, rq) # xs) =
     (if q \<le> 0 then [] else (r, min q rq) # allocate (q - min q rq) xs)"

fun deplete :: "quantity_t \<Rightarrow> resting_order list \<Rightarrow> resting_order list" where
  "deplete q [] = []"
| "deplete q ((r, rq) # xs) =
     (if q \<le> 0 then (r, rq) # xs else if rq \<le> q then deplete (q - rq) xs else (r, rq - q) # xs)"

lemma allocate_done [simp]: "q \<le> 0 \<Longrightarrow> allocate q xs = []"
  by (cases xs) auto

lemma deplete_done [simp]: "q \<le> 0 \<Longrightarrow> deplete q xs = xs"
  by (cases xs) auto

lemma allocate_total:
  "0 \<le> q \<Longrightarrow> all_positive xs \<Longrightarrow> spec_total (allocate q xs) = min q (spec_total xs)"
proof (induction q xs rule: allocate.induct)
  case (2 q r rq xs)
  then show ?case using spec_total_nonneg [of xs] by (cases "q = 0") auto
qed simp

lemma deplete_total:
  "0 \<le> q \<Longrightarrow> all_positive xs \<Longrightarrow> spec_total (deplete q xs) = spec_total xs - min q (spec_total xs)"
proof (induction q xs rule: deplete.induct)
  case (2 q r rq xs)
  then show ?case using spec_total_nonneg [of xs] by (cases "q = 0") auto
qed simp

lemma deplete_Nil_iff:
  "0 \<le> q \<Longrightarrow> all_positive xs \<Longrightarrow> deplete q xs = [] \<longleftrightarrow> spec_total xs \<le> q"
proof (induction q xs rule: deplete.induct)
  case (2 q r rq xs)
  then show ?case using spec_total_nonneg [of xs] by auto
qed simp

lemma deplete_positive: "all_positive xs \<Longrightarrow> all_positive (deplete q xs)"
  by (induction q xs rule: deplete.induct) auto

lemma deplete_ids: "\<exists>ds. map fst xs = ds @ map fst (deplete q xs)"
proof (induction q xs rule: deplete.induct)
  case (2 q r rq xs)
  show ?case
  proof (cases "0 < q \<and> rq \<le> q")
    case True
    with 2 obtain ds where "map fst xs = ds @ map fst (deplete (q - rq) xs)" by auto
    with True show ?thesis by (auto intro: exI [of _ "r # ds"])
  qed (auto intro: exI [of _ "[]"])
qed simp

lemma deplete_bounded:
  "\<forall>(r, rq) \<in> set xs. rq \<le> B \<Longrightarrow> all_positive xs \<Longrightarrow> \<forall>(r, rq) \<in> set (deplete q xs). rq \<le> B"
  by (induction q xs rule: deplete.induct) (auto split: if_splits)

section \<open>Matching a queue\<close>

text \<open>The trades among a list of events: aggressive id, resting id, quantity.\<close>

fun trades_of :: "output_event_t list \<Rightarrow> (order_id_t \<times> order_id_t \<times> quantity_t) list" where
  "trades_of [] = []"
| "trades_of (trade_event i r q # evs) = (i, r, q) # trades_of evs"
| "trades_of (order_resting_event i f q # evs) = trades_of evs"
| "trades_of (order_filled_event i f # evs) = trades_of evs"
| "trades_of (order_cancelled_event i f q cause # evs) = trades_of evs"
| "trades_of (order_rejected_event i code # evs) = trades_of evs"
| "trades_of (shutdown_out # evs) = trades_of evs"

lemma trades_of_append [simp]: "trades_of (evs @ evs') = trades_of evs @ trades_of evs'"
  by (induction evs rule: trades_of.induct) auto

lemma spec_match_queue_done: "q \<le> 0 \<Longrightarrow> spec_match_queue i xs q = ([], xs, q)"
  by (cases "(i, xs, q)" rule: spec_match_queue.cases) auto

lemma spec_match_queue_result:
  "all_positive xs \<Longrightarrow> 0 \<le> q \<Longrightarrow> spec_match_queue i xs q = (evs, xs', q') \<Longrightarrow>
   xs' = deplete q xs \<and> q' = q - min q (spec_total xs) \<and>
   trades_of evs = map (\<lambda>(r, t). (i, r, t)) (allocate q xs)"
proof (induction i xs q arbitrary: evs xs' q' rule: spec_match_queue.induct)
  case (2 i r rq rest q)
  then show ?case using spec_total_nonneg [of rest]
    by (auto simp: min_def split: prod.splits if_splits)
qed simp

lemma spec_match_queue_bounds:
  assumes "spec_match_queue i xs q = (evs, xs', q')" "0 \<le> q" "all_positive xs"
  shows "0 \<le> q'" "q' \<le> q" "xs' \<noteq> [] \<Longrightarrow> q' = 0" "xs' = [] \<longleftrightarrow> spec_total xs \<le> q"
  using spec_match_queue_result [OF assms(3,2,1)] assms(2,3) spec_total_nonneg [of xs]
  by (auto simp: deplete_Nil_iff)

lemma spec_match_queue_append:
  assumes "all_positive xs" "0 \<le> q"
  shows "spec_match_queue i (xs @ ys) q =
    (case spec_match_queue i xs q of (evs, xs', q') \<Rightarrow>
       if xs' = [] then (case spec_match_queue i ys q' of (evs', ys', q'') \<Rightarrow> (evs @ evs', ys', q''))
       else (evs, xs' @ ys, q'))"
  using assms
proof (induction i xs q rule: spec_match_queue.induct)
  case (2 i r rq rest q)
  then show ?case by (auto split: prod.splits if_splits)
qed (simp split: prod.split)

section \<open>Matching a side\<close>

lemma spec_match_side_done: "q \<le> 0 \<Longrightarrow> spec_match_side s i limit m q = ([], m, q)"
  by (cases "(s, i, limit, m, q)" rule: spec_match_side.cases) auto

abbreviation crossing_levels :: "side_t \<Rightarrow> price_t \<Rightarrow> queue_side \<Rightarrow> queue_side" where
  "crossing_levels s limit m \<equiv> takeWhile (\<lambda>e. tradable s limit (fst e)) m"

abbreviation other_levels :: "side_t \<Rightarrow> price_t \<Rightarrow> queue_side \<Rightarrow> queue_side" where
  "other_levels s limit m \<equiv> dropWhile (\<lambda>e. tradable s limit (fst e)) m"

lemma spec_match_side_flat:
  assumes "all_positive (side_orders m)" "0 \<le> q" "spec_match_side s i limit m q = (evs, m', q')"
  shows "\<exists>xs'. spec_match_queue i (side_orders (crossing_levels s limit m)) q = (evs, xs', q') \<and>
    side_orders m' = xs' @ side_orders (other_levels s limit m)"
  using assms
proof (induction m arbitrary: q evs)
  case (Cons e m)
  obtain p xs where e: "e = (p, xs)" by fastforce
  consider "q = 0" | "0 < q" "\<not> tradable s limit p" | "0 < q" "tradable s limit p"
    using Cons.prems(2) by fastforce
  then show ?case
  proof cases
    case 1
    have "side_orders (e # m) =
        side_orders (crossing_levels s limit (e # m)) @ side_orders (other_levels s limit (e # m))"
      by (metis side_orders_simps(3) takeWhile_dropWhile_id)
    with 1 Cons.prems(3) show ?thesis by (auto simp: spec_match_side_done spec_match_queue_done)
  next
    case 2
    with Cons.prems(3) show ?thesis by (auto simp: e)
  next
    case 3
    obtain evs1 xs' q1 where sq: "spec_match_queue i xs q = (evs1, xs', q1)" by (metis prod_cases3)
    have pos: "all_positive xs" "all_positive (side_orders m)" using Cons.prems(1) by (simp_all add: e)
    note bd = spec_match_queue_bounds [OF sq Cons.prems(2) pos(1)]
    have app: "spec_match_queue i (xs @ ys) q =
        (if xs' = [] then (case spec_match_queue i ys q1 of (evs', ys', q'') \<Rightarrow> (evs1 @ evs', ys', q''))
         else (evs1, xs' @ ys, q1))" for ys
      using spec_match_queue_append [OF pos(1) Cons.prems(2), of i ys] by (simp add: sq)
    show ?thesis
    proof (cases "xs' = []")
      case True
      with Cons.prems(3) 3 sq obtain evs' where sm: "spec_match_side s i limit m q1 = (evs', m', q')"
        and evs: "evs = evs1 @ evs'" by (auto simp: e split: prod.splits)
      from Cons.IH [OF pos(2) bd(1) sm] evs True 3 app show ?thesis by (auto simp: e)
    next
      case False
      have "side_orders m = side_orders (crossing_levels s limit m) @ side_orders (other_levels s limit m)"
        by (metis side_orders_simps(3) takeWhile_dropWhile_id)
      with False Cons.prems(3) 3 sq app show ?thesis by (auto simp: e)
    qed
  qed
qed simp

lemma spec_match_side_result:
  assumes pos: "all_positive (side_orders m)" and q: "0 \<le> q"
    and sm: "spec_match_side s i limit m q = (evs, m', q')"
  shows "q' = q - min q (spec_total (side_orders (crossing_levels s limit m)))"
    and "trades_of evs = map (\<lambda>(r, t). (i, r, t)) (allocate q (side_orders (crossing_levels s limit m)))"
    and "side_orders m' = deplete q (side_orders (crossing_levels s limit m)) @ side_orders (other_levels s limit m)"
proof -
  let ?xs = "side_orders (crossing_levels s limit m)"
  have "all_positive (?xs @ side_orders (other_levels s limit m))"
    using pos by (metis side_orders_simps(3) takeWhile_dropWhile_id)
  then have xs: "all_positive ?xs" by simp
  from spec_match_side_flat [OF pos q sm] obtain xs' where
    "spec_match_queue i ?xs q = (evs, xs', q')" "side_orders m' = xs' @ side_orders (other_levels s limit m)"
    by blast
  with spec_match_queue_result [OF xs q] show "q' = q - min q (spec_total ?xs)"
    "trades_of evs = map (\<lambda>(r, t). (i, r, t)) (allocate q ?xs)"
    "side_orders m' = deplete q ?xs @ side_orders (other_levels s limit m)" by metis+
qed

lemma spec_match_side_bounds:
  assumes "spec_match_side s i limit m q = (evs, m', q')" "0 \<le> q" "all_positive (side_orders m)"
  shows "0 \<le> q'" "q' \<le> q"
proof -
  have "all_positive (side_orders (crossing_levels s limit m) @ side_orders (other_levels s limit m))"
    using assms(3) by (metis side_orders_simps(3) takeWhile_dropWhile_id)
  then have "0 \<le> spec_total (side_orders (crossing_levels s limit m))" by (simp add: spec_total_nonneg)
  with spec_match_side_result(1) [OF assms(3,2,1)] assms(2) show "0 \<le> q'" "q' \<le> q" by auto
qed

section \<open>Well-formed books\<close>

definition order_ok :: "resting_order \<Rightarrow> bool" where
  "order_ok x \<longleftrightarrow> 0 < fst x \<and> 0 < snd x \<and> snd x \<le> int64_max"

definition side_wf :: "side_t \<Rightarrow> queue_side \<Rightarrow> bool" where
  "side_wf s m \<longleftrightarrow>
     sorted_wrt (resting_levels_compare s) (map fst m) \<and>
     (\<forall>(p, xs) \<in> set m. 0 < p \<and> xs \<noteq> [] \<and> (\<forall>x \<in> set xs. order_ok x))"

definition prices :: "'a ladder \<Rightarrow> price_t set" where
  "prices m = fst ` set m"

definition uncrossed :: "book \<Rightarrow> bool" where
  "uncrossed b \<longleftrightarrow> (\<forall>bid \<in> prices (bid_queues b). \<forall>ask \<in> prices (ask_queues b). bid < ask)"

definition book_wf :: "book \<Rightarrow> bool" where
  "book_wf b \<longleftrightarrow>
     side_wf buy (bid_queues b) \<and> side_wf sell (ask_queues b) \<and> distinct (resting_ids b) \<and> uncrossed b"

lemma prices_simps [simp]:
  "prices [] = {}" "prices (e # m) = insert (fst e) (prices m)" "prices (m @ m') = prices m \<union> prices m'"
  by (auto simp: prices_def)

lemma side_wf_Nil [simp]: "side_wf s []"
  by (simp add: side_wf_def)

lemma side_wf_Cons:
  "side_wf s ((p, xs) # m) \<longleftrightarrow>
     (\<forall>k \<in> prices m. resting_levels_compare s p k) \<and> 0 < p \<and> xs \<noteq> [] \<and>
     (\<forall>x \<in> set xs. order_ok x) \<and> side_wf s m"
  by (auto simp: side_wf_def prices_def)

lemma order_ok_positive: "\<forall>x \<in> set xs. order_ok x \<Longrightarrow> all_positive xs"
  by (induction xs) (auto simp: order_ok_def)

lemma side_wf_positive: "side_wf s m \<Longrightarrow> all_positive (side_orders m)"
proof (induction m)
  case (Cons e m)
  then show ?case using order_ok_positive by (cases e) (auto simp: side_wf_Cons)
qed simp

lemma uncrossed_side:
  "uncrossed b \<longleftrightarrow> (\<forall>p \<in> prices (queues s b). \<forall>k \<in> prices (queues (opposite_of s) b).
     \<not> tradable (opposite_of s) p k)"
  by (cases s) (auto simp: uncrossed_def tradable.simps not_le)

lemma book_wf_side:
  "book_wf b \<longleftrightarrow> side_wf s (queues s b) \<and> side_wf (opposite_of s) (queues (opposite_of s) b) \<and>
     distinct (map fst (side_orders (queues s b)) @ map fst (side_orders (queues (opposite_of s) b))) \<and>
     uncrossed b"
  by (cases s) (auto simp: book_wf_def resting_ids_def)

lemma book_wf_queues: "book_wf b \<Longrightarrow> side_wf s (queues s b)"
  by (simp add: book_wf_side [of b s])

lemma book_wf_positive: "book_wf b \<Longrightarrow> all_positive (side_orders (queues s b))"
  by (rule side_wf_positive [OF book_wf_queues])

lemma book_wf_empty: "book_wf empty_book"
  by (simp add: book_wf_def empty_book_def resting_ids_def uncrossed_def)

lemma deplete_order_ok: "\<forall>x \<in> set xs. order_ok x \<Longrightarrow> \<forall>x \<in> set (deplete q xs). order_ok x"
  by (induction q xs rule: deplete.induct) (auto simp: order_ok_def split: if_splits)

subsection \<open>Matching keeps a side well formed\<close>

lemma spec_match_side_wf:
  assumes "side_wf s m" "0 \<le> q" "spec_match_side s i limit m q = (evs, m', q')"
  shows "side_wf s m' \<and> prices m' \<subseteq> prices m"
  using assms
proof (induction m arbitrary: q evs)
  case (Cons e m)
  obtain p xs where e: "e = (p, xs)" by fastforce
  have ok: "\<forall>x \<in> set xs. order_ok x" "side_wf s m" using Cons.prems(1) by (simp_all add: e side_wf_Cons)
  note pos = order_ok_positive [OF ok(1)]
  show ?case
  proof (cases "q \<le> 0 \<or> \<not> tradable s limit p")
    case True
    with Cons.prems show ?thesis by (auto simp: e)
  next
    case False
    obtain evs1 xs' q1 where sq: "spec_match_queue i xs q = (evs1, xs', q1)" by (metis prod_cases3)
    note res = spec_match_queue_result [OF pos Cons.prems(2) sq]
    note bd = spec_match_queue_bounds [OF sq Cons.prems(2) pos]
    show ?thesis
    proof (cases "xs' = []")
      case True
      with Cons.prems(3) False sq obtain evs' where "spec_match_side s i limit m q1 = (evs', m', q')"
        by (auto simp: e split: prod.splits)
      from Cons.IH [OF ok(2) bd(1) this] show ?thesis by auto
    next
      case xs': False
      then have "m' = (p, xs') # m" using Cons.prems(3) False sq by (auto simp: e)
      with Cons.prems(1) xs' res deplete_order_ok [OF ok(1), of q] show ?thesis
        by (auto simp: e side_wf_Cons)
    qed
  qed
qed simp

text \<open>Quantity is left over only when no level that is left crosses the limit.\<close>

lemma other_levels_not_crossing:
  assumes "sorted_wrt (resting_levels_compare s) (map fst m)" "p \<in> prices (other_levels s limit m)"
  shows "\<not> tradable s limit p"
  using assms
proof (induction m)
  case (Cons e m)
  show ?case
  proof (cases "tradable s limit (fst e)")
    case False
    with Cons.prems have "p = fst e \<or> resting_levels_compare s (fst e) p" by (auto simp: prices_def)
    with False show ?thesis using tradable_better by blast
  qed (use Cons in auto)
qed simp

lemma spec_match_side_leftover:
  assumes "side_wf s m" "0 \<le> q" "spec_match_side s i limit m q = (evs, m', q')" "0 < q'"
  shows "m' = other_levels s limit m"
  using assms
proof (induction m arbitrary: q evs)
  case (Cons e m)
  obtain p xs where e: "e = (p, xs)" by fastforce
  have ok: "\<forall>x \<in> set xs. order_ok x" "side_wf s m" using Cons.prems(1) by (simp_all add: e side_wf_Cons)
  show ?case
  proof (cases "q \<le> 0 \<or> \<not> tradable s limit p")
    case True
    with Cons.prems show ?thesis by (auto simp: e)
  next
    case False
    obtain evs1 xs' q1 where sq: "spec_match_queue i xs q = (evs1, xs', q1)" by (metis prod_cases3)
    note bd = spec_match_queue_bounds [OF sq Cons.prems(2) order_ok_positive [OF ok(1)]]
    have "xs' = []" using bd(3) Cons.prems(3,4) False sq by (auto simp: e split: if_splits)
    with Cons.prems(3) False sq obtain evs' where "spec_match_side s i limit m q1 = (evs', m', q')"
      by (auto simp: e split: prod.splits)
    from Cons.IH [OF ok(2) bd(1) this Cons.prems(4)] False show ?thesis by (simp add: e)
  qed
qed simp

lemma spec_match_side_ids:
  assumes "side_wf s m" "0 \<le> q" "spec_match_side s i limit m q = (evs, m', q')"
  shows "\<exists>ds. map fst (side_orders m) = ds @ map fst (side_orders m')"
proof -
  let ?xs = "side_orders (crossing_levels s limit m)" and ?ys = "side_orders (other_levels s limit m)"
  have "side_orders m = ?xs @ ?ys" by (metis side_orders_simps(3) takeWhile_dropWhile_id)
  moreover obtain ds where "map fst ?xs = ds @ map fst (deplete q ?xs)" using deplete_ids by blast
  ultimately show ?thesis
    using spec_match_side_result(3) [OF side_wf_positive [OF assms(1)] assms(2,3)] by auto
qed

subsection \<open>Resting and removing keep a side well formed\<close>

lemma side_wf_sorted: "side_wf s m \<Longrightarrow> sorted_wrt (resting_levels_compare s) (map fst m)"
  by (simp add: side_wf_def)

lemma side_wf_enqueue:
  assumes wf: "side_wf s m" and ok: "0 < p" "order_ok x"
  shows "side_wf s (enqueue_at s p x m)"
proof -
  have "\<forall>(k, xs) \<in> set (enqueue_at s p x m). 0 < k \<and> xs \<noteq> [] \<and> (\<forall>y \<in> set xs. order_ok y)"
    by (rule resting.upsert_split [OF side_wf_sorted [OF wf], of p "[]" "\<lambda>xs. xs @ [x]"])
      (use wf ok in \<open>auto simp: side_wf_def\<close>)
  with resting.sorted_upsert [OF side_wf_sorted [OF wf]] show ?thesis by (simp add: side_wf_def)
qed

lemma side_orders_enqueue:
  assumes "sorted_wrt (resting_levels_compare s) (map fst m)"
  shows "\<exists>xs ys. side_orders m = xs @ ys \<and> side_orders (enqueue_at s p x m) = xs @ x # ys"
proof (rule resting.upsert_split [OF assms, of p "[]" "\<lambda>xs. xs @ [x]"])
  fix m1 m2 assume "m = m1 @ m2" "enqueue_at s p x m = m1 @ (p, [] @ [x]) # m2"
  then show ?thesis by (intro exI [of _ "side_orders m1"] exI [of _ "side_orders m2"]) simp
next
  fix m1 v m2 assume "m = m1 @ (p, v) # m2" "enqueue_at s p x m = m1 @ (p, v @ [x]) # m2"
  then show ?thesis by (intro exI [of _ "side_orders m1 @ v"] exI [of _ "side_orders m2"]) simp
qed

lemma queue_at_Cons [simp]: "queue_at ((k, v) # m) j = (if k = j then v else queue_at m j)"
  by (simp add: queue_at_def)

lemma queue_at_enqueue:
  "sorted_wrt (resting_levels_compare s) (map fst m) \<Longrightarrow>
   queue_at (enqueue_at s p x m) k = (if k = p then queue_at m p @ [x] else queue_at m k)"
proof (induction m)
  case Nil
  then show ?case by (simp add: queue_at_def)
next
  case (Cons e m)
  obtain k' v where e: "e = (k', v)" by fastforce
  show ?case
  proof (rule resting.cmp_cases [of s p k'])
    assume lt: "resting_levels_compare s p k'" "p \<noteq> k'"
    with Cons.prems have "p \<notin> fst ` set m"
      by (auto simp: e dest: resting.cmp_trans resting.cmp_neq)
    with lt show ?thesis by (simp add: e map_of_at)
  qed (use Cons in \<open>auto simp: e\<close>)
qed

lemma prices_enqueue [simp]: "prices (enqueue_at s p x m) = insert p (prices m)"
  by (simp add: prices_def resting.keys_upsert)

lemma prices_drop: "prices (drop_where P m) \<subseteq> prices m"
proof (induction m)
  case (Cons e m)
  then show ?case by (cases e) auto
qed simp

lemma side_orders_drop: "side_orders (drop_where P m) = filter (\<lambda>x. \<not> P x) (side_orders m)"
proof (induction m)
  case (Cons e m)
  then show ?case by (cases e) auto
qed simp

lemma queue_at_drop:
  "distinct (map fst m) \<Longrightarrow> queue_at (drop_where P m) p = filter (\<lambda>x. \<not> P x) (queue_at m p)"
proof (induction m)
  case Nil
  then show ?case by (simp add: queue_at_def)
next
  case (Cons e m)
  obtain k xs where e: "e = (k, xs)" by fastforce
  have "queue_at m p = []" if "p = k" using Cons.prems that by (simp add: e map_of_at)
  with Cons show ?case by (auto simp: e)
qed

lemma side_wf_drop: "side_wf s m \<Longrightarrow> side_wf s (drop_where P m)"
proof (induction m)
  case (Cons e m)
  obtain p xs where e: "e = (p, xs)" by fastforce
  with Cons have "side_wf s (drop_where P m)" by (simp add: side_wf_Cons)
  with Cons.prems prices_drop [of P m] show ?case by (auto simp: e side_wf_Cons)
qed simp

subsection \<open>The handlers keep the book well formed\<close>

lemma queues_remove_order:
  "queues s (remove_order i b) = drop_where (\<lambda>(j, q). j = i) (queues s b)"
  by (cases s) (simp_all add: remove_order_def)

lemma remove_order_wf:
  assumes "book_wf b"
  shows "book_wf (remove_order i b)"
proof -
  let ?P = "\<lambda>(j, q). j = i"
  have "distinct (map fst (filter (\<lambda>x. \<not> ?P x) (side_orders (bid_queues b) @ side_orders (ask_queues b))))"
    using assms by (intro distinct_map_filter) (simp add: book_wf_def resting_ids_def)
  moreover have "uncrossed (remove_order i b)"
    using assms prices_drop [of ?P "bid_queues b"] prices_drop [of ?P "ask_queues b"]
    by (auto simp: book_wf_def uncrossed_def remove_order_def)
  ultimately show ?thesis using assms
    by (simp add: book_wf_def side_wf_drop remove_order_def resting_ids_def side_orders_drop)
qed

lemma spec_match_book_wf:
  assumes wf: "book_wf b" and q: "0 \<le> q"
    and sm: "spec_match_side s i limit (queues s b) q = (evs, m', q')"
  shows "book_wf (set_queues s m' b)"
proof -
  from wf have w: "side_wf s (queues s b)" by (simp add: book_wf_side [of b s])
  note k = spec_match_side_wf [OF w q sm]
  obtain ds where "map fst (side_orders (queues s b)) = ds @ map fst (side_orders m')"
    using spec_match_side_ids [OF w q sm] by blast
  moreover have "uncrossed (set_queues s m' b)"
    using wf k unfolding uncrossed_side [of _ s] book_wf_side [of _ s] by (simp add: subset_eq)
  ultimately show ?thesis using wf k unfolding book_wf_side [of _ s] by auto
qed

lemma rest_book_wf:
  assumes wf: "book_wf b" and new: "i \<notin> set (resting_ids b)" and ok: "0 < p" "order_ok (i, r)"
    and nc: "\<forall>k \<in> prices (queues (opposite_of s) b). \<not> tradable (opposite_of s) p k"
  shows "book_wf (set_queues s (enqueue_at s p (i, r) (queues s b)) b)"
proof -
  from wf have w: "side_wf s (queues s b)" by (simp add: book_wf_side [of b s])
  obtain xs ys where xs: "side_orders (queues s b) = xs @ ys"
    "side_orders (enqueue_at s p (i, r) (queues s b)) = xs @ (i, r) # ys"
    using side_orders_enqueue [OF side_wf_sorted [OF w]] by blast
  have "uncrossed (set_queues s (enqueue_at s p (i, r) (queues s b)) b)"
    using wf nc unfolding uncrossed_side [of _ s] book_wf_side [of _ s] by auto
  then show ?thesis
    using wf side_wf_enqueue [OF w ok] xs new unfolding book_wf_side [of _ s] resting_ids_side [of b s] by auto
qed

lemma spec_add_order_wf:
  assumes wf: "book_wf b" and e: "0 < add_order_id e" "0 < add_price e" "0 < add_quantity e" "add_quantity e \<le> int64_max"
  shows "book_wf (snd (spec_add_order s e b))"
proof -
  let ?o = "opposite_of s" and ?i = "add_order_id e"
  obtain evs m r where sm: "spec_match_side ?o ?i (add_price e) (queues ?o b) (add_quantity e) = (evs, m, r)"
    by (metis prod_cases3)
  from wf have w: "side_wf ?o (queues ?o b)" by (simp add: book_wf_side [of b s])
  have q: "0 \<le> add_quantity e" using e by simp
  let ?b = "set_queues ?o m b"
  have wf': "book_wf ?b" by (rule spec_match_book_wf [OF wf q sm])
  note bd = spec_match_side_bounds [OF sm q side_wf_positive [OF w]]
  have "book_wf (set_queues s (enqueue_at s (add_price e) (?i, r) (queues s ?b)) ?b)"
    if "r \<noteq> 0" "?i \<notin> set (resting_ids ?b)"
  proof (rule rest_book_wf [OF wf' that(2) e(2)])
    show "order_ok (?i, r)" using bd that(1) e by (simp add: order_ok_def)
    have "queues ?o ?b = other_levels ?o (add_price e) (queues ?o b)"
      using spec_match_side_leftover [OF w q sm] bd that(1) by simp
    then show "\<forall>k \<in> prices (queues ?o ?b). \<not> tradable ?o (add_price e) k"
      by (intro ballI) (rule other_levels_not_crossing [OF side_wf_sorted [OF w]], simp only:)
  qed
  then show ?thesis using wf wf' by (simp add: spec_add_order_def Let_def sm)
qed

lemma spec_step_wf:
  assumes "book_wf b" "input_event_int64 e"
  shows "book_wf (snd (spec_step b e))"
proof (cases e)
  case (add_order_in a)
  with assms spec_add_order_wf [OF assms(1), of a] show ?thesis
    by (auto simp: spec_on_add_def int64_def)
next
  case (cancel_order_in a)
  with assms remove_order_wf show ?thesis by (auto simp: spec_on_cancel_def Let_def split: option.split)
qed (use assms in simp)

section \<open>What an add order reports\<close>

text \<open>
  The two events for each resting order an incoming order trades with: the trade, then the
  new state of the resting order.
\<close>

definition passive_report :: "order_id_t \<Rightarrow> resting_order \<times> resting_order \<Rightarrow> output_event_t list" where
  "passive_report i z = (case z of ((r, rq), (r', t)) \<Rightarrow>
     [trade_event i r t, if t = rq then order_filled_event r t else order_resting_event r t (rq - t)])"

lemma spec_match_queue_reports:
  "all_positive xs \<Longrightarrow> 0 \<le> q \<Longrightarrow>
   fst (spec_match_queue i xs q) = concat (map (passive_report i) (zip xs (allocate q xs)))"
proof (induction i xs q rule: spec_match_queue.induct)
  case (2 i r rq rest q)
  then show ?case by (auto simp: passive_report_def min_def split: prod.splits)
qed simp

definition crossing_orders :: "side_t \<Rightarrow> price_t \<Rightarrow> book \<Rightarrow> resting_order list" where
  "crossing_orders s limit b = side_orders (crossing_levels (opposite_of s) limit (queues (opposite_of s) b))"

lemma crossing_orders_split:
  "side_orders (queues (opposite_of s) b) = crossing_orders s limit b @
     side_orders (other_levels (opposite_of s) limit (queues (opposite_of s) b))"
  unfolding crossing_orders_def by (metis side_orders_simps(3) takeWhile_dropWhile_id)

lemma crossing_orders_positive:
  "book_wf b \<Longrightarrow> all_positive (crossing_orders s limit b)"
  using book_wf_positive [of b "opposite_of s"] crossing_orders_split [of s b limit] by simp

text \<open>Matching only takes ids out of the book.\<close>

lemma matched_ids:
  assumes "queues s b1 = queues s b"
    and "side_orders (queues (opposite_of s) b1) = deplete q (crossing_orders s limit b) @
      side_orders (other_levels (opposite_of s) limit (queues (opposite_of s) b))"
  shows "set (resting_ids b1) \<subseteq> set (resting_ids b)"
proof -
  obtain ds where "map fst (crossing_orders s limit b) = ds @ map fst (deplete q (crossing_orders s limit b))"
    using deplete_ids by blast
  then have "fst ` set (deplete q (crossing_orders s limit b)) \<subseteq> fst ` set (crossing_orders s limit b)"
    by (metis list.set_map set_append sup_ge2)
  with assms crossing_orders_split [of s b limit] show ?thesis unfolding resting_ids_side [of _ s] by auto
qed

text \<open>What can trade, what does, and the last event of an add order that is not rejected at once.\<close>

definition fills_of :: "add_order_event_t \<Rightarrow> book \<Rightarrow> quantity_t" where
  "fills_of e b = min (add_quantity e) (spec_total (crossing_orders (add_side e) (add_price e) b))"

definition match_reports :: "add_order_event_t \<Rightarrow> book \<Rightarrow> output_event_t list" where
  "match_reports e b =
     (let xs = crossing_orders (add_side e) (add_price e) b
      in concat (map (passive_report (add_order_id e)) (zip xs (allocate (add_quantity e) xs))))"

definition valid_add :: "add_order_event_t \<Rightarrow> bool" where
  "valid_add e \<longleftrightarrow> 0 < add_order_id e \<and> 0 < add_quantity e \<and> add_quantity e \<le> int64_max \<and> 0 < add_price e"

definition killed :: "add_order_event_t \<Rightarrow> book \<Rightarrow> bool" where
  "killed e b \<longleftrightarrow> add_tif e = fok \<and>
     spec_fillable (opposite_of (add_side e)) (add_price e) (add_quantity e) 0
       (queues (opposite_of (add_side e)) b) < add_quantity e"

lemma fills_of_bounds:
  assumes "book_wf b" "valid_add e"
  shows "0 \<le> fills_of e b" "fills_of e b \<le> add_quantity e"
  using spec_total_nonneg [OF crossing_orders_positive [OF assms(1)]] assms(2)
  by (auto simp: fills_of_def valid_add_def)

text \<open>The match step of a valid add order, in closed form.\<close>

lemma spec_match_add:
  assumes wf: "book_wf b" and v: "valid_add e"
  obtains m where "spec_match_side (opposite_of (add_side e)) (add_order_id e) (add_price e)
      (queues (opposite_of (add_side e)) b) (add_quantity e) =
      (match_reports e b, m, add_quantity e - fills_of e b)"
    "side_orders m = deplete (add_quantity e) (crossing_orders (add_side e) (add_price e) b) @
       side_orders (other_levels (opposite_of (add_side e)) (add_price e) (queues (opposite_of (add_side e)) b))"
    "trades_of (match_reports e b) = map (\<lambda>(r, t). (add_order_id e, r, t))
       (allocate (add_quantity e) (crossing_orders (add_side e) (add_price e) b))"
proof -
  let ?o = "opposite_of (add_side e)" and ?q = "add_quantity e" and ?i = "add_order_id e"
  obtain evs m r where sm: "spec_match_side ?o ?i (add_price e) (queues ?o b) ?q = (evs, m, r)"
    by (metis prod_cases3)
  have w: "all_positive (side_orders (queues ?o b))"
    using wf by (rule book_wf_positive)
  have q: "0 \<le> ?q" using v by (simp add: valid_add_def)
  note res = spec_match_side_result [OF w q sm, folded crossing_orders_def]
  have "evs = match_reports e b"
    using spec_match_side_flat [OF w q sm, folded crossing_orders_def]
      spec_match_queue_reports [OF crossing_orders_positive [OF wf, of "add_side e" "add_price e"] q, of ?i]
    by (auto simp: match_reports_def Let_def)
  then show thesis using that sm res by (simp add: fills_of_def)
qed

text \<open>
  The probe of a fill-or-kill order never overestimates what can trade, whatever wraps, and
  is exact when the crossing quantity fits in 64 bits.
\<close>

lemma spec_fillable_le:
  "int64_min \<le> available \<Longrightarrow> all_positive (side_orders m) \<Longrightarrow>
   spec_fillable s limit need available m \<le> available + spec_total (side_orders (crossing_levels s limit m))"
proof (induction s limit need available m rule: spec_fillable.induct)
  case (2 s limit need available p xs m)
  show ?case
  proof (cases "tradable s limit p")
    case True
    let ?a = "wrap64 (available + spec_total xs)"
    have pos: "0 \<le> spec_total xs" "all_positive (side_orders m)"
      using 2(3) spec_total_nonneg by auto
    have "0 \<le> spec_total (side_orders (crossing_levels s limit m))"
      using pos(2) by (metis all_positive_simps(3) side_orders_simps(3) spec_total_nonneg takeWhile_dropWhile_id)
    moreover have "?a \<le> available + spec_total xs" using 2(2) pos(1) by (intro wrap64_le) simp
    moreover have "int64_min \<le> ?a" using int64_wrap64 by (rule int64_bounds)
    ultimately show ?thesis using True 2(1) [OF _ refl] pos(2) by (auto simp: Let_def)
  qed simp
qed simp

lemma spec_fillable_exact:
  "0 \<le> available \<Longrightarrow> all_positive (side_orders m) \<Longrightarrow>
   available + spec_total (side_orders (crossing_levels s limit m)) \<le> int64_max \<Longrightarrow>
   need \<le> spec_fillable s limit need available m \<longleftrightarrow>
     need \<le> available + spec_total (side_orders (crossing_levels s limit m))"
proof (induction s limit need available m rule: spec_fillable.induct)
  case (2 s limit need available p xs m)
  show ?case
  proof (cases "tradable s limit p")
    case True
    have pos: "0 \<le> spec_total xs" "all_positive (side_orders m)"
      using 2(3) spec_total_nonneg by auto
    have nn: "0 \<le> spec_total (side_orders (crossing_levels s limit m))"
      using pos(2) by (metis all_positive_simps(3) side_orders_simps(3) spec_total_nonneg takeWhile_dropWhile_id)
    then have "wrap64 (available + spec_total xs) = available + spec_total xs"
      using 2(2,4) pos(1) True by (intro wrap64_range) auto
    then show ?thesis using True 2(1) [OF _ refl] 2(2,4) pos nn by (auto simp: Let_def)
  qed simp
qed simp

lemma fok_fills:
  assumes "book_wf b" "valid_add e" "add_tif e = fok" "\<not> killed e b"
  shows "fills_of e b = add_quantity e"
proof -
  have "all_positive (side_orders (queues (opposite_of (add_side e)) b))"
    using assms(1) by (rule book_wf_positive)
  from spec_fillable_le [OF _ this, of 0 "opposite_of (add_side e)" "add_price e" "add_quantity e"] assms(3,4)
  show ?thesis by (auto simp: killed_def fills_of_def crossing_orders_def)
qed

lemma killed_iff:
  assumes "book_wf b" "valid_add e" "spec_total (crossing_orders (add_side e) (add_price e) b) \<le> int64_max"
  shows "killed e b \<longleftrightarrow> add_tif e = fok \<and> spec_total (crossing_orders (add_side e) (add_price e) b) < add_quantity e"
proof -
  have "all_positive (side_orders (queues (opposite_of (add_side e)) b))"
    using assms(1) by (rule book_wf_positive)
  from spec_fillable_exact [OF _ this, of 0 "opposite_of (add_side e)" "add_price e" "add_quantity e"] assms(3)
  show ?thesis by (auto simp: killed_def crossing_orders_def)
qed

text \<open>The last event of a valid add order, by its time in force and the quantity that traded.\<close>

definition add_terminal :: "add_order_event_t \<Rightarrow> quantity_t \<Rightarrow> bool \<Rightarrow> output_event_t" where
  "add_terminal e filled duplicate =
     (let i = add_order_id e; residue = add_quantity e - filled
      in if residue = 0 then order_filled_event i filled
         else (case add_tif e of
                 gtc \<Rightarrow> if duplicate then order_rejected_event i duplicate_order_id
                        else order_resting_event i filled residue
               | ioc \<Rightarrow> order_cancelled_event i filled residue immediate_or_cancel
               | fok \<Rightarrow> order_cancelled_event i filled residue fill_or_kill))"

text \<open>
  A valid add order in closed form: the book after the match, and whether the rest of the
  order is queued in it.
\<close>

definition rests :: "add_order_event_t \<Rightarrow> book \<Rightarrow> book \<Rightarrow> bool" where
  "rests e b b1 \<longleftrightarrow> fills_of e b < add_quantity e \<and> add_tif e = gtc \<and> add_order_id e \<notin> set (resting_ids b1)"

lemma spec_on_add_closed:
  assumes wf: "book_wf b" and v: "valid_add e" and k: "\<not> killed e b"
  obtains b1 where
    "spec_on_add e b =
       (match_reports e b @ [add_terminal e (fills_of e b) (add_order_id e \<in> set (resting_ids b1))],
        if rests e b b1
        then set_queues (add_side e) (enqueue_at (add_side e) (add_price e)
               (add_order_id e, add_quantity e - fills_of e b) (queues (add_side e) b1)) b1
        else b1)"
    "queues (add_side e) b1 = queues (add_side e) b" "book_wf b1"
    "side_orders (queues (opposite_of (add_side e)) b1) =
       deplete (add_quantity e) (crossing_orders (add_side e) (add_price e) b) @
       side_orders (other_levels (opposite_of (add_side e)) (add_price e) (queues (opposite_of (add_side e)) b))"
proof -
  let ?s = "add_side e" and ?o = "opposite_of (add_side e)"
  obtain m where sm: "spec_match_side ?o (add_order_id e) (add_price e) (queues ?o b) (add_quantity e) =
      (match_reports e b, m, add_quantity e - fills_of e b)"
    and m: "side_orders m = deplete (add_quantity e) (crossing_orders ?s (add_price e) b) @
       side_orders (other_levels ?o (add_price e) (queues ?o b))"
    by (rule spec_match_add [OF wf v])
  let ?b1 = "set_queues ?o m b"
  have "book_wf ?b1" using v by (intro spec_match_book_wf [OF wf _ sm]) (simp add: valid_add_def)
  moreover have "spec_on_add e b = spec_add_order ?s e b" using v by (simp add: spec_on_add_def valid_add_def)
  moreover have "\<dots> =
       (match_reports e b @ [add_terminal e (fills_of e b) (add_order_id e \<in> set (resting_ids ?b1))],
        if rests e b ?b1
        then set_queues ?s (enqueue_at ?s (add_price e)
               (add_order_id e, add_quantity e - fills_of e b) (queues ?s ?b1)) ?b1
        else ?b1)"
    using k fills_of_bounds [OF wf v]
    by (cases "add_tif e") (auto simp: spec_add_order_def sm Let_def killed_def rests_def add_terminal_def)
  ultimately show thesis using that [of ?b1] m by simp
qed

lemma spec_on_add_events:
  assumes "book_wf b" "valid_add e" "\<not> killed e b"
  shows "\<exists>d. fst (spec_on_add e b) = match_reports e b @ [add_terminal e (fills_of e b) d]"
  by (rule spec_on_add_closed [OF assms]) (auto intro: exI)

text \<open>
  The unfilled rest of a good-till-cancel order whose id is taken: by an order of its own side, or by an
  order of the other side that it does not cross. An order it does cross is filled before the
  rest is looked at.
\<close>

definition duplicate_rest :: "add_order_event_t \<Rightarrow> book \<Rightarrow> bool" where
  "duplicate_rest e b \<longleftrightarrow> add_tif e = gtc \<and> fills_of e b < add_quantity e \<and>
     add_order_id e \<in> fst ` (set (side_orders (queues (add_side e) b)) \<union>
       set (side_orders (other_levels (opposite_of (add_side e)) (add_price e) (queues (opposite_of (add_side e)) b))))"

lemma duplicate_rest_after_match:
  assumes "book_wf b" "valid_add e" "queues (add_side e) b1 = queues (add_side e) b"
    and "side_orders (queues (opposite_of (add_side e)) b1) =
       deplete (add_quantity e) (crossing_orders (add_side e) (add_price e) b) @
       side_orders (other_levels (opposite_of (add_side e)) (add_price e) (queues (opposite_of (add_side e)) b))"
    and "add_tif e = gtc" "fills_of e b < add_quantity e"
  shows "duplicate_rest e b \<longleftrightarrow> add_order_id e \<in> set (resting_ids b1)"
proof -
  have "deplete (add_quantity e) (crossing_orders (add_side e) (add_price e) b) = []"
    using assms(2,6) deplete_Nil_iff [OF _ crossing_orders_positive [OF assms(1)], of "add_quantity e"]
    by (auto simp: fills_of_def valid_add_def)
  with assms(3-6) show ?thesis unfolding duplicate_rest_def resting_ids_side [of b1 "add_side e"] by (simp add: image_Un)
qed

text \<open>The quantity an event leaves on the book.\<close>

fun rested_quantity :: "output_event_t \<Rightarrow> quantity_t" where
  "rested_quantity (order_resting_event i f r) = r"
| "rested_quantity _ = 0"

lemma spec_on_add_result:
  assumes wf: "book_wf b" and v: "valid_add e" and k: "\<not> killed e b"
  obtains b' where
    "spec_on_add e b =
       (match_reports e b @ [add_terminal e (fills_of e b) (duplicate_rest e b)], b')"
    "side_orders (queues (opposite_of (add_side e)) b') =
       deplete (add_quantity e) (crossing_orders (add_side e) (add_price e) b) @
       side_orders (other_levels (opposite_of (add_side e)) (add_price e) (queues (opposite_of (add_side e)) b))"
    "spec_total (side_orders (queues (add_side e) b')) = spec_total (side_orders (queues (add_side e) b)) +
       rested_quantity (add_terminal e (fills_of e b) (duplicate_rest e b))"
    "duplicate_rest e b \<Longrightarrow> queues (add_side e) b' = queues (add_side e) b"
proof -
  let ?s = "add_side e" and ?r = "add_quantity e - fills_of e b"
  obtain b1 where b1: "spec_on_add e b =
       (match_reports e b @ [add_terminal e (fills_of e b) (add_order_id e \<in> set (resting_ids b1))],
        if rests e b b1 then set_queues ?s (enqueue_at ?s (add_price e) (add_order_id e, ?r) (queues ?s b1)) b1 else b1)"
    "queues ?s b1 = queues ?s b" "book_wf b1"
    "side_orders (queues (opposite_of ?s) b1) = deplete (add_quantity e) (crossing_orders ?s (add_price e) b) @
       side_orders (other_levels (opposite_of ?s) (add_price e) (queues (opposite_of ?s) b))"
    by (rule spec_on_add_closed [OF wf v k])
  have dup: "add_order_id e \<in> set (resting_ids b1) \<longleftrightarrow> duplicate_rest e b" if "add_tif e = gtc" "fills_of e b < add_quantity e"
    using duplicate_rest_after_match [OF wf v b1(2,4) that] by simp
  have t: "add_terminal e (fills_of e b) (add_order_id e \<in> set (resting_ids b1)) = add_terminal e (fills_of e b) (duplicate_rest e b)"
    using dup fills_of_bounds(2) [OF wf v]
    by (cases "fills_of e b < add_quantity e"; cases "add_tif e") (simp_all add: add_terminal_def Let_def)
  have r: "rests e b b1 \<longleftrightarrow> fills_of e b < add_quantity e \<and> add_tif e = gtc \<and> \<not> duplicate_rest e b"
    using dup by (auto simp: rests_def)
  obtain xs ys where "side_orders (queues ?s b) = xs @ ys"
    "side_orders (enqueue_at ?s (add_price e) (add_order_id e, ?r) (queues ?s b)) = xs @ (add_order_id e, ?r) # ys"
    using side_orders_enqueue [OF side_wf_sorted [OF book_wf_queues [OF wf, of ?s]]] by blast
  then have total: "spec_total (side_orders (enqueue_at ?s (add_price e) (add_order_id e, ?r) (queues ?s b))) =
      spec_total (side_orders (queues ?s b)) + ?r" by simp
  have q: "rested_quantity (add_terminal e (fills_of e b) (duplicate_rest e b)) = (if rests e b b1 then ?r else 0)"
    using fills_of_bounds [OF wf v] by (auto simp: r add_terminal_def Let_def split: tif_t.split)
  show thesis by (rule that [OF b1(1) [unfolded t]]) (use b1(2,4) total q r in auto)
qed

lemma match_reports_no_reject: "order_rejected_event i code \<notin> set (match_reports e b)"
  by (auto simp: match_reports_def passive_report_def Let_def split: prod.splits if_splits)

lemma spec_on_add_killed:
  assumes "valid_add e" "killed e b"
  shows "spec_on_add e b = ([order_cancelled_event (add_order_id e) 0 (add_quantity e) fill_or_kill], b)"
  using assms by (simp add: spec_on_add_def spec_add_order_def valid_add_def killed_def Let_def)

end
