(* ===== verification/Clob_Refinement.thy ===== *)
theory Clob_Refinement
  imports Clob Book_Matching
begin

text \<open>
  The pointer-level book refines the abstract book: every handler returns, emits the events
  of the abstract handler and leaves a book that represents the abstract result.
\<close>

section \<open>Draining one level\<close>

definition level_ok :: "side_t \<Rightarrow> price_t \<Rightarrow> heap \<Rightarrow> price_level_t \<Rightarrow> addr list \<Rightarrow> bool" where
  "level_ok s p h level as \<longleftrightarrow>
     level_queue h level as \<and> (\<forall>a \<in> set as. good_node s p (h a)) \<and>
     total_quantity level = wrap64 (queue_total h as)"

text \<open>
  What matching changes outside the level it drains: the retired nodes \<open>ds\<close> lose their ids,
  the events are appended, and nothing else moves.
\<close>

definition match_frame :: "clob_t \<Rightarrow> clob_t \<Rightarrow> addr list \<Rightarrow> addr list \<Rightarrow> output_event_t list \<Rightarrow> bool" where
  "match_frame c c' as ds evs \<longleftrightarrow>
     (\<forall>a. a \<notin> set as \<longrightarrow> nodes c' a = nodes c a) \<and>
     (\<forall>a. node_order_id (nodes c' a) = node_order_id (nodes c a)) \<and>
     lookup c' = (\<lambda>i. if i \<in> (\<lambda>a. node_order_id (nodes c a)) ` set ds then None else lookup c i) \<and>
     emitter c' = emitter c @ evs \<and> next_node c' = next_node c"

lemma match_frame_refl [simp]: "match_frame c c as [] []"
  by (simp add: match_frame_def)

lemma match_frame_trans:
  assumes "match_frame c c1 as ds evs" "match_frame c1 c2 as1 ds1 evs1" "set as1 \<subseteq> set as"
  shows "match_frame c c2 as (ds @ ds1) (evs @ evs1)"
proof -
  have "nodes c2 a = nodes c a" if "a \<notin> set as" for a
    using assms that by (auto simp: match_frame_def)
  moreover have "lookup c2 = (\<lambda>i. if i \<in> (\<lambda>a. node_order_id (nodes c a)) ` set (ds @ ds1) then None
      else lookup c i)"
    using assms(1,2) by (simp add: match_frame_def fun_eq_iff image_Un)
  ultimately show ?thesis using assms(1,2) by (simp add: match_frame_def)
qed

lemma match_frame_mono:
  "match_frame c c' as ds evs \<Longrightarrow> set as \<subseteq> set as' \<Longrightarrow> match_frame c c' as' ds evs"
  by (auto simp: match_frame_def)

lemma side_book_simps [simp]:
  "side_book s (set_side_book s l c) = l"
  "side_book (opposite_of s) (set_side_book s l c) = side_book (opposite_of s) c"
  "nodes (set_side_book s l c) = nodes c" "lookup (set_side_book s l c) = lookup c"
  "next_node (set_side_book s l c) = next_node c" "emitter (set_side_book s l c) = emitter c"
  "side_book s (emit ev c) = side_book s c"
  "side_book s (c\<lparr>nodes := h\<rparr>) = side_book s c" "side_book s (c\<lparr>lookup := lk\<rparr>) = side_book s c"
  "side_book s (c\<lparr>next_node := n\<rparr>) = side_book s c"
  by (cases s; simp add: emit_def)+

lemma emit_simps [simp]:
  "nodes (emit ev c) = nodes c" "lookup (emit ev c) = lookup c" "next_node (emit ev c) = next_node c"
  "emitter (emit ev c) = emitter c @ [ev]"
  by (simp_all add: emit_def)

lemma match_frame_side_book [simp]:
  "match_frame c (set_side_book s l c') as ds evs = match_frame c c' as ds evs"
  "match_frame (set_side_book s l c) c' as ds evs = match_frame c c' as ds evs"
  by (simp_all only: match_frame_def side_book_simps)

text \<open>The aggressive order takes the whole of the first resting order \<dots>\<close>

lemma match_resting_full:
  assumes ok: "level_ok s p (nodes c) level (a # as)"
    and le: "node_quantity (nodes c a) \<le> add_quantity incoming"
    and bd: "add_quantity incoming \<le> int64_max" "0 \<le> filled" "filled + add_quantity incoming \<le> int64_max"
  obtains c' level' where
    "match_resting a (c, level, incoming, filled) =
       (c', level', incoming\<lparr>add_quantity := add_quantity incoming - node_quantity (nodes c a)\<rparr>,
        filled + node_quantity (nodes c a))"
    "level_ok s p (nodes c') level' as"
    "match_frame c c' (a # as) [a]
       [trade_event (add_order_id incoming) (node_order_id (nodes c a)) (node_quantity (nodes c a)),
        order_filled_event (node_order_id (nodes c a)) (node_quantity (nodes c a))]"
    "\<And>b. b \<in> set as \<Longrightarrow> same_order (nodes c b) (nodes c' b)"
    "\<And>t. side_book t c' = side_book t c"
proof -
  let ?q = "node_quantity (nodes c a)"
  from ok have q: "0 < ?q" "?q \<le> int64_max" and lq: "level_queue (nodes c) level ([] @ a # as)"
    and d: "a \<notin> set as" and good: "\<And>b. b \<in> set as \<Longrightarrow> good_node s p (nodes c b)"
    and tot: "total_quantity level = wrap64 (?q + queue_total (nodes c) as)"
    by (auto simp: level_ok_def good_node_def level_queue_def)
  let ?level1 = "level\<lparr>total_quantity := wrap64 (total_quantity level - ?q)\<rparr>"
  obtain h level' where un: "unlink a (nodes c) ?level1 = (h, level')" by fastforce
  have "level_queue (nodes c) ?level1 ([] @ a # as)" using lq by simp
  note unl = unlink_queue [OF this un]
  let ?h = "h(a := (h a)\<lparr>node_active := False\<rparr>)"
  let ?evs = "[trade_event (add_order_id incoming) (node_order_id (nodes c a)) ?q,
    order_filled_event (node_order_id (nodes c a)) ?q]"
  let ?c' = "c\<lparr>nodes := ?h, lookup := (lookup c)(node_order_id (h a) := None),
    emitter := emitter c @ ?evs\<rparr>"
  show thesis
  proof (rule that)
    show "match_resting a (c, level, incoming, filled) =
       (?c', level', incoming\<lparr>add_quantity := add_quantity incoming - ?q\<rparr>, filled + ?q)"
      using q le bd un
      by (simp add: match_resting_def Let_def min_def emit_def retire_resting_def wrap64_range)
    have ids: "node_order_id (h b) = node_order_id (nodes c b)" for b
      using unl(2) [of b] by (simp add: same_order_fields)
    show "match_frame c ?c' (a # as) [a] ?evs"
      using unl(3) ids by (auto simp: match_frame_def fun_eq_iff)
    show same: "same_order (nodes c b) (nodes ?c' b)" if "b \<in> set as" for b
      using unl(2) [of b] that d by auto
    have "level_queue ?h level' as"
      using unl(1) d by (subst level_queue_cong [where h' = h]) auto
    moreover have "queue_total ?h as = queue_total (nodes c) as"
      using same by (intro queue_total_cong) (simp add: same_order_fields)
    moreover have "good_node s p (?h b)" if "b \<in> set as" for b
      using good [OF that] good_node_cong [OF same [OF that]] by simp
    ultimately show "level_ok s p (nodes ?c') level' as"
      using unl(4) tot by (simp add: level_ok_def)
    show "side_book t ?c' = side_book t c" for t by (cases t) simp_all
  qed
qed

text \<open>\<dots> or only a part of it, and is then exhausted.\<close>

lemma match_resting_partial:
  assumes ok: "level_ok s p (nodes c) level (a # as)"
    and lt: "add_quantity incoming < node_quantity (nodes c a)" "0 < add_quantity incoming"
    and bd: "0 \<le> filled" "filled + add_quantity incoming \<le> int64_max"
  obtains c' level' where
    "match_resting a (c, level, incoming, filled) =
       (c', level', incoming\<lparr>add_quantity := 0\<rparr>, filled + add_quantity incoming)"
    "level_ok s p (nodes c') level' (a # as)"
    "map (\<lambda>b. abs_order (nodes c' b)) (a # as) =
       (node_order_id (nodes c a), node_quantity (nodes c a) - add_quantity incoming)
         # map (\<lambda>b. abs_order (nodes c b)) as"
    "match_frame c c' (a # as) []
       [trade_event (add_order_id incoming) (node_order_id (nodes c a)) (add_quantity incoming),
        order_resting_event (node_order_id (nodes c a)) (add_quantity incoming)
          (node_quantity (nodes c a) - add_quantity incoming)]"
    "\<And>t. side_book t c' = side_book t c"
proof -
  let ?q = "node_quantity (nodes c a)" and ?t = "add_quantity incoming"
  from ok have q: "?q \<le> int64_max" and lq: "level_queue (nodes c) level (a # as)"
    and d: "a \<notin> set as" and good: "\<And>b. b \<in> set (a # as) \<Longrightarrow> good_node s p (nodes c b)"
    and tot: "total_quantity level = wrap64 (?q + queue_total (nodes c) as)"
    by (auto simp: level_ok_def good_node_def level_queue_def)
  let ?h = "(nodes c)(a := (nodes c a)\<lparr>node_quantity := ?q - ?t\<rparr>)"
  let ?evs = "[trade_event (add_order_id incoming) (node_order_id (nodes c a)) ?t,
    order_resting_event (node_order_id (nodes c a)) ?t (?q - ?t)]"
  let ?c' = "c\<lparr>nodes := ?h, emitter := emitter c @ ?evs\<rparr>"
  let ?level' = "level\<lparr>total_quantity := wrap64 (total_quantity level - ?t)\<rparr>"
  show thesis
  proof (rule that)
    show "match_resting a (c, level, incoming, filled) =
       (?c', ?level', incoming\<lparr>add_quantity := 0\<rparr>, filled + ?t)"
      using q lt bd by (simp add: match_resting_def Let_def min_def emit_def wrap64_range)
    have "level_queue ?h level (a # as)"
      using lq by (subst level_queue_cong [where h' = "nodes c"]) auto
    moreover have "queue_total ?h as = queue_total (nodes c) as"
      using d by (intro queue_total_cong) auto
    moreover have "good_node s p (?h b)" if "b \<in> set (a # as)" for b
      using good [OF that] lt q by (auto simp: good_node_def)
    ultimately show "level_ok s p (nodes ?c') ?level' (a # as)"
      using tot by (simp add: level_ok_def algebra_simps)
    show "map (\<lambda>b. abs_order (nodes ?c' b)) (a # as) =
       (node_order_id (nodes c a), ?q - ?t) # map (\<lambda>b. abs_order (nodes c b)) as"
      using d by (auto simp: abs_order_def)
    show "match_frame c ?c' (a # as) [] ?evs" by (auto simp: match_frame_def)
    show "side_book t ?c' = side_book t c" for t by (cases t) simp_all
  qed
qed

lemma match_level_loop_None [simp]: "match_level_loop None st = Some st"
  by (subst match_level_loop.simps) (simp split: prod.split)

lemma match_level_loop_done:
  "add_quantity incoming \<le> 0 \<Longrightarrow>
   match_level_loop cur (c, level, incoming, filled) = Some (c, level, incoming, filled)"
  by (subst match_level_loop.simps) (simp split: option.split)

lemma match_level_loop_step:
  "0 < add_quantity incoming \<Longrightarrow> node_active (nodes c a) \<Longrightarrow>
   match_level_loop (Some a) (c, level, incoming, filled) =
   match_level_loop (next_same_price (nodes c a)) (match_resting a (c, level, incoming, filled))"
  by (subst match_level_loop.simps) simp

text \<open>
  The loop from the head of the level returns and agrees with the abstract matching of the
  queue, which leaves \<open>xs'\<close> resting and \<open>q'\<close> of the incoming quantity.
\<close>

definition level_matched ::
    "side_t \<Rightarrow> price_t \<Rightarrow> addr list \<Rightarrow> match_state \<Rightarrow> output_event_t list \<times> resting_order list \<times> quantity_t \<Rightarrow> bool" where
  "level_matched s p as st res \<longleftrightarrow>
     (case st of (c, level, incoming, filled) \<Rightarrow> case res of (evs, xs', q') \<Rightarrow>
        \<exists>c' level' ds as'.
          match_level_loop (head level) st =
            Some (c', level', incoming\<lparr>add_quantity := q'\<rparr>, filled + (add_quantity incoming - q')) \<and>
          as = ds @ as' \<and> level_ok s p (nodes c') level' as' \<and>
          map (\<lambda>a. abs_order (nodes c' a)) as' = xs' \<and> match_frame c c' as ds evs \<and>
          (\<forall>t. side_book t c' = side_book t c))"

lemma level_matchedI:
  assumes "match_level_loop (head level) (c, level, incoming, filled) =
      Some (c', level', incoming\<lparr>add_quantity := q'\<rparr>, filled + (add_quantity incoming - q'))"
    and "as = ds @ as'" "level_ok s p (nodes c') level' as'"
    and "map (\<lambda>a. abs_order (nodes c' a)) as' = xs'" "match_frame c c' as ds evs"
    and "\<And>t. side_book t c' = side_book t c"
  shows "level_matched s p as (c, level, incoming, filled) (evs, xs', q')"
  unfolding level_matched_def using assms by blast

lemma level_ok_Cons:
  assumes "level_ok s p h level (a # as)"
  shows "head level = Some a" "node_active (h a)" "next_same_price (h a) = first_of as"
    "0 < node_quantity (h a)"
  using assms by (auto simp: level_ok_def level_queue_def good_node_def)

lemma level_matched_none:
  assumes "level_ok s p (nodes c) level as" "as = [] \<or> add_quantity incoming = 0"
  shows "level_matched s p as (c, level, incoming, filled)
    ([], map (\<lambda>a. abs_order (nodes c a)) as, add_quantity incoming)"
proof -
  have "match_level_loop (head level) (c, level, incoming, filled) = Some (c, level, incoming, filled)"
    using assms by (auto simp: match_level_loop_done level_ok_def level_queue_def)
  with assms(1) show ?thesis
    by (intro level_matchedI [where ds = "[]" and c' = c and level' = level and as' = as]) simp_all
qed

lemma level_matched_full:
  assumes ok: "level_ok s p (nodes c) level (a # as)"
    and n: "0 < add_quantity incoming" "node_quantity (nodes c a) \<le> add_quantity incoming"
    and bd: "add_quantity incoming \<le> int64_max" "0 \<le> filled" "filled + add_quantity incoming \<le> int64_max"
    and IH: "\<And>c1 level1. level_ok s p (nodes c1) level1 as \<Longrightarrow>
      map (\<lambda>b. abs_order (nodes c1 b)) as = map (\<lambda>b. abs_order (nodes c b)) as \<Longrightarrow>
      level_matched s p as
        (c1, level1, incoming\<lparr>add_quantity := add_quantity incoming - node_quantity (nodes c a)\<rparr>,
         filled + node_quantity (nodes c a)) (evs, xs', q')"
  shows "level_matched s p (a # as) (c, level, incoming, filled)
    (trade_event (add_order_id incoming) (node_order_id (nodes c a)) (node_quantity (nodes c a))
       # order_filled_event (node_order_id (nodes c a)) (node_quantity (nodes c a)) # evs, xs', q')"
proof -
  let ?q = "node_quantity (nodes c a)" and ?n = "add_quantity incoming"
  note hd = level_ok_Cons [OF ok]
  obtain c1 level1 where st: "match_resting a (c, level, incoming, filled) =
       (c1, level1, incoming\<lparr>add_quantity := ?n - ?q\<rparr>, filled + ?q)"
    and ok1: "level_ok s p (nodes c1) level1 as"
    and fr1: "match_frame c c1 (a # as) [a]
       [trade_event (add_order_id incoming) (node_order_id (nodes c a)) ?q,
        order_filled_event (node_order_id (nodes c a)) ?q]"
    and same: "\<And>b. b \<in> set as \<Longrightarrow> same_order (nodes c b) (nodes c1 b)"
    and sb: "\<And>t. side_book t c1 = side_book t c"
    by (rule match_resting_full [OF ok n(2) bd]) blast
  have "map (\<lambda>b. abs_order (nodes c1 b)) as = map (\<lambda>b. abs_order (nodes c b)) as"
    using same by (simp add: abs_order_cong)
  from IH [OF ok1 this] obtain c' level' ds as' where
    run: "match_level_loop (head level1) (c1, level1, incoming\<lparr>add_quantity := ?n - ?q\<rparr>, filled + ?q) =
       Some (c', level', incoming\<lparr>add_quantity := q'\<rparr>, filled + ?q + (?n - ?q - q'))"
    and rest: "as = ds @ as'" "level_ok s p (nodes c') level' as'"
      "map (\<lambda>a. abs_order (nodes c' a)) as' = xs'" "\<forall>t. side_book t c' = side_book t c1"
    and fr': "match_frame c1 c' as ds evs"
    by (auto simp: level_matched_def)
  have "match_frame c c' (a # as) ([a] @ ds) ([trade_event (add_order_id incoming) (node_order_id (nodes c a)) ?q,
        order_filled_event (node_order_id (nodes c a)) ?q] @ evs)"
    by (rule match_frame_trans [OF fr1 fr']) auto
  moreover have "head level1 = first_of as" using ok1 by (simp add: level_ok_def level_queue_def)
  with run have "match_level_loop (head level) (c, level, incoming, filled) =
      Some (c', level', incoming\<lparr>add_quantity := q'\<rparr>, filled + (?n - q'))"
    by (simp add: hd match_level_loop_step [OF n(1) hd(2)] st)
  ultimately show ?thesis using rest sb by (intro level_matchedI [where ds = "a # ds" and c' = c' and level' = level' and as' = as']) simp_all
qed

lemma level_matched_partial:
  assumes ok: "level_ok s p (nodes c) level (a # as)"
    and n: "add_quantity incoming < node_quantity (nodes c a)" "0 < add_quantity incoming"
    and bd: "0 \<le> filled" "filled + add_quantity incoming \<le> int64_max"
  shows "level_matched s p (a # as) (c, level, incoming, filled)
    ([trade_event (add_order_id incoming) (node_order_id (nodes c a)) (add_quantity incoming),
      order_resting_event (node_order_id (nodes c a)) (add_quantity incoming)
        (node_quantity (nodes c a) - add_quantity incoming)],
     (node_order_id (nodes c a), node_quantity (nodes c a) - add_quantity incoming)
       # map (\<lambda>b. abs_order (nodes c b)) as, 0)"
proof (rule match_resting_partial [OF ok n bd])
  fix c1 level1
  assume st: "match_resting a (c, level, incoming, filled) =
       (c1, level1, incoming\<lparr>add_quantity := 0\<rparr>, filled + add_quantity incoming)"
    and rest: "level_ok s p (nodes c1) level1 (a # as)"
    "map (\<lambda>b. abs_order (nodes c1 b)) (a # as) =
       (node_order_id (nodes c a), node_quantity (nodes c a) - add_quantity incoming)
         # map (\<lambda>b. abs_order (nodes c b)) as"
    "match_frame c c1 (a # as) []
       [trade_event (add_order_id incoming) (node_order_id (nodes c a)) (add_quantity incoming),
        order_resting_event (node_order_id (nodes c a)) (add_quantity incoming)
          (node_quantity (nodes c a) - add_quantity incoming)]"
    "\<And>t. side_book t c1 = side_book t c"
  have "match_level_loop (head level) (c, level, incoming, filled) =
      Some (c1, level1, incoming\<lparr>add_quantity := 0\<rparr>, filled + add_quantity incoming)"
    using level_ok_Cons [OF ok]
    by (simp add: match_level_loop_step [OF n(2)] st match_level_loop_done)
  with rest show ?thesis
    by (intro level_matchedI [where ds = "[]" and c' = c1 and level' = level1 and as' = "a # as"]) simp_all
qed

text \<open>\<^verbatim>\<open>match_level\<close> returns, and drains the queue as the abstract matching does.\<close>

lemma match_level_loop_refines:
  assumes "level_ok s p (nodes c) level as"
    and "0 \<le> add_quantity incoming" "add_quantity incoming \<le> int64_max" "0 \<le> filled"
      "filled + add_quantity incoming \<le> int64_max"
  shows "level_matched s p as (c, level, incoming, filled)
    (spec_match_queue (add_order_id incoming) (map (\<lambda>a. abs_order (nodes c a)) as) (add_quantity incoming))"
  using assms
proof (induction as arbitrary: c level incoming filled)
  case Nil
  then show ?case using level_matched_none [of s p c level "[]"] by simp
next
  case (Cons a as)
  let ?q = "node_quantity (nodes c a)" and ?n = "add_quantity incoming"
  note q0 = level_ok_Cons(4) [OF Cons.prems(1)]
  consider (none) "?n = 0" | (full) "0 < ?n" "?q \<le> ?n" | (part) "?n < ?q" "0 < ?n"
    using Cons.prems(2) by linarith
  then show ?case
  proof cases
    case none
    then show ?thesis using level_matched_none [OF Cons.prems(1), of incoming filled]
      by (simp add: abs_order_def)
  next
    case full
    obtain evs xs' q' where sp: "spec_match_queue (add_order_id incoming)
        (map (\<lambda>b. abs_order (nodes c b)) as) (?n - ?q) = (evs, xs', q')"
      by (metis prod_cases3)
    have "level_matched s p as
        (c1, level1, incoming\<lparr>add_quantity := ?n - ?q\<rparr>, filled + ?q) (evs, xs', q')"
      if "level_ok s p (nodes c1) level1 as"
        "map (\<lambda>b. abs_order (nodes c1 b)) as = map (\<lambda>b. abs_order (nodes c b)) as" for c1 level1
      using Cons.IH [OF that(1), of "incoming\<lparr>add_quantity := ?n - ?q\<rparr>" "filled + ?q"]
        full q0 Cons.prems(3-5) sp that(2) by simp
    from level_matched_full [OF Cons.prems(1) full Cons.prems(3-5) this]
    show ?thesis using full sp by (simp add: abs_order_def)
  next
    case part
    then show ?thesis using level_matched_partial [OF Cons.prems(1) part Cons.prems(4,5)]
      by (simp add: abs_order_def)
  qed
qed

section \<open>Walking the ladder\<close>

definition side_matched ::
    "side_t \<Rightarrow> addr list ladder \<Rightarrow> clob_t \<Rightarrow> add_order_event_t \<Rightarrow> quantity_t \<Rightarrow>
     output_event_t list \<times> queue_side \<times> quantity_t \<Rightarrow> bool" where
  "side_matched s g c incoming filled res \<longleftrightarrow>
     (case res of (evs, m', q') \<Rightarrow>
        \<exists>c' ds g'.
          match_against s c incoming filled =
            Some (c', incoming\<lparr>add_quantity := q'\<rparr>, filled + (add_quantity incoming - q')) \<and>
          side_addrs g = ds @ side_addrs g' \<and> side_rep s (nodes c') (side_book s c') g' \<and>
          abs_side (nodes c') g' = m' \<and> match_frame c c' (side_addrs g) ds evs \<and>
          side_book (opposite_of s) c' = side_book (opposite_of s) c)"

lemma side_matchedI:
  assumes "match_against s c incoming filled =
      Some (c', incoming\<lparr>add_quantity := q'\<rparr>, filled + (add_quantity incoming - q'))"
    and "side_addrs g = ds @ side_addrs g'" "side_rep s (nodes c') (side_book s c') g'"
    and "abs_side (nodes c') g' = m'" "match_frame c c' (side_addrs g) ds evs"
    and "side_book (opposite_of s) c' = side_book (opposite_of s) c"
  shows "side_matched s g c incoming filled (evs, m', q')"
  unfolding side_matched_def using assms by blast

lemma side_matched_none:
  assumes "match_against s c incoming filled = Some (c, incoming, filled)"
    and "side_rep s (nodes c) (side_book s c) g"
  shows "side_matched s g c incoming filled ([], abs_side (nodes c) g, add_quantity incoming)"
  using assms by (intro side_matchedI [where c' = c and ds = "[]" and g' = g]) simp_all

lemma match_against_done:
  "add_quantity incoming \<le> 0 \<Longrightarrow> match_against s c incoming filled = Some (c, incoming, filled)"
  by (subst match_against.simps) simp

lemma match_against_stop:
  "side_book s c = [] \<or> (\<exists>p level rest. side_book s c = (p, level) # rest \<and> \<not> crosses s (add_price incoming) p) \<Longrightarrow>
   match_against s c incoming filled = Some (c, incoming, filled)"
  by (subst match_against.simps) (auto simp: best_level_def)

lemma match_against_step:
  assumes "0 < add_quantity incoming" "side_book s c = (p, level) # rest"
    and "crosses s (add_price incoming) p" "p \<notin> fst ` set rest" "side_book s c1 = side_book s c"
    and "match_level_loop (head level) (c, level, incoming, 0) = Some (c1, level1, incoming1, level_filled)"
  shows "match_against s c incoming filled =
    match_against s
      (set_side_book s (if head level1 = None then rest else (p, level1) # rest) c1)
      incoming1 (wrap64 (filled + level_filled))"
  using assms
  by (subst match_against.simps) (simp add: best_level_def match_level_def pop_best_level_def)

text \<open>The level is drained and erased, and the walk goes on with the rest of the ladder.\<close>

lemma side_matched_drained:
  assumes rep: "side_rep s (nodes c) ((p, level) # rest) ((p, as) # g)"
    and sb: "side_book s c = (p, level) # rest" "p \<notin> fst ` set rest"
    and n: "0 < add_quantity incoming" "crosses s (add_price incoming) p" "q1 \<le> add_quantity incoming"
      "0 \<le> q1" "0 \<le> filled" "filled + add_quantity incoming \<le> int64_max"
    and lm: "level_matched s p as (c, level, incoming, 0) (evs1, [], q1)"
    and IH: "\<And>c2. side_rep s (nodes c2) (side_book s c2) g \<Longrightarrow> abs_side (nodes c2) g = abs_side (nodes c) g \<Longrightarrow>
      side_matched s g c2 (incoming\<lparr>add_quantity := q1\<rparr>) (filled + (add_quantity incoming - q1)) (evs, m', q')"
  shows "side_matched s ((p, as) # g) c incoming filled (evs1 @ evs, m', q')"
proof -
  let ?n = "add_quantity incoming"
  from lm obtain c1 level1 ds where
    run: "match_level_loop (head level) (c, level, incoming, 0) =
       Some (c1, level1, incoming\<lparr>add_quantity := q1\<rparr>, ?n - q1)"
    and as: "as = ds" and ok1: "level_ok s p (nodes c1) level1 []"
    and fr1: "match_frame c c1 as ds evs1" and sb1: "\<And>t. side_book t c1 = side_book t c"
    by (auto simp: level_matched_def)
  let ?c2 = "set_side_book s rest c1"
  from ok1 have hd: "head level1 = None" by (simp add: level_ok_def level_queue_def)
  have frame: "\<And>a. a \<notin> set as \<Longrightarrow> nodes c1 a = nodes c a" using fr1 by (simp add: match_frame_def)
  have rep2: "side_rep s (nodes ?c2) (side_book s ?c2) g"
    using side_rep_replace_first(1) [OF rep frame] by simp
  have "set as \<inter> set (side_addrs g) = {}" using rep by (simp add: side_rep_def)
  then have abs2: "abs_side (nodes ?c2) g = abs_side (nodes c) g"
    using abs_side_frame [OF _ frame] by simp
  from IH [OF rep2 abs2] obtain c' ds' g' where
    run': "match_against s ?c2 (incoming\<lparr>add_quantity := q1\<rparr>) (filled + (?n - q1)) =
       Some (c', incoming\<lparr>add_quantity := q'\<rparr>, filled + (?n - q'))"
    and rest': "side_addrs g = ds' @ side_addrs g'" "side_rep s (nodes c') (side_book s c') g'"
      "abs_side (nodes c') g' = m'" "side_book (opposite_of s) c' = side_book (opposite_of s) ?c2"
    and fr': "match_frame ?c2 c' (side_addrs g) ds' evs"
    by (auto simp: side_matched_def)
  have "match_frame c c' (as @ side_addrs g) (ds @ ds') (evs1 @ evs)"
    by (rule match_frame_trans [of c c1 _ _ _ _ "side_addrs g"])
      (use match_frame_mono [OF fr1, of "as @ side_addrs g"] fr' in simp_all)
  moreover have "match_against s c incoming filled =
      Some (c', incoming\<lparr>add_quantity := q'\<rparr>, filled + (?n - q'))"
    using match_against_step [OF n(1) sb(1) n(2) sb(2) sb1 run] run' hd n(3-6)
    by (simp add: wrap64_range)
  ultimately show ?thesis using rest' as sb1
    by (intro side_matchedI [where c' = c' and ds = "ds @ ds'" and g' = g']) simp_all
qed

text \<open>The incoming order is exhausted inside the level.\<close>

lemma side_matched_exhausted:
  assumes rep: "side_rep s (nodes c) ((p, level) # rest) ((p, as) # g)"
    and sb: "side_book s c = (p, level) # rest" "p \<notin> fst ` set rest"
    and n: "0 < add_quantity incoming" "crosses s (add_price incoming) p"
      "0 \<le> filled" "filled + add_quantity incoming \<le> int64_max"
    and lm: "level_matched s p as (c, level, incoming, 0) (evs1, xs', 0)" "xs' \<noteq> []"
  shows "side_matched s ((p, as) # g) c incoming filled (evs1, (p, xs') # abs_side (nodes c) g, 0)"
proof -
  let ?n = "add_quantity incoming"
  from lm(1) obtain c1 level1 ds as' where
    run: "match_level_loop (head level) (c, level, incoming, 0) =
       Some (c1, level1, incoming\<lparr>add_quantity := 0\<rparr>, ?n)"
    and as: "as = ds @ as'" and ok1: "level_ok s p (nodes c1) level1 as'"
    and xs': "map (\<lambda>a. abs_order (nodes c1 a)) as' = xs'"
    and fr1: "match_frame c c1 as ds evs1" and sb1: "\<And>t. side_book t c1 = side_book t c"
    by (auto simp: level_matched_def)
  let ?c2 = "set_side_book s ((p, level1) # rest) c1"
  from xs' lm(2) have ne: "as' \<noteq> []" by auto
  with ok1 have hd: "(head level1 = None) = False" by (simp add: level_ok_def level_queue_def)
  have frame: "\<And>a. a \<notin> set as \<Longrightarrow> nodes c1 a = nodes c a" using fr1 by (simp add: match_frame_def)
  have d: "distinct as'" "set as \<inter> set (side_addrs g) = {}"
    using ok1 rep by (simp_all add: level_ok_def level_queue_def side_rep_def)
  have "level_rep s (nodes c1) (p, level1) (p, as')" using ok1 ne by (simp add: level_ok_def)
  then have "side_rep s (nodes c1) ((p, level1) # rest) ((p, as') # g)"
    using side_rep_replace_first(2) [OF rep frame _ d(1)] as by auto
  moreover have "abs_side (nodes c1) g = abs_side (nodes c) g"
    by (rule abs_side_frame [OF d(2) frame])
  moreover have "match_frame c c1 (as @ side_addrs g) ds evs1"
    using fr1 by (rule match_frame_mono) auto
  moreover have "match_against s c incoming filled = Some (?c2, incoming\<lparr>add_quantity := 0\<rparr>, filled + ?n)"
    using match_against_step [OF n(1) sb(1) n(2) sb(2) sb1 run] hd n
    by (simp add: match_against_done wrap64_range)
  ultimately show ?thesis using as xs' sb1
    by (intro side_matchedI [where c' = ?c2 and ds = ds and g' = "(p, as') # g"]) simp_all
qed

text \<open>The best level is crossed: it is drained, or the incoming order is exhausted in it.\<close>

lemma side_matched_crossed:
  assumes rep: "side_rep s (nodes c) ((p, level) # rest) ((p, as) # g)" and sb: "side_book s c = (p, level) # rest"
    and n: "0 < add_quantity incoming" "crosses s (add_price incoming) p"
      "0 \<le> filled" "filled + add_quantity incoming \<le> int64_max"
    and IH: "\<And>c2 q1. side_rep s (nodes c2) (side_book s c2) g \<Longrightarrow> 0 \<le> q1 \<Longrightarrow> q1 \<le> add_quantity incoming \<Longrightarrow>
      side_matched s g c2 (incoming\<lparr>add_quantity := q1\<rparr>) (filled + (add_quantity incoming - q1))
        (spec_match_side s (add_order_id incoming) (add_price incoming) (abs_side (nodes c2) g) q1)"
  shows "side_matched s ((p, as) # g) c incoming filled
    (spec_match_side s (add_order_id incoming) (add_price incoming) (abs_side (nodes c) ((p, as) # g)) (add_quantity incoming))"
proof -
  let ?n = "add_quantity incoming" and ?xs = "map (\<lambda>a. abs_order (nodes c a)) as"
  have lv: "level_rep s (nodes c) (p, level) (p, as)" using rep by (simp add: side_rep_def)
  have out: "p \<notin> fst ` set rest" using side_rep_distinct_keys(2) [OF rep] by simp
  obtain evs1 xs' q1 where sp: "spec_match_queue (add_order_id incoming) ?xs ?n = (evs1, xs', q1)"
    by (metis prod_cases3)
  have pos: "all_positive ?xs" using lv by (auto simp: all_positive_def abs_order_def good_node_def)
  note bd = spec_match_queue_bounds [OF sp less_imp_le [OF n(1)] pos]
  have lm: "level_matched s p as (c, level, incoming, 0) (evs1, xs', q1)"
    using match_level_loop_refines [of s p c level as incoming 0] lv sp n by (simp add: level_ok_def)
  show ?thesis
  proof (cases "xs' = []")
    case True
    obtain evs m' q' where sp': "spec_match_side s (add_order_id incoming) (add_price incoming)
        (abs_side (nodes c) g) q1 = (evs, m', q')" by (metis prod_cases3)
    have "side_matched s ((p, as) # g) c incoming filled (evs1 @ evs, m', q')"
    proof (rule side_matched_drained [OF rep sb out n(1,2) bd(2,1) n(3,4) lm [unfolded True]])
      fix c2 assume "side_rep s (nodes c2) (side_book s c2) g" "abs_side (nodes c2) g = abs_side (nodes c) g"
      with IH [OF this(1) bd(1,2)] sp'
      show "side_matched s g c2 (incoming\<lparr>add_quantity := q1\<rparr>) (filled + (?n - q1)) (evs, m', q')" by simp
    qed
    with True n sp sp' show ?thesis by simp
  next
    case False
    with side_matched_exhausted [OF rep sb out n lm [unfolded bd(3) [OF False]] False] n sp bd(3) show ?thesis by simp
  qed
qed

theorem match_against_refines:
  assumes "side_rep s (nodes c) (side_book s c) g"
    and "0 \<le> add_quantity incoming" "0 \<le> filled" "filled + add_quantity incoming \<le> int64_max"
  shows "side_matched s g c incoming filled
    (spec_match_side s (add_order_id incoming) (add_price incoming) (abs_side (nodes c) g) (add_quantity incoming))"
  using assms
proof (induction g arbitrary: c incoming filled)
  case Nil
  then have "side_book s c = []" by (simp add: side_rep_def)
  with Nil.prems(1) show ?case
    using side_matched_none [of s c incoming filled "[]"] match_against_stop by simp
next
  case (Cons e g)
  from Cons.prems(1) obtain p as level rest where e: "e = (p, as)" and sb: "side_book s c = (p, level) # rest"
    by (cases e) (auto simp: side_rep_def list_all2_Cons2)
  show ?case
  proof (cases "add_quantity incoming \<le> 0 \<or> \<not> crosses s (add_price incoming) p")
    case True
    then have "match_against s c incoming filled = Some (c, incoming, filled)"
      using match_against_done match_against_stop sb by blast
    from side_matched_none [OF this Cons.prems(1)] True show ?thesis by (simp add: e)
  next
    case False
    show ?thesis unfolding e
    proof (rule side_matched_crossed [OF Cons.prems(1) [unfolded sb e] sb _ _ Cons.prems(3,4)])
      fix c2 q1 assume a: "side_rep s (nodes c2) (side_book s c2) g" "0 \<le> q1" "q1 \<le> add_quantity incoming"
      show "side_matched s g c2 (incoming\<lparr>add_quantity := q1\<rparr>) (filled + (add_quantity incoming - q1))
          (spec_match_side s (add_order_id incoming) (add_price incoming) (abs_side (nodes c2) g) q1)"
        using Cons.IH [OF a(1), of "incoming\<lparr>add_quantity := q1\<rparr>" "filled + (add_quantity incoming - q1)"] a Cons.prems(3,4)
        by simp
    qed (use False in auto)
  qed
qed

section \<open>What a book represents\<close>

definition book_addrs :: "(side_t \<Rightarrow> addr list ladder) \<Rightarrow> addr set" where
  "book_addrs g = set (side_addrs (g buy)) \<union> set (side_addrs (g sell))"

lemma book_addrs_side:
  "book_addrs g = set (side_addrs (g s)) \<union> set (side_addrs (g (opposite_of s)))"
  by (cases s) (auto simp: book_addrs_def)

text \<open>
  The well-formedness invariant of the book, for the addresses \<open>g\<close> resting at each price:
  both ladders are represented, no node rests on both sides, the id lookup holds exactly the
  resting nodes, and the arena has not handed out any address in use.
\<close>

definition book_ghost :: "clob_t \<Rightarrow> (side_t \<Rightarrow> addr list ladder) \<Rightarrow> bool" where
  "book_ghost c g \<longleftrightarrow>
     (\<forall>s. side_rep s (nodes c) (side_book s c) (g s)) \<and>
     set (side_addrs (g buy)) \<inter> set (side_addrs (g sell)) = {} \<and>
     (\<forall>i a. lookup c i = Some a \<longleftrightarrow> a \<in> book_addrs g \<and> node_order_id (nodes c a) = i) \<and>
     (\<forall>a \<in> book_addrs g. a < next_node c)"

definition abs_book :: "clob_t \<Rightarrow> (side_t \<Rightarrow> addr list ladder) \<Rightarrow> book" where
  "abs_book c g =
     \<lparr>bid_queues = abs_side (nodes c) (g buy), ask_queues = abs_side (nodes c) (g sell)\<rparr>"

definition book_rep :: "clob_t \<Rightarrow> book \<Rightarrow> bool" where
  "book_rep c b \<longleftrightarrow> (\<exists>g. book_ghost c g \<and> b = abs_book c g)"

lemma queues_abs_book [simp]: "queues s (abs_book c g) = abs_side (nodes c) (g s)"
  by (cases s) (simp_all add: abs_book_def)

lemma book_ghostD:
  assumes "book_ghost c g"
  shows "side_rep s (nodes c) (side_book s c) (g s)"
    and "set (side_addrs (g s)) \<inter> set (side_addrs (g (opposite_of s))) = {}"
    and "lookup c i = Some a \<longleftrightarrow> a \<in> book_addrs g \<and> node_order_id (nodes c a) = i"
    and "a \<in> book_addrs g \<Longrightarrow> a < next_node c"
proof -
  show "side_rep s (nodes c) (side_book s c) (g s)"
    and "lookup c i = Some a \<longleftrightarrow> a \<in> book_addrs g \<and> node_order_id (nodes c a) = i"
    and "a \<in> book_addrs g \<Longrightarrow> a < next_node c"
    using assms unfolding book_ghost_def by blast+
  show "set (side_addrs (g s)) \<inter> set (side_addrs (g (opposite_of s))) = {}"
    using assms unfolding book_ghost_def by (cases s) (simp_all add: Int_commute)
qed

lemma book_ghostI:
  assumes "side_rep s (nodes c) (side_book s c) (g s)"
    and "side_rep (opposite_of s) (nodes c) (side_book (opposite_of s) c) (g (opposite_of s))"
    and "set (side_addrs (g s)) \<inter> set (side_addrs (g (opposite_of s))) = {}"
    and "\<And>i a. lookup c i = Some a \<longleftrightarrow> a \<in> book_addrs g \<and> node_order_id (nodes c a) = i"
    and "\<And>a. a \<in> book_addrs g \<Longrightarrow> a < next_node c"
  shows "book_ghost c g"
proof -
  have "side_rep t (nodes c) (side_book t c) (g t)" for t
    using assms(1,2) by (cases s; cases t) simp_all
  moreover have "set (side_addrs (g buy)) \<inter> set (side_addrs (g sell)) = {}"
    using assms(3) by (cases s) auto
  ultimately show ?thesis using assms(4,5) by (simp add: book_ghost_def)
qed

lemma book_ghost_init: "book_ghost clob_init (\<lambda>_. [])"
  by (rule book_ghostI [of buy]) (simp_all add: clob_init_def book_addrs_def)

lemma book_ghost_emit [simp]: "book_ghost (emit ev c) g = book_ghost c g"
  by (simp add: book_ghost_def)

lemma abs_book_emit [simp]: "abs_book (emit ev c) g = abs_book c g"
  by (simp add: abs_book_def)

lemma book_ids_inj:
  assumes "book_ghost c g"
  shows "inj_on (\<lambda>a. node_order_id (nodes c a)) (book_addrs g)"
proof (rule inj_onI)
  fix a b assume "a \<in> book_addrs g" "b \<in> book_addrs g" "node_order_id (nodes c a) = node_order_id (nodes c b)"
  then have "lookup c (node_order_id (nodes c a)) = Some a" "lookup c (node_order_id (nodes c a)) = Some b"
    by (simp_all add: book_ghostD(3) [OF assms])
  then show "a = b" by simp
qed

lemma side_orders_abs_side: "side_orders (abs_side h g) = map (\<lambda>a. abs_order (h a)) (side_addrs g)"
  by (induction g) auto

lemma book_orders_abs:
  "side_orders (bid_queues (abs_book c g)) @ side_orders (ask_queues (abs_book c g)) =
     map (\<lambda>a. abs_order (nodes c a)) (side_addrs (g buy) @ side_addrs (g sell))"
  by (simp add: abs_book_def side_orders_abs_side)

lemma resting_ids_abs:
  "resting_ids (abs_book c g) = map (\<lambda>a. node_order_id (nodes c a)) (side_addrs (g buy) @ side_addrs (g sell))"
  by (simp add: resting_ids_def abs_book_def side_orders_abs_side abs_order_def comp_def)

lemma book_addrs_distinct:
  assumes "book_ghost c g"
  shows "distinct (side_addrs (g buy) @ side_addrs (g sell))"
  using book_ghostD(1) [OF assms, of buy] book_ghostD(1) [OF assms, of sell] book_ghostD(2) [OF assms, of buy]
  by (simp add: side_rep_def)

lemma distinct_resting_ids:
  assumes "book_ghost c g"
  shows "distinct (resting_ids (abs_book c g))"
  using book_addrs_distinct [OF assms] book_ids_inj [OF assms]
  unfolding resting_ids_abs distinct_map by (simp add: book_addrs_def)

lemma lookup_resting_ids:
  assumes "book_ghost c g"
  shows "lookup c i = None \<longleftrightarrow> i \<notin> set (resting_ids (abs_book c g))"
proof -
  have "lookup c i \<noteq> None \<longleftrightarrow> (\<exists>a \<in> book_addrs g. node_order_id (nodes c a) = i)"
    using book_ghostD(3) [OF assms, of i] by auto
  then show ?thesis by (auto simp: resting_ids_abs book_addrs_def)
qed

lemma lookup_find_resting:
  assumes "book_ghost c g"
  shows "find_resting i (abs_book c g) = map_option (\<lambda>a. node_quantity (nodes c a)) (lookup c i)"
proof (cases "lookup c i")
  case None
  then have "i \<notin> set (resting_ids (abs_book c g))" by (simp add: lookup_resting_ids [OF assms])
  then have "i \<notin> fst ` set (side_orders (bid_queues (abs_book c g)) @ side_orders (ask_queues (abs_book c g)))"
    by (auto simp: resting_ids_def)
  with None show ?thesis by (simp add: find_resting_def map_of_eq_None_iff del: map_of_append)
next
  case (Some a)
  then have a: "a \<in> book_addrs g" "node_order_id (nodes c a) = i"
    by (simp_all add: book_ghostD(3) [OF assms])
  have "distinct (map fst (side_orders (bid_queues (abs_book c g)) @ side_orders (ask_queues (abs_book c g))))"
    using distinct_resting_ids [OF assms] by (simp add: resting_ids_def)
  moreover have "(i, node_quantity (nodes c a)) \<in>
      set (side_orders (bid_queues (abs_book c g)) @ side_orders (ask_queues (abs_book c g)))"
    unfolding book_orders_abs using a by (auto simp: abs_order_def book_addrs_def)
  ultimately show ?thesis using Some
    by (simp add: find_resting_def map_of_is_SomeI del: map_of_append map_append set_append)
qed

section \<open>The handlers\<close>

lemma abs_book_positive:
  assumes "book_ghost c g"
  shows "all_positive (side_orders (queues s (abs_book c g)))"
  using side_rep_good [OF book_ghostD(1) [OF assms, of s]]
  by (auto simp: all_positive_def side_orders_def abs_side_def map_values_def abs_order_def good_node_def)

text \<open>
  An operation that gives one side of the book new addresses and leaves the nodes of the other
  side alone: what is left to show is the new side, the lookup and the arena.
\<close>

lemma book_ghost_update_side:
  assumes gh: "book_ghost c g" and rep: "side_rep s (nodes c') (side_book s c') gs"
    and sb: "side_book (opposite_of s) c' = side_book (opposite_of s) c"
    and frame: "\<And>b. b \<in> set (side_addrs (g (opposite_of s))) \<Longrightarrow> nodes c' b = nodes c b"
    and dj: "set (side_addrs gs) \<inter> set (side_addrs (g (opposite_of s))) = {}"
    and lk: "\<And>i a. lookup c' i = Some a \<longleftrightarrow> a \<in> book_addrs (g(s := gs)) \<and> node_order_id (nodes c' a) = i"
    and used: "\<And>a. a \<in> book_addrs (g(s := gs)) \<Longrightarrow> a < next_node c'"
  shows "book_ghost c' (g(s := gs))"
    "abs_book c' (g(s := gs)) = set_queues s (abs_side (nodes c') gs) (abs_book c g)"
proof -
  let ?o = "opposite_of s"
  show "book_ghost c' (g(s := gs))"
  proof (rule book_ghostI [of s])
    have "side_rep ?o (nodes c') (side_book ?o c) (g ?o)"
      using book_ghostD(1) [OF gh, of ?o] frame by (subst side_rep_cong [where h = "nodes c"]) auto
    then show "side_rep ?o (nodes c') (side_book ?o c') ((g(s := gs)) ?o)" by (simp add: sb)
  qed (use rep dj lk used in simp_all)
  have "abs_side (nodes c') (g ?o) = abs_side (nodes c) (g ?o)" using frame by (intro abs_side_cong) simp
  then show "abs_book c' (g(s := gs)) = set_queues s (abs_side (nodes c') gs) (abs_book c g)"
    by (intro book_eqI [of s]) simp_all
qed

lemma match_against_book:
  assumes gh: "book_ghost c g" and n: "0 \<le> add_quantity incoming" "add_quantity incoming \<le> int64_max"
    and sp: "spec_match_side s (add_order_id incoming) (add_price incoming) (queues s (abs_book c g))
      (add_quantity incoming) = (evs, m', q')"
  obtains c' g' where
    "match_against s c incoming 0 = Some (c', incoming\<lparr>add_quantity := q'\<rparr>, add_quantity incoming - q')"
    "book_ghost c' g'" "abs_book c' g' = set_queues s m' (abs_book c g)" "emitter c' = emitter c @ evs"
proof -
  let ?o = "opposite_of s"
  note rep = book_ghostD(1) [OF gh] and lk = book_ghostD(3) [OF gh]
  from match_against_refines [OF rep [of s], of incoming 0] n sp obtain c' ds gs where
    run: "match_against s c incoming 0 = Some (c', incoming\<lparr>add_quantity := q'\<rparr>, add_quantity incoming - q')"
    and ds: "side_addrs (g s) = ds @ side_addrs gs" and rep': "side_rep s (nodes c') (side_book s c') gs"
    and abs': "abs_side (nodes c') gs = m'" and fr: "match_frame c c' (side_addrs (g s)) ds evs"
    and sb: "side_book ?o c' = side_book ?o c"
    by (auto simp: side_matched_def)
  let ?g = "g(s := gs)"
  have frame: "\<And>a. a \<notin> set (side_addrs (g s)) \<Longrightarrow> nodes c' a = nodes c a"
    and ids: "\<And>a. node_order_id (nodes c' a) = node_order_id (nodes c a)"
    and lk': "lookup c' = (\<lambda>i. if i \<in> (\<lambda>a. node_order_id (nodes c a)) ` set ds then None else lookup c i)"
    using fr by (simp_all add: match_frame_def)
  have addrs: "book_addrs g = set ds \<union> book_addrs ?g"
    using ds by (auto simp: book_addrs_side [of _ s])
  have dj: "set ds \<inter> book_addrs ?g = {}"
    using book_ghostD(1,2) [OF gh, of s] ds by (auto simp: book_addrs_side [of _ s] side_rep_def)
  have "lookup c' i = Some a \<longleftrightarrow> a \<in> book_addrs ?g \<and> node_order_id (nodes c' a) = i" for i a
    using lk [of i a] book_ids_inj [OF gh] addrs dj by (auto simp: lk' ids inj_on_def)
  moreover have "a < next_node c'" if "a \<in> book_addrs ?g" for a
    using that book_ghostD(4) [OF gh] fr addrs by (auto simp: match_frame_def)
  moreover have "nodes c' b = nodes c b" if "b \<in> set (side_addrs (g ?o))" for b
    using that book_ghostD(2) [OF gh, of s] by (intro frame) blast
  moreover have "set (side_addrs gs) \<inter> set (side_addrs (g ?o)) = {}"
    using book_ghostD(2) [OF gh, of s] ds by auto
  ultimately have "book_ghost c' ?g" "abs_book c' ?g = set_queues s m' (abs_book c g)"
    using book_ghost_update_side [OF gh rep' sb] by (simp_all add: abs')
  moreover have "emitter c' = emitter c @ evs" using fr by (simp add: match_frame_def)
  ultimately show thesis using run that by blast
qed

text \<open>A store that agrees on the resting nodes represents the same book.\<close>

lemma book_ghost_frame:
  assumes gh: "book_ghost c g" and "\<And>a. a \<in> book_addrs g \<Longrightarrow> nodes c' a = nodes c a"
    and "lookup c' = lookup c" "\<And>t. side_book t c' = side_book t c" "next_node c \<le> next_node c'"
  shows "book_ghost c' g" "abs_book c' g = abs_book c g"
proof -
  have sub: "set (side_addrs (g t)) \<subseteq> book_addrs g" for t by (cases t) (auto simp: book_addrs_def)
  show "book_ghost c' g"
  proof (rule book_ghostI [of buy])
    have "side_rep t (nodes c') (side_book t c') (g t)" for t
      using book_ghostD(1) [OF gh, of t] sub [of t] assms(2) unfolding assms(4)
      by (subst side_rep_cong [where h = "nodes c"]) auto
    then show "side_rep buy (nodes c') (side_book buy c') (g buy)"
      and "side_rep (opposite_of buy) (nodes c') (side_book (opposite_of buy) c') (g (opposite_of buy))"
      by blast+
    show "lookup c' i = Some a \<longleftrightarrow> a \<in> book_addrs g \<and> node_order_id (nodes c' a) = i" for i a
      unfolding assms(3) book_ghostD(3) [OF gh] using assms(2) by auto
  qed (use book_ghostD(2) [OF gh, of buy] book_ghostD(4) [OF gh] assms(5) in \<open>auto dest: order.strict_trans2\<close>)
  have "abs_side (nodes c') (g t) = abs_side (nodes c) (g t)" for t
    using assms(2) sub [of t] by (intro abs_side_cong) (simp add: subsetD)
  then show "abs_book c' g = abs_book c g" by (simp add: abs_book_def)
qed

lemma rest_order_duplicate:
  assumes gh: "book_ghost c g" and dup: "add_order_id residual \<in> set (resting_ids (abs_book c g))"
  obtains c' where "rest_order s residual c = (False, c')" "book_ghost c' g"
    "abs_book c' g = abs_book c g" "emitter c' = emitter c"
proof -
  from dup have "lookup c (add_order_id residual) \<noteq> None" using lookup_resting_ids [OF gh] by blast
  then obtain c' where r: "rest_order s residual c = (False, c')"
    "\<And>a. a \<noteq> next_node c \<Longrightarrow> nodes c' a = nodes c a" "lookup c' = lookup c"
    "next_node c' = Suc (next_node c)" "emitter c' = emitter c" "\<And>t. side_book t c' = side_book t c"
    by (auto simp: rest_order_def allocate_resting_node_def Let_def)
  have "book_ghost c' g" "abs_book c' g = abs_book c g"
    by (rule book_ghost_frame [OF gh]; use r book_ghostD(4) [OF gh] in \<open>auto simp: less_le\<close>)+
  with r that show thesis by blast
qed

lemma rest_order_fresh:
  assumes gh: "book_ghost c g" and new: "add_order_id residual \<notin> set (resting_ids (abs_book c g))"
    and r: "add_side residual = s" "0 < add_quantity residual" "add_quantity residual \<le> int64_max"
  obtains c' g' where "rest_order s residual c = (True, c')" "book_ghost c' g'"
    "abs_book c' g' = set_queues s (enqueue_at s (add_price residual)
       (add_order_id residual, add_quantity residual) (queues s (abs_book c g))) (abs_book c g)"
    "emitter c' = emitter c"
proof -
  let ?i = "add_order_id residual" and ?p = "add_price residual" and ?a = "next_node c" and ?o = "opposite_of s"
  let ?n = "\<lparr>node_order_id = ?i, node_price = ?p, node_quantity = add_quantity residual, node_side = s,
    node_active = True, prev_same_price = None, next_same_price = None\<rparr>"
  let ?h = "(nodes c)(?a := ?n)"
  from new have lk: "lookup c ?i = None" using lookup_resting_ids [OF gh] by blast
  have fresh: "?a \<notin> book_addrs g" using book_ghostD(4) [OF gh] by blast
  then have out: "?a \<notin> set (side_addrs (g t))" for t by (cases t) (auto simp: book_addrs_def)
  have old: "side_rep t ?h (side_book t c) (g t)" for t
    using book_ghostD(1) [OF gh, of t] out [of t] by (subst side_rep_cong [where h = "nodes c"]) auto
  have good: "good_node s ?p (?h ?a)" using r by (simp add: good_node_def)
  obtain h' levels' where app: "append_order s ?a ?h (side_book s c) = (h', levels')" by fastforce
  note ap = append_order_rep [OF old out good app]
  let ?c' = "set_side_book s levels' (c\<lparr>nodes := h', next_node := Suc ?a, lookup := (lookup c)(?i \<mapsto> ?a)\<rparr>)"
  let ?g = "g(s := enqueue_at s ?p ?a (g s))"
  have run: "rest_order s residual c = (True, ?c')"
    using lk app r(1) by (cases s) (simp_all add: rest_order_def allocate_resting_node_def Let_def)
  have sorted: "sorted_wrt (resting_levels_compare s) (map fst (g s))"
    using old [of s] by (simp add: side_rep_def)
  have adrs: "set (side_addrs (?g s)) = insert ?a (set (side_addrs (g s)))"
    using side_addrs_enqueue_at(1) [OF sorted] by simp
  then have badrs: "book_addrs ?g = insert ?a (book_addrs g)" by (simp add: book_addrs_side [of _ s])
  have dj: "set (side_addrs (g s)) \<inter> set (side_addrs (g ?o)) = {}" by (rule book_ghostD(2) [OF gh])
  have ids: "node_order_id (h' b) = node_order_id (?h b)" for b
    using ap(2) [of b] by (simp add: same_order_fields)
  have oframe: "nodes ?c' b = nodes c b" if "b \<in> set (side_addrs (g ?o))" for b
    using that dj out [of ?o] ap(3) [of b] by auto
  have lk': "lookup ?c' i = Some b \<longleftrightarrow> b \<in> book_addrs ?g \<and> node_order_id (nodes ?c' b) = i" for i b
    using book_ghostD(3) [OF gh, of i b] fresh lk unfolding badrs by (auto simp: ids)
  have used: "b < next_node ?c'" if "b \<in> book_addrs ?g" for b
    using that book_ghostD(4) [OF gh] unfolding badrs by (auto simp: less_Suc_eq)
  have rep': "side_rep s (nodes ?c') (side_book s ?c') (enqueue_at s ?p ?a (g s))"
    and sb: "side_book ?o ?c' = side_book ?o c"
    and dj': "set (side_addrs (enqueue_at s ?p ?a (g s))) \<inter> set (side_addrs (g ?o)) = {}"
    using ap(1) adrs dj out [of ?o] by (cases s; simp)+
  note upd = book_ghost_update_side [OF gh rep' sb oframe dj' lk' used]
  have "abs_side ?h (g s) = abs_side (nodes c) (g s)" using out [of s] by (intro abs_side_cong) auto
  then have "abs_side (nodes ?c') (enqueue_at s ?p ?a (g s)) = enqueue_at s ?p (?i, add_quantity residual) (queues s (abs_book c g))"
    using abs_side_enqueue_at [where h = ?h and h' = h' and s = s and p = ?p and x = ?a and g = "g s", OF ap(2)]
    by (simp add: abs_order_def)
  with upd run that show thesis by simp
qed

lemma fillable_refines:
  assumes "list_all2 (level_rep s h) levels g"
  shows "fillable_from t limit need available levels = spec_fillable t limit need available (abs_side h g)"
  using assms
proof (induction arbitrary: available rule: list_all2_induct)
  case (Cons e levels e' g)
  obtain p level as where e: "e = (p, level)" "e' = (p, as)"
    using Cons.hyps(1) by (cases e; cases e') auto
  have "spec_total (map (\<lambda>a. abs_order (h a)) as) = queue_total h as"
    by (simp add: spec_total_def queue_total_def abs_order_def comp_def)
  with Cons e show ?case by (simp add: Let_def)
qed simp

lemma fillable_at_limit_refines:
  assumes "book_ghost c g"
  shows "fillable_at_limit s e c \<longleftrightarrow>
    \<not> spec_fillable (opposite_of s) (add_price e) (add_quantity e) 0 (queues (opposite_of s) (abs_book c g))
        < add_quantity e"
proof -
  let ?o = "opposite_of s"
  have "list_all2 (level_rep ?o (nodes c)) (side_book ?o c) (g ?o)"
    using book_ghostD(1) [OF assms, of ?o] by (simp add: side_rep_def)
  then show ?thesis
    by (simp add: fillable_at_limit_def fillable_quantity_def fillable_refines Let_def not_less)
qed

lemma abs_side_drop_absent:
  assumes "\<And>a. a \<in> set (side_addrs g) \<Longrightarrow> node_order_id (h a) \<noteq> i" "\<forall>(p, as) \<in> set g. as \<noteq> []"
  shows "drop_where (\<lambda>(j, q). j = i) (abs_side h g) = abs_side h g"
proof (rule drop_where_id)
  show "\<forall>(k, xs) \<in> set (abs_side h g). xs \<noteq> [] \<and> (\<forall>x \<in> set xs. \<not> (case x of (j, q) \<Rightarrow> j = i))"
    using assms by (fastforce simp: abs_side_def map_values_def abs_order_def side_addrs_def)
qed

lemma side_addrs_drop: "set (side_addrs (drop_where P g)) = {a \<in> set (side_addrs g). \<not> P a}"
proof (induction g)
  case (Cons e g)
  obtain p as where e: "e = (p, as)" by fastforce
  have "set (side_addrs (drop_where P (e # g))) = set (filter (\<lambda>a. \<not> P a) as) \<union> set (side_addrs (drop_where P g))"
    by (cases "filter (\<lambda>a. \<not> P a) as = []") (simp_all add: e)
  then show ?case using Cons.IH by (auto simp: e)
qed simp

lemma remove_order_sides:
  assumes gh: "book_ghost c g" and a: "a \<in> set (side_addrs (g s))" "node_order_id (nodes c a) = i"
    and same: "\<And>b. same_order (nodes c b) (h b)"
  shows "queues s (remove_order i (abs_book c g)) = abs_side h (drop_where ((=) a) (g s))"
    and "queues (opposite_of s) (remove_order i (abs_book c g)) = abs_side (nodes c) (g (opposite_of s))"
proof -
  let ?o = "opposite_of s"
  note inj = book_ids_inj [OF gh]
  have "inj_on (\<lambda>b. node_order_id (nodes c b)) (insert a (set (side_addrs (g s))))"
    by (rule inj_on_subset [OF inj]) (use a(1) in \<open>auto simp: book_addrs_side [of _ s]\<close>)
  from abs_side_drop [OF same this] a(2)
  show "queues s (remove_order i (abs_book c g)) = abs_side h (drop_where ((=) a) (g s))"
    by (simp add: queues_remove_order)
  have "a \<notin> set (side_addrs (g ?o))" using a(1) book_ghostD(2) [OF gh, of s] by auto
  then have "node_order_id (nodes c b) \<noteq> i" if "b \<in> set (side_addrs (g ?o))" for b
    using that a inj by (auto simp: inj_on_def book_addrs_side [of _ s])
  moreover have "\<forall>(p, as) \<in> set (g ?o). as \<noteq> []"
    using side_rep_nonempty [OF book_ghostD(1) [OF gh, of ?o]] by blast
  ultimately show "queues ?o (remove_order i (abs_book c g)) = abs_side (nodes c) (g ?o)"
    by (simp add: queues_remove_order abs_side_drop_absent)
qed

lemma cancel_resting_book:
  assumes gh: "book_ghost c g" and lk: "lookup c i = Some a"
  obtains c' g' where
    "cancel_resting (node_side (nodes c a)) a i (node_quantity (nodes c a)) c =
       emit (order_cancelled_event i 0 (node_quantity (nodes c a)) user_request) c'"
    "book_ghost c' g'" "abs_book c' g' = remove_order i (abs_book c g)" "emitter c' = emitter c"
    "node_active (nodes c a)"
proof -
  from lk have a: "a \<in> book_addrs g" "node_order_id (nodes c a) = i"
    by (simp_all add: book_ghostD(3) [OF gh])
  from a(1) obtain s p as where mem: "(p, as) \<in> set (g s)" "a \<in> set as"
    by (auto simp: book_addrs_def side_addrs_def)
  let ?o = "opposite_of s"
  note rep = book_ghostD(1) [OF gh, of s] and dj = book_ghostD(2) [OF gh, of s]
  have good: "good_node s p (nodes c a)" by (rule side_rep_good [OF rep mem])
  obtain h levels where det: "detach a (nodes c) (side_book s c) = (h, levels)" by fastforce
  note dt = detach_rep [OF rep mem det]
  let ?h = "h(a := (h a)\<lparr>node_active := False\<rparr>)" and ?gs = "drop_where ((=) a) (g s)"
  let ?c' = "set_side_book s levels (c\<lparr>nodes := ?h, lookup := (lookup c)(i := None)\<rparr>)"
  let ?g = "g(s := ?gs)"
  have as: "set as \<subseteq> set (side_addrs (g s))" using mem(1) by (auto simp: side_addrs_def)
  have adr: "set (side_addrs ?gs) = set (side_addrs (g s)) - {a}" by (auto simp: side_addrs_drop)
  have ain: "a \<in> set (side_addrs (g s))" "a \<notin> set (side_addrs (g ?o))" using mem(2) as dj by auto
  have badr: "book_addrs ?g = book_addrs g - {a}"
    using adr ain by (auto simp: book_addrs_side [of _ s])
  have ids: "node_order_id (h b) = node_order_id (nodes c b)" for b
    using dt(2) [of b] by (simp add: same_order_fields)
  have oframe: "nodes ?c' b = nodes c b" if "b \<in> set (side_addrs (g ?o))" for b
    using that dj as ain dt(3) [of b] by auto
  have "side_rep s ?h levels ?gs" using dt(1) adr by (subst side_rep_cong [where h = h]) auto
  then have rep': "side_rep s (nodes ?c') (side_book s ?c') ?gs" and sb: "side_book ?o ?c' = side_book ?o c"
    and dj': "set (side_addrs ?gs) \<inter> set (side_addrs (g ?o)) = {}" using adr dj by (cases s; auto)+
  have lk': "lookup ?c' j = Some b \<longleftrightarrow> b \<in> book_addrs ?g \<and> node_order_id (nodes ?c' b) = j" for j b
    using book_ghostD(3) [OF gh, of j b] book_ids_inj [OF gh] a unfolding badr by (auto simp: ids inj_on_def)
  have used: "b < next_node ?c'" if "b \<in> book_addrs ?g" for b
    using that book_ghostD(4) [OF gh] unfolding badr by simp
  note upd = book_ghost_update_side [OF gh rep' sb oframe dj' lk' used]
  have "abs_side ?h ?gs = abs_side h ?gs" using adr by (intro abs_side_cong) (auto simp: abs_order_def)
  then have "set_queues s (abs_side (nodes ?c') ?gs) (abs_book c g) = remove_order i (abs_book c g)"
    using remove_order_sides [OF gh ain(1) a(2), of h, OF dt(2)] by (intro book_eqI [of s]) simp_all
  with upd(2) have "abs_book ?c' ?g = remove_order i (abs_book c g)" by simp
  moreover have "cancel_resting (node_side (nodes c a)) a i (node_quantity (nodes c a)) c =
       emit (order_cancelled_event i 0 (node_quantity (nodes c a)) user_request) ?c'"
    using good det by (cases s; cases c) (simp_all add: cancel_resting_def Let_def good_node_def)
  ultimately show thesis using good upd(1) that by (simp add: good_node_def)
qed

section \<open>The handlers\<close>

lemma book_repI: "book_ghost c g \<Longrightarrow> b = abs_book c g \<Longrightarrow> book_rep c b"
  by (auto simp: book_rep_def)

text \<open>
  What a handler of the book promises on the abstract side: it returns, the new state
  represents the new abstract book, and the events appended to the emitter are the ones of
  the specification.
\<close>

definition step_refines :: "clob_t \<Rightarrow> clob_t option \<Rightarrow> output_event_t list \<times> book \<Rightarrow> bool" where
  "step_refines c r sp \<longleftrightarrow>
     (\<exists>c'. r = Some c' \<and> book_rep c' (snd sp) \<and> emitter c' = emitter c @ fst sp)"

lemma step_refinesI:
  "book_ghost c' g' \<Longrightarrow> b' = abs_book c' g' \<Longrightarrow> emitter c' = emitter c @ evs \<Longrightarrow>
   step_refines c (Some c') (evs, b')"
  by (auto simp: step_refines_def book_rep_def)

lemma emitter_emit [simp]: "emitter (emit ev c) = emitter c @ [ev]"
  by (simp add: emit_def)

lemma add_order_refines:
  assumes gh: "book_ghost c g" and s: "add_side e = s"
    and q: "0 < add_quantity e" "add_quantity e \<le> int64_max"
  shows "step_refines c (add_order s e c) (spec_add_order s e (abs_book c g))"
proof (cases "add_tif e = fok \<and> \<not> fillable_at_limit s e c")
  case True
  then show ?thesis
    using fillable_at_limit_refines [OF gh, of s e] gh
    by (auto simp: add_order_def spec_add_order_def Let_def intro!: step_refinesI)
next
  case False
  let ?o = "opposite_of s" and ?b = "abs_book c g" and ?i = "add_order_id e"
  obtain evs m r where sp: "spec_match_side ?o ?i (add_price e) (queues ?o ?b) (add_quantity e) = (evs, m, r)"
    by (cases "spec_match_side ?o ?i (add_price e) (queues ?o ?b) (add_quantity e)") auto
  have r: "0 \<le> r" "r \<le> add_quantity e"
    using spec_match_side_bounds [OF sp] q abs_book_positive [OF gh, of ?o] by simp_all
  from q have "0 \<le> add_quantity e" by simp
  from match_against_book [OF gh this q(2) sp] obtain c1 g1 where
    run: "match_against ?o c e 0 = Some (c1, e\<lparr>add_quantity := r\<rparr>, add_quantity e - r)"
    and c1: "book_ghost c1 g1" "abs_book c1 g1 = set_queues ?o m ?b" "emitter c1 = emitter c @ evs" .
  show ?thesis
  proof (cases "r = 0 \<or> add_tif e \<noteq> gtc")
    case True
    with False run c1 sp fillable_at_limit_refines [OF gh, of s e] show ?thesis
      by (auto simp: add_order_def spec_add_order_def Let_def intro!: step_refinesI)
  next
    case gtc: False
    show ?thesis
    proof (cases "?i \<in> set (resting_ids (abs_book c1 g1))")
      case True
      from rest_order_duplicate [OF c1(1), of "e\<lparr>add_quantity := r\<rparr>" s] True obtain c2 where
        "rest_order s (e\<lparr>add_quantity := r\<rparr>) c1 = (False, c2)" "book_ghost c2 g1"
        "abs_book c2 g1 = abs_book c1 g1" "emitter c2 = emitter c1" by auto
      with gtc run c1 sp True show ?thesis
        by (auto simp: add_order_def spec_add_order_def Let_def intro!: step_refinesI)
    next
      case False
      from rest_order_fresh [OF c1(1), of "e\<lparr>add_quantity := r\<rparr>" s] False s r q gtc obtain c2 g2 where
        "rest_order s (e\<lparr>add_quantity := r\<rparr>) c1 = (True, c2)" "book_ghost c2 g2"
        "abs_book c2 g2 = set_queues s (enqueue_at s (add_price e) (?i, r) (queues s (abs_book c1 g1))) (abs_book c1 g1)"
        "emitter c2 = emitter c1" by auto
      with gtc run c1 sp False show ?thesis
        by (auto simp: add_order_def spec_add_order_def Let_def intro!: step_refinesI)
    qed
  qed
qed

lemma on_add_order_refines:
  assumes "book_rep c b" "add_quantity e \<le> int64_max"
  shows "step_refines c (on_add_order e c) (spec_on_add e b)"
proof -
  from assms(1) obtain g where gh: "book_ghost c g" and b: "b = abs_book c g" by (auto simp: book_rep_def)
  show ?thesis
  proof (cases "0 < add_order_id e \<and> 0 < add_quantity e \<and> 0 < add_price e")
    case True
    then have "on_add_order e c = add_order (add_side e) e c" "spec_on_add e b = spec_add_order (add_side e) e b"
      by (cases "add_side e"; simp add: on_add_order_def spec_on_add_def)+
    with True assms(2) gh b show ?thesis by (auto intro!: add_order_refines)
  next
    case False
    with gh b show ?thesis by (auto simp: on_add_order_def spec_on_add_def not_less intro!: step_refinesI)
  qed
qed

lemma on_cancel_order_refines:
  assumes "book_rep c b"
  shows "step_refines c (Some (on_cancel_order e c)) (spec_on_cancel e b)"
proof -
  from assms obtain g where gh: "book_ghost c g" and b: "b = abs_book c g" by (auto simp: book_rep_def)
  let ?i = "cancel_order_id e"
  show ?thesis
  proof (cases "0 < ?i \<and> lookup c ?i \<noteq> None")
    case False
    with gh b lookup_find_resting [OF gh, of ?i] show ?thesis
      by (auto simp: on_cancel_order_def spec_on_cancel_def Let_def not_less intro!: step_refinesI)
  next
    case True
    then obtain a where lk: "lookup c ?i = Some a" by auto
    obtain c' g' where run: "cancel_resting (node_side (nodes c a)) a ?i (node_quantity (nodes c a)) c =
        emit (order_cancelled_event ?i 0 (node_quantity (nodes c a)) user_request) c'"
      and c': "book_ghost c' g'" "abs_book c' g' = remove_order ?i (abs_book c g)" "emitter c' = emitter c"
        "node_active (nodes c a)"
      by (rule cancel_resting_book [OF gh lk])
    have "on_cancel_order e c = emit (order_cancelled_event ?i 0 (node_quantity (nodes c a)) user_request) c'"
      using True lk c'(4) run by (cases "node_side (nodes c a)") (simp_all add: on_cancel_order_def)
    moreover have "spec_on_cancel e b =
        ([order_cancelled_event ?i 0 (node_quantity (nodes c a)) user_request], remove_order ?i b)"
      using True lk lookup_find_resting [OF gh, of ?i] by (simp add: spec_on_cancel_def b Let_def)
    ultimately show ?thesis using c' b by (auto intro!: step_refinesI)
  qed
qed

theorem clob_step_refines:
  assumes "book_rep c b" "input_event_int64 e"
  shows "step_refines c (clob_step c e) (spec_step b e)"
proof (cases e)
  case shutdown_in
  with assms show ?thesis by (simp add: step_refines_def)
qed (use assms on_add_order_refines on_cancel_order_refines in \<open>auto simp: int64_def\<close>)

interpretation book_sim: event_simulation clob_step spec_step clob_run spec_run book_rep emitter input_event_int64
  by unfold_locales (use clob_step_refines in \<open>auto simp: step_refines_def split: prod.splits\<close>)

lemma book_rep_init: "book_rep clob_init empty_book"
  by (rule book_repI [OF book_ghost_init]) (simp add: empty_book_def abs_book_def)

lemma clob_run_init:
  assumes "list_all input_event_int64 es"
  obtains c where "clob_run clob_init es = Some c" "book_rep c (snd (spec_run empty_book es))"
    "emitter c = fst (spec_run empty_book es)"
  using book_sim.run_simulates [OF book_rep_init assms] by (auto simp: clob_init_def)

text \<open>The prices of the ladders are those of the represented book, and so are the depths.\<close>

lemma book_rep_prices:
  assumes "book_rep c b"
  shows "map fst (side_book s c) = map fst (queues s b)"
proof -
  from assms obtain g where "book_ghost c g" "b = abs_book c g" by (auto simp: book_rep_def)
  with side_rep_keys [OF book_ghostD(1)] show ?thesis by (simp add: abs_side_def)
qed

lemma book_rep_depth:
  assumes "book_rep c b"
  shows "bid_depth c = length (bid_queues b)" "ask_depth c = length (ask_queues b)"
  using arg_cong [OF book_rep_prices [OF assms, of buy], of length]
    arg_cong [OF book_rep_prices [OF assms, of sell], of length]
  by (simp_all add: bid_depth_def ask_depth_def depth_def)

lemma book_rep_lookup:
  assumes "book_rep c b"
  shows "lookup c i \<noteq> None \<longleftrightarrow> i \<in> set (resting_ids b)"
  using assms lookup_resting_ids [of c _ i] by (auto simp: book_rep_def)

lemma book_rep_totals:
  assumes "book_rep c b" "(p, level) \<in> set (side_book s c)"
  shows "total_quantity level = wrap64 (spec_total (queue_at (queues s b) p))"
proof -
  from assms(1) obtain g where gh: "book_ghost c g" and b: "b = abs_book c g" by (auto simp: book_rep_def)
  note rep = book_ghostD(1) [OF gh, of s]
  have "level_at (side_book s c) p = level"
    using side_rep_distinct_keys(2) [OF rep] assms(2) by (rule map_of_at(2))
  moreover have "queue_at (queues s b) p = map (\<lambda>a. abs_order (nodes c a)) (queue_at (g s) p)"
    unfolding b by (auto simp: abs_side_def map_values_def queue_at_def map_of_map split: option.splits)
  ultimately show ?thesis using side_rep_at(3) [OF rep, of p]
    by (simp add: spec_total_def queue_total_def comp_def abs_order_def)
qed

end
