(* ===== verification/Clob_Correctness.thy ===== *)
theory Clob_Correctness
  imports Clob_Refinement
begin

text \<open>
  The correctness of the book \<^verbatim>\<open>clob_t\<close>, stated on its pointer-level model: it implements the
  abstract book, its invariant is kept by every event, matching follows price-time priority,
  quantity is conserved, and each time in force does what its name says.
\<close>

section \<open>States that represent a well-formed book\<close>

definition represents :: "clob_t \<Rightarrow> book \<Rightarrow> bool" where
  "represents c b \<longleftrightarrow> book_rep c b \<and> book_wf b"

lemma represents_init: "represents clob_init empty_book"
  by (simp add: represents_def book_rep_init book_wf_empty)

lemma clob_init_emitter: "emitter clob_init @ evs = evs"
  by (simp add: clob_init_def)

interpretation book_inv: event_simulation_inv clob_step spec_step clob_run spec_run book_rep emitter input_event_int64 book_wf
  by unfold_locales (use spec_step_wf in auto)

lemmas clob_step_represents = book_inv.with_inv.step_simulates [folded represents_def]
lemmas clob_run_represents = book_inv.with_inv.run_simulates [folded represents_def]
lemmas clob_run_reaches =
  book_inv.with_inv.run_reaches [folded represents_def, OF represents_init, simplified clob_init_emitter]

lemma valid_add_int64: "valid_add e \<Longrightarrow> add_quantity e \<le> int64_max"
  by (simp add: valid_add_def)

text \<open>A valid add order on the book: killed, or matched and closed by one terminal event.\<close>

lemma spec_on_add_wf:
  assumes "book_wf b" "valid_add e"
  shows "book_wf (snd (spec_on_add e b))"
  using spec_add_order_wf [OF assms(1), of e] assms(2) by (simp add: spec_on_add_def valid_add_def)

lemma on_add_order_represents:
  assumes "represents c b" "valid_add e"
  obtains c' where "on_add_order e c = Some c'" "represents c' (snd (spec_on_add e b))"
    "emitter c' = emitter c @ fst (spec_on_add e b)"
  using on_add_order_refines [of c b e] spec_on_add_wf [of b e] assms valid_add_int64 [OF assms(2)]
  by (auto simp: represents_def step_refines_def)

lemma on_cancel_order_represents:
  assumes "represents c b"
  shows "represents (on_cancel_order e c) (snd (spec_on_cancel e b))"
    "emitter (on_cancel_order e c) = emitter c @ fst (spec_on_cancel e b)"
  using on_cancel_order_refines [of c b e] assms remove_order_wf [of b]
  by (auto simp: represents_def step_refines_def spec_on_cancel_def Let_def split: option.splits)

section \<open>A sample book\<close>

text \<open>Three sells at two prices and one buy below them: the input of the witnesses.\<close>

abbreviation add_in :: "int \<Rightarrow> side_t \<Rightarrow> int \<Rightarrow> int \<Rightarrow> tif_t \<Rightarrow> add_order_event_t" where
  "add_in i s q p t \<equiv> \<lparr>add_order_id = i, add_side = s, add_quantity = q, add_price = p, add_tif = t\<rparr>"

definition sample_events :: "input_event_t list" where
  "sample_events =
     [add_order_in (add_in 1 sell 10 101 gtc), add_order_in (add_in 2 sell 5 101 gtc),
      add_order_in (add_in 3 sell 7 102 gtc), add_order_in (add_in 4 buy 3 100 gtc)]"

definition sample_book :: book where
  "sample_book = \<lparr>bid_queues = [(100, [(4, 3)])], ask_queues = [(101, [(1, 10), (2, 5)]), (102, [(3, 7)])]\<rparr>"

lemma sample_spec: "snd (spec_run empty_book sample_events) = sample_book"
  by code_simp

lemma sample_int64: "list_all input_event_int64 sample_events"
  by code_simp

lemma sample_represents: "\<exists>c. clob_run clob_init sample_events = Some c \<and> represents c sample_book"
  using clob_run_represents [OF represents_init sample_int64] unfolding sample_spec by blast

section \<open>The book implements its specification\<close>

text \<open>
  C1: for every sequence of input events in the range of the field types, the pointer-level
  book started empty processes all of them (no loop diverges and no assertion fails), emits
  exactly the events of the abstract book, and ends in a state that represents the abstract
  book, which is well formed.
\<close>

theorem book_implements_spec:
  assumes "list_all input_event_int64 es"
  shows "\<exists>c. clob_run clob_init es = Some c \<and> emitter c = fst (spec_run empty_book es) \<and>
    represents c (snd (spec_run empty_book es))"
  using clob_run_represents [OF represents_init assms] by (auto simp: clob_init_def)

theorem book_implements_spec_witness:
  "\<exists>c. clob_run clob_init sample_events = Some c \<and>
     emitter c = [order_resting_event 1 0 10, order_resting_event 2 0 5, order_resting_event 3 0 7,
       order_resting_event 4 0 3] \<and> represents c sample_book"
proof -
  have "fst (spec_run empty_book sample_events) = [order_resting_event 1 0 10, order_resting_event 2 0 5,
      order_resting_event 3 0 7, order_resting_event 4 0 3]" by code_simp
  with book_implements_spec [OF sample_int64] sample_spec show ?thesis by simp
qed

text \<open>
  C4: the invariant of the book (ladders sorted best first, levels non-empty doubly linked
  queues, cached totals, lookup exactly the resting orders, ids distinct and positive,
  quantities positive, sides not crossed) is kept by every event.
\<close>

theorem book_invariant_preserved:
  assumes "represents c b" "input_event_int64 e"
  shows "\<exists>c' b'. clob_step c e = Some c' \<and> represents c' b'"
  using clob_step_represents [OF assms] by blast

theorem book_invariant_preserved_witness:
  "\<exists>c' b'. clob_step clob_init (add_order_in (add_in 1 buy 5 100 gtc)) = Some c' \<and> represents c' b'"
  by (rule book_invariant_preserved [OF represents_init]) (simp add: int64_def)

text \<open>
  C5: after any sequence of input events, every resting bid price is below every resting ask
  price.
\<close>

theorem book_never_crossed:
  assumes "list_all input_event_int64 es" "clob_run clob_init es = Some c"
  shows "\<forall>bid \<in> fst ` set (bids c). \<forall>ask \<in> fst ` set (asks c). bid < ask"
proof -
  let ?b = "snd (spec_run empty_book es)"
  have r: "book_rep c ?b" "uncrossed ?b"
    using clob_run_reaches [OF assms] by (simp_all add: represents_def book_wf_def)
  have "fst ` set (bids c) = prices (bid_queues ?b)" "fst ` set (asks c) = prices (ask_queues ?b)"
    using arg_cong [OF book_rep_prices [OF r(1), of buy], of set]
      arg_cong [OF book_rep_prices [OF r(1), of sell], of set] by (simp_all add: prices_def)
  with r(2) show ?thesis by (simp add: uncrossed_def)
qed

theorem book_never_crossed_witness:
  "\<exists>c. clob_run clob_init sample_events = Some c \<and>
     (\<forall>bid \<in> fst ` set (bids c). \<forall>ask \<in> fst ` set (asks c). bid < ask)"
  using sample_represents book_never_crossed [OF sample_int64] by blast

section \<open>Matching\<close>

text \<open>
  C6: price-time priority. The trades of a valid add order that is not killed are the greedy
  allocation of its quantity to the opposite orders whose price crosses its limit, best price
  first and oldest first within a price.
\<close>

theorem add_price_time_priority:
  assumes "represents c b" "valid_add e" "\<not> killed e b"
  shows "\<exists>c' evs. on_add_order e c = Some c' \<and> emitter c' = emitter c @ evs \<and>
    trades_of evs = map (\<lambda>(r, t). (add_order_id e, r, t))
      (allocate (add_quantity e) (crossing_orders (add_side e) (add_price e) b))"
proof -
  have wf: "book_wf b" using assms(1) by (simp add: represents_def)
  obtain m where tr: "trades_of (match_reports e b) = map (\<lambda>(r, t). (add_order_id e, r, t))
      (allocate (add_quantity e) (crossing_orders (add_side e) (add_price e) b))"
    by (rule spec_match_add [OF wf assms(2)])
  have "trades_of [add_terminal e f d] = []" for f d
    by (simp add: add_terminal_def Let_def split: tif_t.split)
  with tr have "trades_of (fst (spec_on_add e b)) = map (\<lambda>(r, t). (add_order_id e, r, t))
      (allocate (add_quantity e) (crossing_orders (add_side e) (add_price e) b))"
    using spec_on_add_events [OF wf assms(2,3)] by auto
  then show ?thesis using on_add_order_represents [OF assms(1,2)] by metis
qed

theorem add_price_time_priority_witness:
  "\<exists>c. clob_run clob_init sample_events = Some c \<and>
     (\<exists>c' evs. on_add_order (add_in 9 buy 17 102 ioc) c = Some c' \<and> emitter c' = emitter c @ evs \<and>
        trades_of evs = [(9, 1, 10), (9, 2, 5), (9, 3, 2)])"
proof -
  let ?e = "add_in 9 buy 17 102 ioc"
  have a: "allocate (add_quantity ?e) (crossing_orders (add_side ?e) (add_price ?e) sample_book) =
      [(1, 10), (2, 5), (3, 2)]" by code_simp
  have "valid_add ?e" "\<not> killed ?e sample_book" by code_simp+
  from add_price_time_priority [OF _ this, unfolded a] sample_represents show ?thesis by fastforce
qed

text \<open>
  C16: every add order that passes validation ends with exactly one terminal event, which is
  its own and the last one it causes; before it stand, for every resting order it trades
  with, the trade and then the new state of that resting order.
\<close>

theorem add_reports_then_terminal:
  assumes "represents c b" "valid_add e"
  shows "\<exists>c' d. on_add_order e c = Some c' \<and>
    emitter c' = emitter c @
      (if killed e b then [order_cancelled_event (add_order_id e) 0 (add_quantity e) fill_or_kill]
       else match_reports e b @ [add_terminal e (fills_of e b) d]) \<and>
    out_order_id (last (emitter c')) = add_order_id e"
proof -
  have wf: "book_wf b" using assms(1) by (simp add: represents_def)
  have t: "out_order_id (add_terminal e f d) = add_order_id e" for f d
    by (simp add: add_terminal_def Let_def split: tif_t.split)
  obtain c' where c': "on_add_order e c = Some c'" "emitter c' = emitter c @ fst (spec_on_add e b)"
    by (rule on_add_order_represents [OF assms])
  show ?thesis
  proof (cases "killed e b")
    case True
    with c' spec_on_add_killed [OF assms(2)] show ?thesis by simp
  next
    case False
    then show ?thesis using c' t spec_on_add_events [OF wf assms(2)] by auto
  qed
qed

theorem add_reports_then_terminal_witness:
  "\<exists>c. clob_run clob_init sample_events = Some c \<and>
     (\<exists>c'. on_add_order (add_in 9 buy 12 101 gtc) c = Some c' \<and>
        emitter c' = emitter c @ [trade_event 9 1 10, order_filled_event 1 10,
          trade_event 9 2 2, order_resting_event 2 2 3, order_filled_event 9 12])"
proof -
  let ?e = "add_in 9 buy 12 101 gtc"
  have k: "\<not> killed ?e sample_book" and v: "valid_add ?e" by code_simp+
  have m: "match_reports ?e sample_book =
      [trade_event 9 1 10, order_filled_event 1 10, trade_event 9 2 2, order_resting_event 2 2 3]" by code_simp
  have t: "add_terminal ?e (fills_of ?e sample_book) d = order_filled_event 9 12" for d
  proof -
    have "fills_of ?e sample_book = 12" by code_simp
    then show ?thesis by (simp add: add_terminal_def)
  qed
  from add_reports_then_terminal [OF _ v, of _ sample_book] k m t sample_represents show ?thesis by fastforce
qed

text \<open>What an event accounts for of its order's quantity, and what a list of events traded.\<close>

fun accounted_quantity :: "output_event_t \<Rightarrow> quantity_t" where
  "accounted_quantity (order_resting_event i f r) = f + r"
| "accounted_quantity (order_filled_event i f) = f"
| "accounted_quantity (order_cancelled_event i f r cause) = f + r"
| "accounted_quantity _ = 0"

definition traded_quantity :: "output_event_t list \<Rightarrow> quantity_t" where
  "traded_quantity evs = sum_list (map (\<lambda>(i, r, q). q) (trades_of evs))"

lemma traded_quantity_reports:
  assumes wf: "book_wf b" and v: "valid_add e"
  shows "traded_quantity (match_reports e b) = fills_of e b"
proof -
  let ?xs = "crossing_orders (add_side e) (add_price e) b"
  obtain m where "trades_of (match_reports e b) =
      map (\<lambda>(r, t). (add_order_id e, r, t)) (allocate (add_quantity e) ?xs)"
    by (rule spec_match_add [OF wf v])
  moreover have "spec_total (allocate (add_quantity e) ?xs) = fills_of e b"
    using allocate_total [OF _ crossing_orders_positive [OF wf], of "add_quantity e"] v
    by (simp add: fills_of_def valid_add_def)
  moreover have "(\<lambda>(i, r, q). q) \<circ> Pair j = (snd :: resting_order \<Rightarrow> quantity_t)" for j :: order_id_t
    by (rule ext) auto
  ultimately show ?thesis by (simp add: traded_quantity_def spec_total_def)
qed

text \<open>
  C7: quantity is conserved. For every valid add order, killed ones included, the terminal event accounts for the whole
  quantity (filled plus resting or cancelled) and reports as filled the sum of the trades, in every case but one: the unfilled rest of a
  good-till-cancel order whose id is taken, which is rejected as a duplicate after the trades. In all cases the
  opposite side loses exactly what traded and the own side gains exactly what the terminal event says rests.
\<close>

theorem add_quantity_conserved:
  assumes "represents c b" "valid_add e"
  shows "\<exists>c' b' evs t. on_add_order e c = Some c' \<and> represents c' b' \<and> emitter c' = emitter c @ evs @ [t] \<and>
    (if duplicate_rest e b
     then t = order_rejected_event (add_order_id e) duplicate_order_id \<and> traded_quantity evs < add_quantity e
     else accounted_quantity t = add_quantity e \<and> out_filled_quantity t = traded_quantity evs) \<and>
    spec_total (side_orders (queues (opposite_of (add_side e)) b')) =
      spec_total (side_orders (queues (opposite_of (add_side e)) b)) - traded_quantity evs \<and>
    spec_total (side_orders (queues (add_side e) b')) = spec_total (side_orders (queues (add_side e) b)) + rested_quantity t"
proof -
  let ?o = "opposite_of (add_side e)" and ?xs = "crossing_orders (add_side e) (add_price e) b"
  have wf: "book_wf b" using assms(1) by (simp add: represents_def)
  obtain c' where c': "on_add_order e c = Some c'" "represents c' (snd (spec_on_add e b))"
    "emitter c' = emitter c @ fst (spec_on_add e b)" by (rule on_add_order_represents [OF assms])
  show ?thesis
  proof (cases "killed e b")
    case True
    then have "\<not> duplicate_rest e b" by (simp add: killed_def duplicate_rest_def)
    with c' spec_on_add_killed [OF assms(2) True] show ?thesis
      by (intro exI [of _ c'] exI [of _ b] exI [of _ "[]"] exI [of _ "order_cancelled_event (add_order_id e) 0 (add_quantity e) fill_or_kill"])
        (simp add: traded_quantity_def)
  next
    case False
    let ?t = "add_terminal e (fills_of e b) (duplicate_rest e b)"
    obtain b' where b': "spec_on_add e b = (match_reports e b @ [?t], b')"
      "side_orders (queues ?o b') = deplete (add_quantity e) ?xs @ side_orders (other_levels ?o (add_price e) (queues ?o b))"
      "spec_total (side_orders (queues (add_side e) b')) = spec_total (side_orders (queues (add_side e) b)) + rested_quantity ?t"
      by (rule spec_on_add_result [OF wf assms(2) False])
    note tq = traded_quantity_reports [OF wf assms(2)]
    have "spec_total (deplete (add_quantity e) ?xs) = spec_total ?xs - fills_of e b"
      using deplete_total [OF _ crossing_orders_positive [OF wf], of "add_quantity e"] assms(2)
      by (simp add: fills_of_def valid_add_def)
    then have "spec_total (side_orders (queues ?o b')) = spec_total (side_orders (queues ?o b)) - traded_quantity (match_reports e b)"
      using b'(2) crossing_orders_split [of "add_side e" b "add_price e"] tq by simp
    moreover have "if duplicate_rest e b
      then ?t = order_rejected_event (add_order_id e) duplicate_order_id \<and> fills_of e b < add_quantity e
      else accounted_quantity ?t = add_quantity e \<and> out_filled_quantity ?t = fills_of e b"
      by (auto simp: add_terminal_def Let_def duplicate_rest_def split: tif_t.split)
    ultimately show ?thesis using c' b'(1,3) tq
      by (intro exI [of _ c'] exI [of _ b'] exI [of _ "match_reports e b"] exI [of _ ?t])
        (cases "duplicate_rest e b"; simp)
  qed
qed

theorem add_quantity_conserved_witness:
  "\<exists>c. clob_run clob_init sample_events = Some c \<and>
     (\<exists>c' b' evs t. on_add_order (add_in 9 buy 30 102 gtc) c = Some c' \<and> represents c' b' \<and>
        emitter c' = emitter c @ evs @ [t] \<and> accounted_quantity t = 30 \<and>
        spec_total (side_orders (ask_queues b')) = 22 - traded_quantity evs)"
proof -
  let ?e = "add_in 9 buy 30 102 gtc"
  have "valid_add ?e" "\<not> duplicate_rest ?e sample_book" "spec_total (side_orders (ask_queues sample_book)) = 22"
    by code_simp+
  with add_quantity_conserved [OF _ this(1)] sample_represents show ?thesis by fastforce
qed

section \<open>Time in force\<close>

text \<open>
  C8: a fill-or-kill order is all or nothing, whatever the 64-bit sums of the probe do: it
  either is cancelled in full, with no trade and the same book, or is filled in full.
\<close>

theorem fok_all_or_nothing:
  assumes "represents c b" "valid_add e" "add_tif e = fok"
  shows "\<exists>c'. on_add_order e c = Some c' \<and>
    (represents c' b \<and>
       emitter c' = emitter c @ [order_cancelled_event (add_order_id e) 0 (add_quantity e) fill_or_kill] \<or>
     emitter c' = emitter c @ match_reports e b @ [order_filled_event (add_order_id e) (add_quantity e)] \<and>
       traded_quantity (match_reports e b) = add_quantity e)"
proof -
  have wf: "book_wf b" using assms(1) by (simp add: represents_def)
  obtain c' where c': "on_add_order e c = Some c'" "represents c' (snd (spec_on_add e b))"
    "emitter c' = emitter c @ fst (spec_on_add e b)" by (rule on_add_order_represents [OF assms(1,2)])
  show ?thesis
  proof (cases "killed e b")
    case True
    with c' spec_on_add_killed [OF assms(2)] show ?thesis by simp
  next
    case False
    note full = fok_fills [OF wf assms(2,3) False]
    then have "fst (spec_on_add e b) = match_reports e b @ [order_filled_event (add_order_id e) (add_quantity e)]"
      using spec_on_add_events [OF wf assms(2) False] by (auto simp: add_terminal_def)
    with c' full traded_quantity_reports [OF wf assms(2)] show ?thesis by simp
  qed
qed

theorem fok_all_or_nothing_witness:
  "\<exists>c. clob_run clob_init sample_events = Some c \<and>
     (\<exists>c'. on_add_order (add_in 9 buy 23 102 fok) c = Some c' \<and>
        emitter c' = emitter c @ [order_cancelled_event 9 0 23 fill_or_kill])"
proof -
  let ?e = "add_in 9 buy 23 102 fok"
  have v: "valid_add ?e" "add_tif ?e = fok" "traded_quantity (match_reports ?e sample_book) \<noteq> add_quantity ?e"
    by code_simp+
  then show ?thesis using fok_all_or_nothing [OF _ v(1,2), of _ sample_book] sample_represents by fastforce
qed

text \<open>
  C17: as long as the quantity resting at the prices a fill-or-kill order crosses fits in 64
  bits, the order is filled exactly when that quantity is enough, and killed otherwise.
\<close>

theorem fok_filled_iff_enough:
  assumes "represents c b" "valid_add e" "add_tif e = fok"
    and "spec_total (crossing_orders (add_side e) (add_price e) b) \<le> int64_max"
  shows "\<exists>c'. on_add_order e c = Some c' \<and>
    last (emitter c') =
      (if add_quantity e \<le> spec_total (crossing_orders (add_side e) (add_price e) b)
       then order_filled_event (add_order_id e) (add_quantity e)
       else order_cancelled_event (add_order_id e) 0 (add_quantity e) fill_or_kill)"
proof -
  have wf: "book_wf b" using assms(1) by (simp add: represents_def)
  obtain c' where c': "on_add_order e c = Some c'" "emitter c' = emitter c @ fst (spec_on_add e b)"
    by (rule on_add_order_represents [OF assms(1,2)])
  note k = killed_iff [OF wf assms(2,4)]
  show ?thesis
  proof (cases "killed e b")
    case True
    with c' k spec_on_add_killed [OF assms(2)] show ?thesis by simp
  next
    case False
    then have "last (fst (spec_on_add e b)) = order_filled_event (add_order_id e) (add_quantity e)
        \<and> fst (spec_on_add e b) \<noteq> []"
      using fok_fills [OF wf assms(2,3)] spec_on_add_events [OF wf assms(2)] by (auto simp: add_terminal_def)
    with c' k False assms(3) show ?thesis by simp
  qed
qed

theorem fok_filled_iff_enough_witness:
  "\<exists>c. clob_run clob_init sample_events = Some c \<and>
     (\<exists>c'. on_add_order (add_in 9 buy 22 102 fok) c = Some c' \<and> last (emitter c') = order_filled_event 9 22)"
proof -
  let ?e = "add_in 9 buy 22 102 fok"
  have v: "valid_add ?e" "add_tif ?e = fok"
    "spec_total (crossing_orders (add_side ?e) (add_price ?e) sample_book) \<le> int64_max"
    "add_quantity ?e \<le> spec_total (crossing_orders (add_side ?e) (add_price ?e) sample_book)"
    by code_simp+
  then show ?thesis using fok_filled_iff_enough [OF _ v(1-3)] sample_represents by fastforce
qed

text \<open>
  C18: an immediate-or-cancel or fill-or-kill order never rests: the orders of its own side
  are untouched, the opposite side only loses orders from the front of its queues, and so
  no id is in the book after it that was not before.
\<close>

theorem ioc_fok_never_rest:
  assumes "represents c b" "valid_add e" "add_tif e \<noteq> gtc"
  shows "\<exists>c' b'. on_add_order e c = Some c' \<and> represents c' b' \<and>
    queues (add_side e) b' = queues (add_side e) b \<and>
    (\<forall>i. lookup c' i \<noteq> None \<longrightarrow> lookup c i \<noteq> None)"
proof -
  let ?o = "opposite_of (add_side e)" and ?xs = "crossing_orders (add_side e) (add_price e) b"
  have wf: "book_wf b" using assms(1) by (simp add: represents_def)
  obtain c' where c': "on_add_order e c = Some c'" "represents c' (snd (spec_on_add e b))"
    by (rule on_add_order_represents [OF assms(1,2)])
  have "queues (add_side e) (snd (spec_on_add e b)) = queues (add_side e) b \<and>
      set (resting_ids (snd (spec_on_add e b))) \<subseteq> set (resting_ids b)"
  proof (cases "killed e b")
    case True
    with spec_on_add_killed [OF assms(2)] show ?thesis by simp
  next
    case False
    obtain b1 where "snd (spec_on_add e b) = b1" "queues (add_side e) b1 = queues (add_side e) b"
      "side_orders (queues ?o b1) = deplete (add_quantity e) ?xs @
         side_orders (other_levels ?o (add_price e) (queues ?o b))"
      by (rule spec_on_add_closed [OF wf assms(2) False]) (use assms(3) in \<open>simp add: rests_def\<close>)
    with matched_ids show ?thesis by blast
  qed
  with c' assms(1) book_rep_lookup show ?thesis unfolding represents_def by blast
qed

theorem ioc_fok_never_rest_witness:
  "\<exists>c. clob_run clob_init sample_events = Some c \<and>
     (\<exists>c' b'. on_add_order (add_in 9 buy 50 102 ioc) c = Some c' \<and> represents c' b' \<and>
        bid_queues b' = [(100, [(4, 3)])])"
proof -
  let ?e = "add_in 9 buy 50 102 ioc"
  have "valid_add ?e" "add_tif ?e \<noteq> gtc" by code_simp+
  from ioc_fok_never_rest [OF _ this, of _ sample_book] sample_represents show ?thesis
    by (fastforce simp: sample_book_def)
qed

text \<open>
  C19: the rest of a good-till-cancel order that is not a duplicate is queued at its own limit
  price, behind every order already resting there; the other prices of its side keep their
  queues.
\<close>

theorem gtc_residue_rests_last:
  assumes "represents c b" "valid_add e" "add_tif e = gtc" "fills_of e b < add_quantity e"
    and "add_order_id e \<notin> set (resting_ids b)"
  shows "\<exists>c' b'. on_add_order e c = Some c' \<and> represents c' b' \<and>
    last (emitter c') = order_resting_event (add_order_id e) (fills_of e b) (add_quantity e - fills_of e b) \<and>
    queue_at (queues (add_side e) b') (add_price e) =
      queue_at (queues (add_side e) b) (add_price e) @ [(add_order_id e, add_quantity e - fills_of e b)] \<and>
    (\<forall>p. p \<noteq> add_price e \<longrightarrow> queue_at (queues (add_side e) b') p = queue_at (queues (add_side e) b) p)"
proof -
  let ?s = "add_side e" and ?o = "opposite_of (add_side e)" and ?r = "add_quantity e - fills_of e b"
  let ?xs = "crossing_orders ?s (add_price e) b"
  have wf: "book_wf b" using assms(1) by (simp add: represents_def)
  have k: "\<not> killed e b" using assms(3) by (simp add: killed_def)
  obtain c' where c': "on_add_order e c = Some c'" "represents c' (snd (spec_on_add e b))"
    "emitter c' = emitter c @ fst (spec_on_add e b)" by (rule on_add_order_represents [OF assms(1,2)])
  obtain b1 where b1: "spec_on_add e b =
       (match_reports e b @ [add_terminal e (fills_of e b) (add_order_id e \<in> set (resting_ids b1))],
        if rests e b b1 then set_queues ?s (enqueue_at ?s (add_price e) (add_order_id e, ?r) (queues ?s b1)) b1
        else b1)" "queues ?s b1 = queues ?s b"
    "side_orders (queues ?o b1) = deplete (add_quantity e) ?xs @
       side_orders (other_levels ?o (add_price e) (queues ?o b))"
    by (rule spec_on_add_closed [OF wf assms(2) k])
  have new: "add_order_id e \<notin> set (resting_ids b1)" using matched_ids [OF b1(2,3)] assms(5) by blast
  have sorted: "sorted_wrt (resting_levels_compare ?s) (map fst (queues ?s b))"
    by (rule side_wf_sorted [OF book_wf_queues [OF wf]])
  have "queues ?s (snd (spec_on_add e b)) = enqueue_at ?s (add_price e) (add_order_id e, ?r) (queues ?s b)"
    using b1 new assms(3,4) by (simp add: rests_def)
  moreover have "last (fst (spec_on_add e b)) = order_resting_event (add_order_id e) (fills_of e b) ?r"
    using b1(1) new assms(3,4) by (simp add: add_terminal_def Let_def)
  moreover have "fst (spec_on_add e b) \<noteq> []" using b1(1) by simp
  ultimately show ?thesis using c' queue_at_enqueue [OF sorted]
    by (intro exI [of _ c'] exI [of _ "snd (spec_on_add e b)"]) simp
qed

theorem gtc_residue_rests_last_witness:
  "\<exists>c. clob_run clob_init sample_events = Some c \<and>
     (\<exists>c' b'. on_add_order (add_in 9 sell 8 100 gtc) c = Some c' \<and> represents c' b' \<and>
        queue_at (ask_queues b') 100 = [(9, 5)] \<and> queue_at (ask_queues b') 101 = [(1, 10), (2, 5)])"
proof -
  let ?e = "add_in 9 sell 8 100 gtc"
  have v: "valid_add ?e" "add_tif ?e = gtc" "fills_of ?e sample_book < add_quantity ?e"
    "add_order_id ?e \<notin> set (resting_ids sample_book)" by code_simp+
  have q: "fills_of ?e sample_book = 3" "queue_at (ask_queues sample_book) 100 = []"
    "queue_at (ask_queues sample_book) 101 = [(1, 10), (2, 5)]" by code_simp+
  obtain c where c: "clob_run clob_init sample_events = Some c" "represents c sample_book"
    using sample_represents by blast
  from gtc_residue_rests_last [OF c(2) v] obtain c' b' where
    "on_add_order ?e c = Some c'" "represents c' b'" "queue_at (ask_queues b') 100 = [(9, 5)]"
    "\<And>p. p \<noteq> 100 \<Longrightarrow> queue_at (ask_queues b') p = queue_at (ask_queues sample_book) p"
    by (auto simp: q)
  with c(1) q show ?thesis by auto
qed

section \<open>Cancelling and rejecting\<close>

text \<open>
  C20: cancelling a resting order reports its whole remaining quantity with cause
  user request and removes that order and nothing else: every queue keeps its other orders
  in their order, and the id is unknown afterwards.
\<close>

theorem cancel_removes_exactly:
  assumes "represents c b" "0 < cancel_order_id e" "find_resting (cancel_order_id e) b = Some q"
  shows "emitter (on_cancel_order e c) = emitter c @ [order_cancelled_event (cancel_order_id e) 0 q user_request] \<and>
    (\<exists>b'. represents (on_cancel_order e c) b' \<and>
       (\<forall>s p. queue_at (queues s b') p = filter (\<lambda>x. fst x \<noteq> cancel_order_id e) (queue_at (queues s b) p))) \<and>
    lookup (on_cancel_order e c) (cancel_order_id e) = None"
proof -
  let ?i = "cancel_order_id e"
  have sp: "spec_on_cancel e b = ([order_cancelled_event ?i 0 q user_request], remove_order ?i b)"
    using assms(2,3) by (simp add: spec_on_cancel_def Let_def)
  note r = on_cancel_order_represents [OF assms(1), of e, unfolded sp]
  have d: "distinct (map fst (queues s b))" for s
    using assms(1) resting.keys_distinct side_wf_sorted book_wf_queues unfolding represents_def by blast
  have "?i \<notin> set (resting_ids (remove_order ?i b))"
    by (auto simp: resting_ids_def remove_order_def side_orders_drop)
  then have "lookup (on_cancel_order e c) ?i = None"
    using book_rep_lookup [of "on_cancel_order e c"] r(1) unfolding represents_def snd_conv by blast
  moreover have "queue_at (queues s (remove_order ?i b)) p = filter (\<lambda>x. fst x \<noteq> ?i) (queue_at (queues s b) p)" for s p
    using queue_at_drop [OF d] by (simp add: queues_remove_order case_prod_beta)
  ultimately show ?thesis using r by auto
qed

theorem cancel_removes_exactly_witness:
  "\<exists>c. clob_run clob_init sample_events = Some c \<and>
     emitter (on_cancel_order \<lparr>cancel_order_id = 2\<rparr> c) = emitter c @ [order_cancelled_event 2 0 5 user_request] \<and>
     lookup (on_cancel_order \<lparr>cancel_order_id = 2\<rparr> c) 2 = None"
proof -
  have "find_resting (cancel_order_id \<lparr>cancel_order_id = 2\<rparr>) sample_book = Some 5" by code_simp
  with cancel_removes_exactly [of _ sample_book "\<lparr>cancel_order_id = 2\<rparr>" 5] sample_represents show ?thesis by auto
qed

text \<open>
  A cancel for an id that is not resting, in particular a second cancel of the same
  order or a cancel after its full fill, is rejected as unknown and changes nothing; whether
  an id is resting is what the book itself says through its lookup.
\<close>

lemma cancel_unknown_rejected:
  assumes "represents c b" "0 < cancel_order_id e" "cancel_order_id e \<notin> set (resting_ids b)"
  shows "on_cancel_order e c = emit (order_rejected_event (cancel_order_id e) unknown_order_id) c"
proof -
  have "lookup c (cancel_order_id e) = None"
    using assms book_rep_lookup [of c b] unfolding represents_def by blast
  with assms(2) show ?thesis by (simp add: on_cancel_order_def)
qed

text \<open>
  Why an add order is rejected: an id, quantity or price that is not positive, looked at in this order, or
  an unfilled rest whose id is taken.
\<close>

definition reject_reason :: "add_order_event_t \<Rightarrow> book \<Rightarrow> reject_code_t option" where
  "reject_reason e b =
     (if add_order_id e \<le> 0 then Some invalid_order_id
      else if add_quantity e \<le> 0 then Some invalid_quantity
      else if add_price e \<le> 0 then Some invalid_price
      else if duplicate_rest e b then Some duplicate_order_id
      else None)"

lemma spec_on_add_rejections:
  assumes "book_wf b" "valid_add e"
  shows "order_rejected_event i code \<in> set (fst (spec_on_add e b)) \<longleftrightarrow> i = add_order_id e \<and> reject_reason e b = Some code"
    "duplicate_rest e b \<Longrightarrow> queues (add_side e) (snd (spec_on_add e b)) = queues (add_side e) b"
proof -
  have v: "reject_reason e b = (if duplicate_rest e b then Some duplicate_order_id else None)"
    using assms(2) by (simp add: reject_reason_def valid_add_def)
  have "(order_rejected_event i code \<in> set (fst (spec_on_add e b)) \<longleftrightarrow> i = add_order_id e \<and> reject_reason e b = Some code) \<and>
    (duplicate_rest e b \<longrightarrow> queues (add_side e) (snd (spec_on_add e b)) = queues (add_side e) b)"
  proof (cases "killed e b")
    case True
    then show ?thesis by (simp add: v spec_on_add_killed [OF assms(2)] killed_def duplicate_rest_def)
  next
    case False
    then obtain b' where
      "spec_on_add e b = (match_reports e b @ [add_terminal e (fills_of e b) (duplicate_rest e b)], b')"
      "duplicate_rest e b \<Longrightarrow> queues (add_side e) b' = queues (add_side e) b"
      using spec_on_add_result [OF assms] by metis
    then show ?thesis using match_reports_no_reject
      by (auto simp: v add_terminal_def Let_def duplicate_rest_def split: tif_t.splits if_splits)
  qed
  then show "order_rejected_event i code \<in> set (fst (spec_on_add e b)) \<longleftrightarrow> i = add_order_id e \<and> reject_reason e b = Some code"
    "duplicate_rest e b \<Longrightarrow> queues (add_side e) (snd (spec_on_add e b)) = queues (add_side e) b" by blast+
qed

text \<open>
  C21: exactly which add orders are rejected, and what a rejection leaves behind. An add order of any int64 fields
  reports a rejection if and only if there is a reason for it, under its own id and with the code of that reason;
  without a valid id, quantity and price nothing else is reported and the book stays as it is, and after a duplicate
  its own side is what it was, with nothing queued for it.
\<close>

theorem add_rejections_exact:
  assumes "represents c b" "input_event_int64 (add_order_in e)"
  shows "\<exists>c' b' evs. on_add_order e c = Some c' \<and> represents c' b' \<and> emitter c' = emitter c @ evs \<and>
    (\<forall>i code. order_rejected_event i code \<in> set evs \<longleftrightarrow> i = add_order_id e \<and> reject_reason e b = Some code) \<and>
    (\<not> valid_add e \<longrightarrow> length evs = 1 \<and> b' = b) \<and>
    (reject_reason e b \<noteq> None \<longrightarrow> queues (add_side e) b' = queues (add_side e) b)"
proof -
  have wf: "book_wf b" using assms(1) by (simp add: represents_def)
  obtain c' where c': "on_add_order e c = Some c'" "represents c' (snd (spec_on_add e b))"
    "emitter c' = emitter c @ fst (spec_on_add e b)" using clob_step_represents [OF assms] by auto
  show ?thesis
  proof (cases "valid_add e")
    case True
    then have "reject_reason e b \<noteq> None \<longleftrightarrow> duplicate_rest e b" by (simp add: reject_reason_def valid_add_def)
    with True c' spec_on_add_rejections [OF wf True] show ?thesis
      by (intro exI [of _ c'] exI [of _ "snd (spec_on_add e b)"] exI [of _ "fst (spec_on_add e b)"]) auto
  next
    case False
    then have "add_order_id e \<le> 0 \<or> add_quantity e \<le> 0 \<or> add_price e \<le> 0"
      using assms(2) by (auto simp: valid_add_def int64_def)
    then have "spec_on_add e b = ([order_rejected_event (add_order_id e) (the (reject_reason e b))], b)" "reject_reason e b \<noteq> None"
      by (auto simp: spec_on_add_def reject_reason_def)
    with c' show ?thesis by (intro exI [of _ c'] exI [of _ b] exI [of _ "fst (spec_on_add e b)"]) auto
  qed
qed

theorem add_rejections_exact_witness:
  "\<exists>c. clob_run clob_init sample_events = Some c \<and>
     (\<exists>c' evs. on_add_order (add_in 4 buy 30 101 gtc) c = Some c' \<and> emitter c' = emitter c @ evs \<and>
        order_rejected_event 4 duplicate_order_id \<in> set evs)"
proof -
  let ?e = "add_in 4 buy 30 101 gtc"
  have "input_event_int64 (add_order_in ?e)" "reject_reason ?e sample_book = Some duplicate_order_id" by code_simp+
  with add_rejections_exact [OF _ this(1)] sample_represents show ?thesis by fastforce
qed

text \<open>
  C22: the cached quantity of every price level is the sum of the quantities queued there,
  modulo the wrap-around of its 64 bits, and the lookup finds exactly the resting orders.
\<close>

theorem level_totals_and_lookup:
  assumes "list_all input_event_int64 es" "clob_run clob_init es = Some c"
  shows "\<exists>b. represents c b \<and>
    (\<forall>s. \<forall>(p, level) \<in> set (side_book s c).
       total_quantity level = wrap64 (spec_total (queue_at (queues s b) p))) \<and>
    (\<forall>i. lookup c i \<noteq> None \<longleftrightarrow> i \<in> set (resting_ids b))"
proof -
  let ?b = "snd (spec_run empty_book es)"
  have r: "represents c ?b" using clob_run_reaches [OF assms] by simp
  then have "book_rep c ?b" by (simp add: represents_def)
  with r book_rep_totals book_rep_lookup show ?thesis by (intro exI [of _ ?b]) blast
qed

theorem level_totals_and_lookup_witness:
  "\<exists>c. clob_run clob_init sample_events = Some c \<and>
     (\<exists>b. represents c b \<and> (\<forall>s. \<forall>(p, level) \<in> set (side_book s c).
        total_quantity level = wrap64 (spec_total (queue_at (queues s b) p))))"
  using sample_represents level_totals_and_lookup [OF sample_int64] by blast

section \<open>Two surprising runs\<close>

text \<open>
  The 64-bit total of a price level can overflow. With two resting sells of the largest
  quantity at one price, a fill-or-kill buy of a single unit at that price is killed although
  either of them could fill it.
\<close>

lemma fok_killed_by_overflow:
  "map_option emitter (clob_run clob_init
     [add_order_in (add_in 1 sell int64_max 100 gtc), add_order_in (add_in 2 sell int64_max 100 gtc),
      add_order_in (add_in 3 buy 1 100 fok)]) =
   Some [order_resting_event 1 0 int64_max, order_resting_event 2 0 int64_max,
     order_cancelled_event 3 0 1 fill_or_kill]"
  by code_simp

text \<open>
  The duplicate-id check comes after matching. An add order whose id is already resting
  trades first, and only its unfilled rest is rejected as a duplicate: the book has changed
  although the order is reported as rejected.
\<close>

lemma duplicate_trades_before_reject:
  "map_option (\<lambda>c. (emitter c, ask_depth c)) (clob_run clob_init
     [add_order_in (add_in 1 buy 5 100 gtc), add_order_in (add_in 2 sell 5 110 gtc),
      add_order_in (add_in 1 buy 10 110 gtc)]) =
   Some ([order_resting_event 1 0 5, order_resting_event 2 0 5,
     trade_event 1 2 5, order_filled_event 2 5, order_rejected_event 1 duplicate_order_id], 0)"
  by code_simp

end
