(* ===== verification/Wire_Text.thy ===== *)
theory Wire_Text
  imports Messages
begin

text \<open>
  Text of the wire: the whitespace and comma handling of \<^verbatim>\<open>input_parser.hpp\<close>, decimal integers
  as \<^verbatim>\<open>std::print\<close> writes and \<^verbatim>\<open>std::from_chars\<close> reads them, and the contract of a field codec:
  a token that the parser's field cursor returns whole and that decodes to what was encoded.
\<close>

section \<open>Fields\<close>

definition is_ws :: "char \<Rightarrow> bool" where
  "is_ws c \<longleftrightarrow> c = CHR '' '' \<or> c = CHR 0x09 \<or> c = CHR 0x0D \<or> c = CHR 0x0A"

text \<open>\<^verbatim>\<open>trim\<close>: the two loops drop white space from the front and then from the back.\<close>

definition trim :: "string \<Rightarrow> string" where
  "trim sv = rev (dropWhile is_ws (rev (dropWhile is_ws sv)))"

text \<open>\<^verbatim>\<open>next_field\<close>: the trimmed field and the advanced cursor.\<close>

definition next_field :: "string \<Rightarrow> string \<times> string" where
  "next_field cursor =
     (let field = takeWhile (\<lambda>c. c \<noteq> CHR '','') cursor;
          rest = dropWhile (\<lambda>c. c \<noteq> CHR '','') cursor
      in (trim field, case rest of [] \<Rightarrow> [] | _ # r \<Rightarrow> r))"

lemma trim_Nil [simp]: "trim [] = []"
  by (simp add: trim_def)

lemma trim_pad: "list_all is_ws pre \<Longrightarrow> trim (pre @ s) = trim s"
  by (simp add: trim_def span_all)

lemma trim_pad_end: "list_all is_ws post \<Longrightarrow> trim (s @ post) = trim s"
proof (cases "list_all is_ws s")
  case True
  assume "list_all is_ws post"
  with True show ?thesis by (simp add: trim_def span_all)
next
  case False
  assume "list_all is_ws post"
  with False show ?thesis by (simp add: trim_def span_all dropWhile_append_some)
qed

lemma trim_id: "s = [] \<or> \<not> is_ws (hd s) \<and> \<not> is_ws (last s) \<Longrightarrow> trim s = s"
  by (cases "s = []") (simp_all add: trim_def dropWhile_hd hd_rev)

lemma trim_ends: "trim s = [] \<or> \<not> is_ws (hd (trim s)) \<and> \<not> is_ws (last (trim s))"
proof -
  let ?d = "dropWhile is_ws s"
  have last: "t = [] \<or> \<not> is_ws (last t)" if "t = rev (dropWhile is_ws (rev x))" for t x
    using that hd_dropWhile [of is_ws "rev x"] by (auto simp: last_rev)
  show ?thesis
  proof (cases "trim s = []")
    case False
    obtain ys where d: "?d = trim s @ ys"
      unfolding trim_def by (metis rev_append rev_rev_ident takeWhile_dropWhile_id)
    then have "hd (trim s) = hd ?d" "?d \<noteq> []" using False by (auto simp: hd_append)
    then have "\<not> is_ws (hd (trim s))" using hd_dropWhile [of is_ws s] by simp
    then show ?thesis using last [of "trim s" "?d"] False by (simp add: trim_def)
  qed simp
qed

lemma trim_trim [simp]: "trim (trim s) = trim s"
  by (rule trim_id) (rule trim_ends)

text \<open>A token that survives the field cursor: not empty, no comma, no white space.\<close>

definition clean_token :: "string \<Rightarrow> bool" where
  "clean_token t \<longleftrightarrow> t \<noteq> [] \<and> list_all (\<lambda>c. c \<noteq> CHR '','' \<and> \<not> is_ws c) t"

lemma clean_token_trim: "clean_token t \<Longrightarrow> trim t = t"
  by (rule trim_id) (auto simp: clean_token_def list_all_iff)

lemma clean_token_pad:
  "clean_token t \<Longrightarrow> list_all is_ws pre \<Longrightarrow> list_all is_ws post \<Longrightarrow> trim (pre @ t @ post) = t"
  by (simp add: trim_pad trim_pad_end clean_token_trim)

definition no_comma :: "string \<Rightarrow> bool" where
  "no_comma s \<longleftrightarrow> list_all (\<lambda>c. c \<noteq> CHR '','') s"

lemma no_comma_append [simp]: "no_comma (s @ t) \<longleftrightarrow> no_comma s \<and> no_comma t"
  by (simp add: no_comma_def)

lemma ws_not_comma: "is_ws c \<Longrightarrow> c \<noteq> CHR '',''"
  by (auto simp: is_ws_def)

lemma ws_no_comma: "list_all is_ws s \<Longrightarrow> no_comma s"
  unfolding no_comma_def by (erule list.pred_mono_strong) (rule ws_not_comma)

lemma clean_token_no_comma: "clean_token t \<Longrightarrow> no_comma t"
  by (simp add: clean_token_def no_comma_def list_all_iff)

lemma next_field_comma: "no_comma f \<Longrightarrow> next_field (f @ CHR '','' # rest) = (trim f, rest)"
  by (simp add: next_field_def no_comma_def span_all)

lemma next_field_last: "no_comma f \<Longrightarrow> next_field f = (trim f, [])"
  by (simp add: next_field_def no_comma_def span_all)

section \<open>Decimal integers\<close>

definition is_digit :: "char \<Rightarrow> bool" where
  "is_digit c \<longleftrightarrow> 48 \<le> (of_char c :: int) \<and> (of_char c :: int) \<le> 57"

definition digit_value :: "char \<Rightarrow> int" where
  "digit_value c = of_char c - 48"

definition digits_value :: "string \<Rightarrow> int" where
  "digits_value ds = foldl (\<lambda>v c. 10 * v + digit_value c) 0 ds"

text \<open>
  \<^verbatim>\<open>std::from_chars\<close> for a signed 64-bit integer in base 10: an optional minus sign, then the
  longest run of digits. It returns where it stopped, an error code and the value.
\<close>

datatype errc = no_error | invalid_argument | result_out_of_range

definition from_chars :: "string \<Rightarrow> string \<times> errc \<times> int" where
  "from_chars sv =
     (let (neg, body) = (case sv of [] \<Rightarrow> (False, []) | c # cs \<Rightarrow> if c = CHR ''-'' then (True, cs) else (False, sv));
          ds = takeWhile is_digit body;
          rest = dropWhile is_digit body;
          v = (if neg then - digits_value ds else digits_value ds)
      in if ds = [] then (sv, invalid_argument, 0)
         else if int64 v then (rest, no_error, v)
         else (rest, result_out_of_range, 0))"

definition parse_int :: "string \<Rightarrow> int option" where
  "parse_int sv =
     (if sv = [] then None
      else (case from_chars sv of (rest, ec, v) \<Rightarrow>
              if ec \<noteq> no_error \<or> rest \<noteq> [] then None else Some v))"

text \<open>The decimal text of an integer, as \<^verbatim>\<open>std::print\<close> writes it for \<^verbatim>\<open>{}\<close>.\<close>

definition digit_char :: "int \<Rightarrow> char" where
  "digit_char d = char_of (48 + d)"

function format_digits :: "int \<Rightarrow> string" where
  "format_digits n = (if n < 10 then [digit_char n] else format_digits (n div 10) @ [digit_char (n mod 10)])"
  by pat_completeness auto
termination
  by (relation "measure nat") auto

declare format_digits.simps [simp del]

definition format_int :: "int \<Rightarrow> string" where
  "format_int x = (if x < 0 then CHR ''-'' # format_digits (- x) else format_digits x)"

text \<open>What \<^verbatim>\<open>std::println\<close> writes, and a value between quotes in a message.\<close>

definition println :: "string \<Rightarrow> string" where
  "println text = text @ [CHR 0x0A]"

definition quoted :: "string \<Rightarrow> string" where
  "quoted text = CHR 0x27 # text @ [CHR 0x27]"

lemma of_char_digit: "0 \<le> d \<Longrightarrow> d < 10 \<Longrightarrow> (of_char (digit_char d) :: int) = 48 + d"
  by (simp add: digit_char_def)

lemma digit_char_value [simp]: "0 \<le> d \<Longrightarrow> d < 10 \<Longrightarrow> digit_value (digit_char d) = d"
  by (simp add: digit_value_def of_char_digit)

lemma digit_char_is_digit [simp]: "0 \<le> d \<Longrightarrow> d < 10 \<Longrightarrow> is_digit (digit_char d)"
  by (simp add: is_digit_def of_char_digit)

lemma digits_value_snoc [simp]: "digits_value (ds @ [c]) = 10 * digits_value ds + digit_value c"
  by (simp add: digits_value_def)

lemma digits_value_Nil [simp]: "digits_value [] = 0"
  by (simp add: digits_value_def)

lemma format_digits_digits:
  "0 \<le> n \<Longrightarrow> format_digits n \<noteq> [] \<and> list_all is_digit (format_digits n) \<and> digits_value (format_digits n) = n"
proof (induction n rule: format_digits.induct)
  case (1 n)
  show ?case
  proof (cases "n < 10")
    case True
    have "digits_value ([] @ [digit_char n]) = n" using True 1(2) by (simp only: digits_value_snoc) simp
    with True 1(2) show ?thesis by (subst (1 2 3) format_digits.simps) simp
  next
    case False
    with 1 show ?thesis by (subst (1 2 3) format_digits.simps) simp
  qed
qed

lemma digit_not_special:
  assumes "is_digit c"
  shows "c \<noteq> CHR ''-''" "c \<noteq> CHR '',''" "\<not> is_ws c" "c \<noteq> CHR 0x0A"
proof -
  have "c \<noteq> d" if "(of_char d :: int) < 48" for d :: char using assms that by (auto simp: is_digit_def)
  then show "c \<noteq> CHR ''-''" "c \<noteq> CHR '',''" "\<not> is_ws c" "c \<noteq> CHR 0x0A" by (simp_all add: is_ws_def)
qed

lemma from_chars_digits:
  assumes "list_all is_digit ds" "ds \<noteq> []"
  shows "from_chars ds = (if int64 (digits_value ds) then ([], no_error, digits_value ds)
           else ([], result_out_of_range, 0))"
    and "from_chars (CHR ''-'' # ds) = (if int64 (- digits_value ds) then ([], no_error, - digits_value ds)
           else ([], result_out_of_range, 0))"
proof -
  note a = span_all(1,2) [OF assms(1)]
  show "from_chars (CHR ''-'' # ds) = (if int64 (- digits_value ds) then ([], no_error, - digits_value ds)
           else ([], result_out_of_range, 0))" using assms(2) by (simp add: from_chars_def Let_def a)
  obtain c cs where ds: "ds = c # cs" using assms(2) by (cases ds) auto
  with assms(1) have "c \<noteq> CHR ''-''" using digit_not_special by auto
  then show "from_chars ds = (if int64 (digits_value ds) then ([], no_error, digits_value ds)
           else ([], result_out_of_range, 0))" using a by (simp add: from_chars_def Let_def ds)
qed

lemma parse_int_format_int: "int64 x \<Longrightarrow> parse_int (format_int x) = Some x"
  using from_chars_digits [of "format_digits (- x)"] from_chars_digits [of "format_digits x"]
    format_digits_digits [of "- x"] format_digits_digits [of x]
  by (auto simp: parse_int_def format_int_def)

lemma parse_int_int64: "parse_int s = Some v \<Longrightarrow> int64 v"
  by (auto simp: parse_int_def from_chars_def Let_def split: if_splits list.splits prod.splits)

lemma format_int_clean: "clean_token (format_int x)"
proof -
  have "clean_token ds" if "list_all is_digit ds" "ds \<noteq> []" for ds
    using that digit_not_special by (auto simp: clean_token_def list_all_iff)
  moreover have "clean_token (CHR ''-'' # ds)" if "clean_token ds" for ds
    using that by (simp add: clean_token_def is_ws_def)
  ultimately show ?thesis using format_digits_digits [of x] format_digits_digits [of "- x"] by (simp add: format_int_def)
qed

section \<open>Splitting a line\<close>

text \<open>The reference reading of a line: all its comma-separated fields at once.\<close>

fun split_commas :: "string \<Rightarrow> string list" where
  "split_commas [] = [[]]"
| "split_commas (c # cs) =
     (if c = CHR '','' then [] # split_commas cs
      else (c # hd (split_commas cs)) # tl (split_commas cs))"

fun join_fields :: "string list \<Rightarrow> string" where
  "join_fields [] = []"
| "join_fields [f] = f"
| "join_fields (f # fs) = f @ CHR '','' # join_fields fs"

lemma split_commas_not_Nil [simp]: "split_commas s \<noteq> []"
  by (induction s) auto

lemma split_commas_no_comma: "no_comma f \<Longrightarrow> split_commas f = [f]"
  by (induction f) (auto simp: no_comma_def)

lemma split_commas_comma: "no_comma f \<Longrightarrow> split_commas (f @ CHR '','' # s) = f # split_commas s"
  by (induction f) (auto simp: no_comma_def)

lemma split_commas_parts: "\<forall>f \<in> set (split_commas s). no_comma f"
proof (induction s)
  case (Cons c s)
  then have "no_comma (hd (split_commas s))" "\<forall>f \<in> set (tl (split_commas s)). no_comma f"
    by (simp_all add: list.set_sel(2))
  with Cons show ?case by (auto simp: no_comma_def)
qed (simp add: no_comma_def)

lemma split_join: "fs \<noteq> [] \<Longrightarrow> \<forall>f \<in> set fs. no_comma f \<Longrightarrow> split_commas (join_fields fs) = fs"
  by (induction fs rule: join_fields.induct) (simp_all add: split_commas_no_comma split_commas_comma)

lemma join_split: "join_fields (split_commas s) = s"
proof (induction s)
  case (Cons c s)
  then show ?case by (cases "split_commas s" rule: join_fields.cases) (auto simp: join_fields.simps(3))
qed simp

text \<open>The field cursor walks through exactly these fields; an exhausted cursor gives empty ones.\<close>

lemma next_field_split:
  "split_commas s = f # fs \<Longrightarrow> next_field s = (trim f, join_fields fs)"
proof -
  assume split: "split_commas s = f # fs"
  then have f: "no_comma f" using split_commas_parts [of s] by simp
  have "s = join_fields (f # fs)" using join_split [of s] split by simp
  with f show ?thesis by (cases fs) (simp_all add: next_field_comma next_field_last)
qed

definition field_list :: "string \<Rightarrow> string list" where
  "field_list s = map trim (split_commas s)"

lemma field_list_pad: "list_all is_ws pre \<Longrightarrow> field_list (pre @ s) = field_list s"
proof (induction pre)
  case (Cons c pre)
  then have c: "c \<noteq> CHR '',''" "list_all is_ws [c]" using ws_not_comma by auto
  have "trim (c # x) = trim x" for x using trim_pad [OF c(2), of x] by simp
  with Cons c(1) show ?case
    by (cases "split_commas (pre @ s)") (auto simp: field_list_def)
qed simp

lemma field_list_pad_end: "list_all is_ws post \<Longrightarrow> field_list (s @ post) = field_list s"
proof (induction s)
  case Nil
  then show ?case using trim_pad [of post "[]"] by (simp add: field_list_def split_commas_no_comma ws_no_comma)
next
  case (Cons c s)
  then have IH: "field_list (s @ post) = field_list s" by simp
  obtain f fs g gs where fg: "split_commas (s @ post) = f # fs" "split_commas s = g # gs"
    by (metis list.exhaust split_commas_not_Nil)
  show ?case
  proof (cases "c = CHR '',''")
    case True
    with IH show ?thesis by (simp add: field_list_def)
  next
    case False
    show ?thesis
    proof (cases "gs = []")
      case True
      with fg(2) have "s = g" using join_split [of s] by simp
      moreover have nc: "no_comma g" using split_commas_parts [of s] fg(2) by simp
      ultimately have "split_commas (s @ post) = [g @ post]"
        using Cons.prems by (simp add: split_commas_no_comma ws_no_comma)
      then show ?thesis using False fg True trim_pad_end [OF Cons.prems, of "c # g"] by (simp add: field_list_def)
    next
      case gs: False
      with fg(2) obtain t where s: "s = g @ CHR '','' # t" "no_comma g"
        using join_split [of s] split_commas_parts [of s] by (cases gs) auto
      then have "f = g" using fg by (simp add: split_commas_comma)
      with IH False fg show ?thesis by (simp add: field_list_def)
    qed
  qed
qed

lemma field_list_trim: "field_list (trim s) = field_list s"
proof -
  let ?d = "dropWhile is_ws s"
  have "s = takeWhile is_ws s @ ?d" by simp
  then have "field_list s = field_list ?d"
    by (metis field_list_pad list_all_iff set_takeWhileD)
  also have "?d = trim s @ rev (takeWhile is_ws (rev ?d))"
    unfolding trim_def by (metis rev_append rev_rev_ident takeWhile_dropWhile_id)
  also have "field_list \<dots> = field_list (trim s)"
    by (rule field_list_pad_end) (auto simp: list_all_iff dest: set_takeWhileD)
  finally show ?thesis by simp
qed

lemma join_fields_no_ws:
  "\<forall>t \<in> set fs. clean_token t \<Longrightarrow> list_all (\<lambda>c. \<not> is_ws c) (join_fields fs)"
proof (induction fs rule: join_fields.induct)
  case (3 f g fs)
  then have "list_all (\<lambda>c. \<not> is_ws c) f" by (simp add: clean_token_def list_all_iff)
  with 3 show ?case by (simp add: is_ws_def)
qed (auto simp: clean_token_def list_all_iff)

section \<open>Field codecs\<close>

text \<open>
  What the wire asks of the text of a value: it decodes to the value, nothing else decodes
  out of range, and it is a clean token, so that the field cursor returns it whole whatever
  white space surrounds it.
\<close>

locale field_codec =
  fixes ok :: "'a \<Rightarrow> bool" and encode :: "'a \<Rightarrow> string" and decode :: "string \<Rightarrow> 'a option"
  assumes decode_encode: "ok x \<Longrightarrow> decode (encode x) = Some x"
    and encode_clean: "ok x \<Longrightarrow> clean_token (encode x)"
    and decode_ok: "decode t = Some x \<Longrightarrow> ok x"
begin

lemma encode_inj: "ok x \<Longrightarrow> ok y \<Longrightarrow> encode x = encode y \<Longrightarrow> x = y"
  using decode_encode by (metis option.inject)

lemma decode_padded:
  "ok x \<Longrightarrow> list_all is_ws pre \<Longrightarrow> list_all is_ws post \<Longrightarrow> decode (trim (pre @ encode x @ post)) = Some x"
  by (simp add: clean_token_pad encode_clean decode_encode)

lemma trim_encode: "ok x \<Longrightarrow> trim (encode x) = encode x"
  by (rule clean_token_trim) (rule encode_clean)

lemma encode_no_comma: "ok x \<Longrightarrow> no_comma (encode x)"
  by (rule clean_token_no_comma) (rule encode_clean)

lemma encode_not_Nil: "ok x \<Longrightarrow> encode x \<noteq> []"
  using encode_clean by (auto simp: clean_token_def)

end

text \<open>A token of its own for every value of an enumeration makes a codec.\<close>

lemma token_codec:
  assumes "\<forall>x. decode (encode x) = Some x \<and> clean_token (encode x)"
  shows "field_codec (\<lambda>_. True) encode decode"
  using assms by unfold_locales simp_all

interpretation integer_field: field_codec int64 format_int parse_int
  by unfold_locales (auto simp: parse_int_format_int format_int_clean intro: parse_int_int64)

end
