(* ===== verification/Input_Parser.thy ===== *)
theory Input_Parser
  imports Wire_Text
begin

text \<open>
  The parser of \<^verbatim>\<open>input_parser.hpp\<close>: tokens, one line, the whole stream. A diagnostic is the
  text written to the error stream, line feed included. The reference reading is the list
  of the fields of a line; the theorems say that the cursor-based parser accepts exactly the
  documented grammar over that list.
\<close>

section \<open>Tokens\<close>

definition parse_side_token :: "string \<Rightarrow> side_t option" where
  "parse_side_token sv =
     (if sv = wire_buy then Some buy else if sv = wire_sell then Some sell else None)"

definition parse_tif_token :: "string \<Rightarrow> tif_t option" where
  "parse_tif_token sv =
     (if sv = wire_tif_gtc then Some gtc
      else if sv = wire_tif_ioc then Some ioc
      else if sv = wire_tif_fok then Some fok
      else None)"

section \<open>One line\<close>

datatype parse_status_t = parse_ok | parse_skipped | parse_error

definition parse_line :: "string \<Rightarrow> input_event_t \<Rightarrow> parse_status_t \<times> input_event_t \<times> string" where
  "parse_line line out =
     (let trimmed = trim line
      in if trimmed = [] \<or> hd trimmed = CHR ''#'' then (parse_skipped, out, [])
         else let (opcode_field, cursor) = next_field trimmed
         in if opcode_field = wire_add then
              let (id_field, cursor) = next_field cursor;
                  order_id = parse_int id_field;
                  (side_token, cursor) = next_field cursor;
                  (quantity_field, cursor) = next_field cursor;
                  quantity = parse_int quantity_field;
                  (price_field, cursor) = next_field cursor;
                  price = parse_int price_field;
                  (tif_token, cursor) = next_field cursor;
                  side = parse_side_token side_token;
                  tif = parse_tif_token tif_token
              in if order_id = None \<or> quantity = None \<or> price = None \<or> tif_token = [] \<or> cursor \<noteq> []
                 then (parse_error, out, println (''Ill-formed AddOrderRequest: '' @ trimmed))
                 else if side = None
                 then (parse_error, out,
                       println (''Invalid side token '' @ quoted side_token @ '' in AddOrderRequest: '' @ trimmed))
                 else if tif = None
                 then (parse_error, out,
                       println (''Invalid time-in-force token '' @ quoted tif_token @ '' in AddOrderRequest: '' @ trimmed))
                 else (parse_ok,
                       add_order_in \<lparr>add_order_id = the order_id, add_side = the side,
                         add_quantity = the quantity, add_price = the price, add_tif = the tif\<rparr>, [])
            else if opcode_field = wire_cancel then
              let (id_field, cursor) = next_field cursor;
                  order_id = parse_int id_field
              in if order_id = None \<or> cursor \<noteq> []
                 then (parse_error, out, println (''Ill-formed CancelOrderRequest: '' @ trimmed))
                 else (parse_ok, cancel_order_in \<lparr>cancel_order_id = the order_id\<rparr>, [])
            else (parse_error, out, println (''Unknown message type: '' @ opcode_field)))"

section \<open>The stream\<close>

text \<open>\<^verbatim>\<open>std::getline\<close>: fails when nothing is left, otherwise takes a line and its line feed.\<close>

definition getline :: "string \<Rightarrow> (string \<times> string) option" where
  "getline s =
     (if s = [] then None
      else Some (takeWhile (\<lambda>c. c \<noteq> CHR 0x0A) s, drop 1 (dropWhile (\<lambda>c. c \<noteq> CHR 0x0A) s)))"

lemma getline_shorter: "getline s = Some (line, rest) \<Longrightarrow> length rest < length s"
proof -
  have "length (drop 1 (dropWhile P s)) < length s" if "s \<noteq> []" for P :: "char \<Rightarrow> bool"
    using that length_dropWhile_le [of P s] by (cases s) auto
  then show "getline s = Some (line, rest) \<Longrightarrow> length rest < length s"
    by (auto simp: getline_def split: if_splits)
qed

definition input_event_init :: input_event_t where
  "input_event_init =
     add_order_in \<lparr>add_order_id = 0, add_side = buy, add_quantity = 0, add_price = 0, add_tif = gtc\<rparr>"

text \<open>The handler acts on a state of its own; \<open>err\<close> is what the error stream has received.\<close>

function parse_stream ::
    "(input_event_t \<Rightarrow> 's \<Rightarrow> 's) \<Rightarrow> string \<Rightarrow> 's \<Rightarrow> string \<Rightarrow> 's \<times> string" where
  "parse_stream handler input st err =
     (case getline input of
        None \<Rightarrow> (st, err)
      | Some (line, rest) \<Rightarrow>
          (case parse_line line input_event_init of (status, event, diagnostic) \<Rightarrow>
             parse_stream handler rest (if status = parse_ok then handler event st else st) (err @ diagnostic)))"
  by pat_completeness auto
termination
  by (relation "measure (\<lambda>(handler, input, st, err). length input)") (auto dest: getline_shorter)

declare parse_stream.simps [simp del]

section \<open>Codecs of the tokens\<close>

fun side_token :: "side_t \<Rightarrow> string" where
  "side_token buy = wire_buy"
| "side_token sell = wire_sell"

fun tif_token :: "tif_t \<Rightarrow> string" where
  "tif_token gtc = wire_tif_gtc"
| "tif_token ioc = wire_tif_ioc"
| "tif_token fok = wire_tif_fok"

interpretation side_field: field_codec "\<lambda>_. True" side_token parse_side_token
  by (rule token_codec) code_simp

interpretation tif_field: field_codec "\<lambda>_. True" tif_token parse_tif_token
  by (rule token_codec) code_simp

section \<open>The grammar of a line\<close>

text \<open>
  The documented grammar over the fields of a line. The parser also takes one empty field
  after the last one, that is, a trailing comma.
\<close>

definition ends_with :: "string list \<Rightarrow> string list \<Rightarrow> bool" where
  "ends_with fs gs \<longleftrightarrow> fs = gs \<or> fs = gs @ [[]]"

fun line_event :: "input_event_t \<Rightarrow> string list \<Rightarrow> bool" where
  "line_event (add_order_in e) fs \<longleftrightarrow>
     (\<exists>i s q p t. ends_with fs [wire_add, i, s, q, p, t] \<and>
        parse_int i = Some (add_order_id e) \<and> parse_side_token s = Some (add_side e) \<and>
        parse_int q = Some (add_quantity e) \<and> parse_int p = Some (add_price e) \<and>
        parse_tif_token t = Some (add_tif e))"
| "line_event (cancel_order_in e) fs \<longleftrightarrow>
     (\<exists>i. ends_with fs [wire_cancel, i] \<and> parse_int i = Some (cancel_order_id e))"
| "line_event shutdown_in fs \<longleftrightarrow> False"

text \<open>
  What the documentation says of the other lines. An add has the shape of a request when it has its five arguments, its numbers are
  integers and its time in force is not empty; only then are its two tokens looked at, the side first.
\<close>

definition add_shape :: "string list \<Rightarrow> string \<Rightarrow> string \<Rightarrow> string \<Rightarrow> string \<Rightarrow> string \<Rightarrow> bool" where
  "add_shape fs i s q p t \<longleftrightarrow> ends_with fs [wire_add, i, s, q, p, t] \<and>
     parse_int i \<noteq> None \<and> parse_int q \<noteq> None \<and> parse_int p \<noteq> None \<and> t \<noteq> []"

inductive line_error :: "string \<Rightarrow> string list \<Rightarrow> string \<Rightarrow> bool" for line fs where
  unknown_type:
    "fs = opcode # args \<Longrightarrow> opcode \<notin> {wire_add, wire_cancel} \<Longrightarrow> line_error line fs (''Unknown message type: '' @ opcode)"
| ill_formed_cancel:
    "fs = wire_cancel # args \<Longrightarrow> (\<And>i. ends_with fs [wire_cancel, i] \<Longrightarrow> parse_int i = None) \<Longrightarrow>
     line_error line fs (''Ill-formed CancelOrderRequest: '' @ line)"
| ill_formed_add:
    "fs = wire_add # args \<Longrightarrow> (\<And>i s q p t. \<not> add_shape fs i s q p t) \<Longrightarrow>
     line_error line fs (''Ill-formed AddOrderRequest: '' @ line)"
| invalid_side:
    "add_shape fs i s q p t \<Longrightarrow> parse_side_token s = None \<Longrightarrow>
     line_error line fs (''Invalid side token '' @ quoted s @ '' in AddOrderRequest: '' @ line)"
| invalid_tif:
    "add_shape fs i s q p t \<Longrightarrow> parse_side_token s \<noteq> None \<Longrightarrow> parse_tif_token t = None \<Longrightarrow>
     line_error line fs (''Invalid time-in-force token '' @ quoted t @ '' in AddOrderRequest: '' @ line)"

text \<open>Reading the next field from what is left of a line, as a list of fields.\<close>

fun next_of :: "string list \<Rightarrow> string \<times> string list" where
  "next_of [] = ([], [])"
| "next_of (f # fs) = (trim f, fs)"

lemma next_field_join:
  assumes "\<forall>f \<in> set fs. no_comma f"
  shows "next_field (join_fields fs) = (fst (next_of fs), join_fields (snd (next_of fs)))"
proof (cases fs)
  case (Cons f gs)
  with assms have "split_commas (join_fields fs) = f # gs" by (simp add: split_join)
  with Cons show ?thesis by (simp add: next_field_split)
qed (simp add: next_field_def)

lemma join_fields_Nil: "join_fields fs = [] \<longleftrightarrow> fs = [] \<or> fs = [[]]"
  by (induction fs rule: join_fields.induct) auto

lemma next_of_chain:
  "snd (next_of fs) = tl fs" "fst (next_of fs) = trim (case fs of [] \<Rightarrow> [] | f # _ \<Rightarrow> f)"
  by (cases fs; simp)+

text \<open>A trimmed line whose last field is blank ends with a comma.\<close>

lemma trim_all_ws: "trim f = [] \<Longrightarrow> list_all is_ws f"
proof -
  assume "trim f = []"
  then have "list_all is_ws (rev (dropWhile is_ws f))" by (simp add: trim_def dropWhile_eq_Nil_conv list_all_iff)
  then have ws: "list_all is_ws (dropWhile is_ws f)" by simp
  have "dropWhile is_ws f = []"
  proof (rule ccontr)
    assume ne: "dropWhile is_ws f \<noteq> []"
    from hd_dropWhile [OF this] ws hd_in_set [OF ne] show False by (auto simp: list_all_iff)
  qed
  then show ?thesis by (simp add: dropWhile_eq_Nil_conv list_all_iff)
qed

lemma trim_hd:
  assumes "f \<noteq> []" "\<not> is_ws (hd f)"
  shows "trim f \<noteq> []" "hd (trim f) = hd f"
proof -
  have "f = trim f @ rev (takeWhile is_ws (rev f))"
    using assms unfolding trim_def
    by (metis dropWhile_hd rev_append rev_rev_ident takeWhile_dropWhile_id)
  moreover show ne: "trim f \<noteq> []" using trim_all_ws [of f] assms by (auto simp: list_all_iff)
  ultimately show "hd (trim f) = hd f" by (metis hd_append2)
qed

lemma last_field_blank:
  assumes "split_commas (trim s) = gs @ [f]" "gs \<noteq> []" "trim f = []"
  shows "f = []"
proof (rule ccontr)
  assume f: "f \<noteq> []"
  have "\<exists>x. join_fields (gs @ [f]) = x @ f" for gs :: "string list" and f
    by (induction gs rule: join_fields.induct) (auto intro: exI [of _ "[]"])
  then obtain x where "trim s = x @ f" using join_split [of "trim s"] assms(1) by metis
  then have "last (trim s) = last f" "trim s \<noteq> []" using f by auto
  then have "\<not> is_ws (last f)" using trim_ends [of s] by auto
  with trim_all_ws [OF assms(3)] f show False by (simp add: list_all_iff)
qed

text \<open>The parser on a line that is neither blank nor a comment, over the fields of the trimmed line.\<close>

definition field_at :: "string list \<Rightarrow> nat \<Rightarrow> string" where
  "field_at fs n = (if n < length fs then trim (fs ! n) else [])"

lemma next_field_drop:
  assumes "\<forall>f \<in> set fs. no_comma f"
  shows "next_field (join_fields (drop n fs)) = (field_at fs n, join_fields (drop (Suc n) fs))"
proof -
  have "\<forall>f \<in> set (drop n fs). no_comma f" using assms by (auto dest: in_set_dropD)
  from next_field_join [OF this] show ?thesis
    by (cases "n < length fs") (simp_all add: field_at_def next_of_chain drop_Suc Cons_nth_drop_Suc [symmetric] tl_drop)
qed

lemma parse_line_fields:
  assumes "trim line \<noteq> []" "hd (trim line) \<noteq> CHR ''#''" and fs: "fs = split_commas (trim line)"
  shows "parse_line line out =
    (if field_at fs 0 = wire_add
     then if parse_int (field_at fs 1) = None \<or> parse_int (field_at fs 3) = None \<or>
            parse_int (field_at fs 4) = None \<or> field_at fs 5 = [] \<or> join_fields (drop 6 fs) \<noteq> []
          then (parse_error, out, println (''Ill-formed AddOrderRequest: '' @ trim line))
          else if parse_side_token (field_at fs 2) = None
          then (parse_error, out, println (''Invalid side token '' @ quoted (field_at fs 2) @
                  '' in AddOrderRequest: '' @ trim line))
          else if parse_tif_token (field_at fs 5) = None
          then (parse_error, out, println (''Invalid time-in-force token '' @ quoted (field_at fs 5) @
                  '' in AddOrderRequest: '' @ trim line))
          else (parse_ok, add_order_in \<lparr>add_order_id = the (parse_int (field_at fs 1)),
                  add_side = the (parse_side_token (field_at fs 2)),
                  add_quantity = the (parse_int (field_at fs 3)), add_price = the (parse_int (field_at fs 4)),
                  add_tif = the (parse_tif_token (field_at fs 5))\<rparr>, [])
     else if field_at fs 0 = wire_cancel
     then if parse_int (field_at fs 1) = None \<or> join_fields (drop 2 fs) \<noteq> []
          then (parse_error, out, println (''Ill-formed CancelOrderRequest: '' @ trim line))
          else (parse_ok, cancel_order_in \<lparr>cancel_order_id = the (parse_int (field_at fs 1))\<rparr>, [])
     else (parse_error, out, println (''Unknown message type: '' @ field_at fs 0)))"
proof -
  have nc: "\<forall>f \<in> set fs. no_comma f" unfolding fs by (rule split_commas_parts)
  have "trim line = join_fields (drop 0 fs)" by (simp add: fs join_split)
  then have 0: "next_field (trim line) = (field_at fs 0, join_fields (drop 1 fs))"
    using next_field_drop [OF nc, of 0] by simp
  note n = next_field_drop [OF nc]
  have "next_field (join_fields (drop 1 fs)) = (field_at fs 1, join_fields (drop 2 fs))"
    "next_field (join_fields (drop 2 fs)) = (field_at fs 2, join_fields (drop 3 fs))"
    "next_field (join_fields (drop 3 fs)) = (field_at fs 3, join_fields (drop 4 fs))"
    "next_field (join_fields (drop 4 fs)) = (field_at fs 4, join_fields (drop 5 fs))"
    "next_field (join_fields (drop 5 fs)) = (field_at fs 5, join_fields (drop 6 fs))"
    using n [of 1] n [of 2] n [of 3] n [of 4] n [of 5] by (simp_all add: eval_nat_numeral)
  with 0 assms(1,2) show ?thesis unfolding parse_line_def by (simp only: Let_def prod.case if_False simp_thms)
qed

lemma ends_with_fields:
  assumes "ends_with (map trim fs) L"
  shows "length L \<le> length fs" "map (field_at fs) [0..<length L] = L"
proof -
  from assms have len: "length L \<le> length fs" and nth: "\<And>k. k < length L \<Longrightarrow> map trim fs ! k = L ! k"
    by (auto simp: ends_with_def nth_append dest: arg_cong [of _ _ length])
  show "length L \<le> length fs" by (rule len)
  show "map (field_at fs) [0..<length L] = L"
  proof (rule nth_equalityI)
    fix k assume "k < length (map (field_at fs) [0..<length L])"
    then have "k < length L" by simp
    with nth [of k] len show "map (field_at fs) [0..<length L] ! k = L ! k" by (simp add: field_at_def)
  qed simp
qed

lemma take_fields: "n \<le> length fs \<Longrightarrow> map trim (take n fs) = map (field_at fs) [0..<n]"
  by (rule nth_equalityI) (simp_all add: field_at_def)

lemma ends_with_drop:
  assumes fs: "fs = split_commas (trim line)" and "0 < n"
  shows "ends_with (map trim fs) (map (field_at fs) [0..<n]) \<longleftrightarrow> n \<le> length fs \<and> join_fields (drop n fs) = []"
proof
  assume e: "ends_with (map trim fs) (map (field_at fs) [0..<n])"
  then have n: "n \<le> length fs" using ends_with_fields(1) by fastforce
  show "n \<le> length fs \<and> join_fields (drop n fs) = []"
  proof (cases "length fs = n")
    case False
    have eq: "map trim fs = map (field_at fs) [0..<n] @ [[]]"
      using e False by (auto simp: ends_with_def dest: arg_cong [of _ _ length])
    then have len: "length fs = Suc n" by (auto dest: arg_cong [of _ _ length])
    have l: "map trim fs ! n = []" unfolding eq by (simp add: nth_append)
    have d: "fs = take n fs @ [fs ! n]"
      using len by (metis lessI order_refl take_Suc_conv_app_nth take_all)
    have "split_commas (trim line) = take n fs @ [fs ! n]" unfolding fs [symmetric] by (rule d)
    moreover have "take n fs \<noteq> []" using \<open>0 < n\<close> len by auto
    moreover have "trim (fs ! n) = []" using l len by simp
    ultimately have "fs ! n = []" by (rule last_field_blank)
    moreover have "drop n fs = [fs ! n]" using len by (metis Cons_nth_drop_Suc drop_all lessI order_refl)
    ultimately show ?thesis using n by simp
  qed (simp add: n)
next
  assume a: "n \<le> length fs \<and> join_fields (drop n fs) = []"
  then have "drop n fs = [] \<or> drop n fs = [[]]" by (simp add: join_fields_Nil)
  moreover have "map trim fs = map (field_at fs) [0..<n] @ map trim (drop n fs)"
    using a take_fields [of n fs] by (metis append_take_drop_id map_append)
  ultimately show "ends_with (map trim fs) (map (field_at fs) [0..<n])" by (auto simp: ends_with_def)
qed

lemma parse_int_Nil [simp]: "parse_int [] = None"
  by (simp add: parse_int_def)

lemma field_at_length: "field_at fs n \<noteq> [] \<Longrightarrow> n < length fs"
  by (auto simp: field_at_def split: if_splits)

lemma add_fields_iff:
  assumes fs: "fs = split_commas (trim line)" and t: "t \<noteq> []"
  shows "ends_with (map trim fs) [wire_add, i, s, q, p, t] \<longleftrightarrow>
    field_at fs 0 = wire_add \<and> field_at fs 1 = i \<and> field_at fs 2 = s \<and> field_at fs 3 = q \<and> field_at fs 4 = p \<and> field_at fs 5 = t \<and>
    join_fields (drop 6 fs) = []" (is "?L \<longleftrightarrow> ?R")
proof
  have six: "[0..<6] = [0, 1, 2, 3, 4, 5 :: nat]" by (simp add: upt_rec)
  note d = ends_with_drop [OF fs, of 6, unfolded six, simplified]
  show ?R if L: ?L
  proof -
    from ends_with_fields(2) [OF L] have "field_at fs 0 = wire_add" "field_at fs 1 = i" "field_at fs 2 = s"
      "field_at fs 3 = q" "field_at fs 4 = p" "field_at fs 5 = t" by (simp_all add: six eval_nat_numeral)
    with L d show ?thesis by simp
  qed
  show ?L if R: ?R
  proof -
    from R t field_at_length [of fs 5] have "6 \<le> length fs" by simp
    with R d show ?thesis by simp
  qed
qed

lemma cancel_fields_iff:
  assumes fs: "fs = split_commas (trim line)" and i: "i \<noteq> []"
  shows "ends_with (map trim fs) [wire_cancel, i] \<longleftrightarrow>
    field_at fs 0 = wire_cancel \<and> field_at fs 1 = i \<and> join_fields (drop 2 fs) = []" (is "?L \<longleftrightarrow> ?R")
proof
  have two: "[0..<2] = [0, 1 :: nat]" by (simp add: upt_rec)
  note d = ends_with_drop [OF fs, of 2, unfolded two, simplified]
  show ?R if L: ?L
  proof -
    from ends_with_fields(2) [OF L] have "field_at fs 0 = wire_cancel" "field_at fs 1 = i" by (simp_all add: two)
    with L d show ?thesis by simp
  qed
  show ?L if R: ?R
  proof -
    from R i field_at_length [of fs 1] have "2 \<le> length fs" by simp
    with R d show ?thesis by simp
  qed
qed

lemma add_shape_iff:
  assumes "fs = split_commas (trim line)"
  shows "add_shape (map trim fs) i s q p t \<longleftrightarrow>
    field_at fs 0 = wire_add \<and> field_at fs 1 = i \<and> field_at fs 2 = s \<and> field_at fs 3 = q \<and> field_at fs 4 = p \<and> field_at fs 5 = t \<and>
    join_fields (drop 6 fs) = [] \<and> parse_int i \<noteq> None \<and> parse_int q \<noteq> None \<and> parse_int p \<noteq> None \<and> t \<noteq> []"
  unfolding add_shape_def using add_fields_iff [OF assms] by blast

lemma parse_tif_token_Nil [simp]: "parse_tif_token [] = None"
  by (simp add: parse_tif_token_def wire_simps)

lemma line_event_add_iff:
  assumes fs: "fs = split_commas (trim line)"
  shows "line_event (add_order_in e) (map trim fs) \<longleftrightarrow>
    field_at fs 0 = wire_add \<and> field_at fs 5 \<noteq> [] \<and> join_fields (drop 6 fs) = [] \<and>
    parse_int (field_at fs 1) = Some (add_order_id e) \<and> parse_side_token (field_at fs 2) = Some (add_side e) \<and>
    parse_int (field_at fs 3) = Some (add_quantity e) \<and> parse_int (field_at fs 4) = Some (add_price e) \<and>
    parse_tif_token (field_at fs 5) = Some (add_tif e)" (is "_ \<longleftrightarrow> ?R")
proof
  assume "line_event (add_order_in e) (map trim fs)"
  then obtain i s q p t where L: "ends_with (map trim fs) [wire_add, i, s, q, p, t]"
    and v: "parse_int i = Some (add_order_id e)" "parse_side_token s = Some (add_side e)"
      "parse_int q = Some (add_quantity e)" "parse_int p = Some (add_price e)" "parse_tif_token t = Some (add_tif e)"
    by auto
  from v(5) have t: "t \<noteq> []" by (rule contrapos_pn) simp
  from add_fields_iff [OF fs t, THEN iffD1, OF L] v t show ?R by simp
next
  assume R: ?R
  then have "ends_with (map trim fs) [wire_add, field_at fs 1, field_at fs 2, field_at fs 3, field_at fs 4, field_at fs 5]"
    by (intro add_fields_iff [OF fs, THEN iffD2]) simp_all
  with R show "line_event (add_order_in e) (map trim fs)" unfolding line_event.simps by blast
qed

lemma line_event_cancel_iff:
  assumes fs: "fs = split_commas (trim line)"
  shows "line_event (cancel_order_in e) (map trim fs) \<longleftrightarrow>
    field_at fs 0 = wire_cancel \<and> join_fields (drop 2 fs) = [] \<and> parse_int (field_at fs 1) = Some (cancel_order_id e)"
proof
  assume "line_event (cancel_order_in e) (map trim fs)"
  then obtain i where i: "ends_with (map trim fs) [wire_cancel, i]" "parse_int i = Some (cancel_order_id e)" by auto
  from i(2) have n: "i \<noteq> []" by (rule contrapos_pn) simp
  from cancel_fields_iff [OF fs n, THEN iffD1, OF i(1)] i(2)
  show "field_at fs 0 = wire_cancel \<and> join_fields (drop 2 fs) = [] \<and> parse_int (field_at fs 1) = Some (cancel_order_id e)" by simp
next
  assume R: "field_at fs 0 = wire_cancel \<and> join_fields (drop 2 fs) = [] \<and> parse_int (field_at fs 1) = Some (cancel_order_id e)"
  then have "field_at fs 1 \<noteq> []" by auto
  with cancel_fields_iff [OF fs this] R show "line_event (cancel_order_in e) (map trim fs)" by auto
qed

text \<open>The errors over the fields of the trimmed line.\<close>

definition shaped_at :: "string list \<Rightarrow> bool" where
  "shaped_at fs \<longleftrightarrow> \<not> (parse_int (field_at fs 1) = None \<or> parse_int (field_at fs 3) = None \<or>
     parse_int (field_at fs 4) = None \<or> field_at fs 5 = [] \<or> join_fields (drop 6 fs) \<noteq> [])"

definition complaint :: "string \<Rightarrow> string list \<Rightarrow> string option" where
  "complaint l fs =
     (if field_at fs 0 = wire_add
      then if \<not> shaped_at fs then Some (''Ill-formed AddOrderRequest: '' @ l)
           else if parse_side_token (field_at fs 2) = None
           then Some (''Invalid side token '' @ quoted (field_at fs 2) @ '' in AddOrderRequest: '' @ l)
           else if parse_tif_token (field_at fs 5) = None
           then Some (''Invalid time-in-force token '' @ quoted (field_at fs 5) @ '' in AddOrderRequest: '' @ l)
           else None
      else if field_at fs 0 = wire_cancel
      then if parse_int (field_at fs 1) = None \<or> join_fields (drop 2 fs) \<noteq> []
           then Some (''Ill-formed CancelOrderRequest: '' @ l) else None
      else Some (''Unknown message type: '' @ field_at fs 0))"

lemma line_error_fields:
  assumes fs: "fs = split_commas (trim line)"
  shows "line_error l (map trim fs) message \<longleftrightarrow> complaint l fs = Some message"
proof -
  have "fs \<noteq> []" unfolding fs by simp
  then have hd: "(\<exists>gs. map trim fs = f # gs) \<longleftrightarrow> field_at fs 0 = f" for f
    by (cases fs) (auto simp: field_at_def)
  have na: "wire_add \<noteq> wire_cancel" by (simp add: wire_simps)
  have c: "(\<forall>i. ends_with (map trim fs) [wire_cancel, i] \<longrightarrow> parse_int i = None) \<longleftrightarrow>
      parse_int (field_at fs 1) = None \<or> join_fields (drop 2 fs) \<noteq> []" if "field_at fs 0 = wire_cancel"
    using cancel_fields_iff [OF fs] parse_int_Nil that by metis
  have a: "add_shape (map trim fs) i s q p t \<longleftrightarrow> field_at fs 0 = wire_add \<and> shaped_at fs \<and>
      i = field_at fs 1 \<and> s = field_at fs 2 \<and> q = field_at fs 3 \<and> p = field_at fs 4 \<and> t = field_at fs 5" for i s q p t
    unfolding add_shape_iff [OF fs] shaped_at_def by auto
  define m1 m2 m3 m4 where "m1 = ''Ill-formed AddOrderRequest: '' @ l" and "m2 = ''Ill-formed CancelOrderRequest: '' @ l"
    and "m3 s = ''Invalid side token '' @ quoted s @ '' in AddOrderRequest: '' @ l"
    and "m4 s = ''Invalid time-in-force token '' @ quoted s @ '' in AddOrderRequest: '' @ l" for s
  define m5 where "m5 f = ''Unknown message type: '' @ f" for f
  note folded = m1_def [symmetric] m2_def [symmetric] m3_def [symmetric] m4_def [symmetric] m5_def [symmetric]
  have "line_error l (map trim fs) message \<longleftrightarrow>
      (\<exists>f. (\<exists>gs. map trim fs = f # gs) \<and> f \<notin> {wire_add, wire_cancel} \<and> message = m5 f) \<or>
      (\<exists>gs. map trim fs = wire_cancel # gs) \<and> (\<forall>i. ends_with (map trim fs) [wire_cancel, i] \<longrightarrow> parse_int i = None) \<and> message = m2 \<or>
      (\<exists>gs. map trim fs = wire_add # gs) \<and> (\<forall>i s q p t. \<not> add_shape (map trim fs) i s q p t) \<and> message = m1 \<or>
      (\<exists>i s q p t. add_shape (map trim fs) i s q p t \<and> parse_side_token s = None \<and> message = m3 s) \<or>
      (\<exists>i s q p t. add_shape (map trim fs) i s q p t \<and> parse_side_token s \<noteq> None \<and> parse_tif_token t = None \<and> message = m4 t)"
    unfolding line_error.simps [of l "map trim fs" message] folded by (intro disj_cong; iprover)
  then show ?thesis unfolding hd a complaint_def folded
    using na c by (cases "field_at fs 0 = wire_add"; cases "field_at fs 0 = wire_cancel") auto
qed

lemma parse_line_complaint:
  assumes "trim line \<noteq> []" "hd (trim line) \<noteq> CHR ''#''"
  shows "case complaint (trim line) (split_commas (trim line)) of
      Some m \<Rightarrow> parse_line line out = (parse_error, out, println m) | None \<Rightarrow> fst (parse_line line out) = parse_ok"
  unfolding parse_line_fields [OF assms refl] complaint_def shaped_at_def
  by simp

lemma blank_or_comment_no_event:
  assumes "trim line = [] \<or> hd (trim line) = CHR ''#''"
  shows "\<not> line_event e (field_list line)"
proof
  assume ev: "line_event e (field_list line)"
  let ?fs = "split_commas (trim line)"
  from ev have ev': "line_event e (map trim ?fs)" using field_list_trim [of line] by (simp add: field_list_def)
  then have op: "field_at ?fs 0 = wire_add \<or> field_at ?fs 0 = wire_cancel"
  proof (cases e)
    case (add_order_in a)
    from ev' [unfolded this line_event_add_iff [OF refl]] show ?thesis by blast
  next
    case (cancel_order_in a)
    from ev' [unfolded this line_event_cancel_iff [OF refl]] show ?thesis by blast
  qed simp
  obtain f gs where fs: "?fs = f # gs" by (cases ?fs) auto
  have at0: "field_at ?fs 0 = trim f" by (simp add: fs field_at_def)
  have j: "trim line = join_fields (f # gs)" using join_split [of "trim line"] fs by simp
  show False
  proof (cases "f = []")
    case True
    with op at0 show False by (simp add: wire_simps)
  next
    case False
    then have ne: "trim line \<noteq> []" "hd (trim line) = hd f" using j by (cases gs; simp)+
    with assms trim_ends [of line] have "hd f = CHR ''#''" by simp
    moreover have "\<not> is_ws CHR ''#''" by (simp add: is_ws_def)
    ultimately have "hd (trim f) = CHR ''#''" using trim_hd [OF False] by simp
    with op at0 show False by (auto simp: wire_simps)
  qed
qed

lemma parse_line_event:
  "parse_line line out = (parse_ok, e, []) \<longleftrightarrow> line_event e (field_list line)"
proof (cases "trim line = [] \<or> hd (trim line) = CHR ''#''")
  case True
  then have "fst (parse_line line out) = parse_skipped" by (auto simp: parse_line_def Let_def)
  with blank_or_comment_no_event [OF True] show ?thesis by auto
next
  case False
  let ?fs = "split_commas (trim line)"
  have fl: "field_list line = map trim ?fs" using field_list_trim [of line] by (simp add: field_list_def)
  have na: "wire_add \<noteq> wire_cancel" by (simp add: wire_simps)
  from False have "trim line \<noteq> []" "hd (trim line) \<noteq> CHR ''#''" by blast+
  note pl = parse_line_fields [OF this refl, of out]
  show ?thesis
  proof (cases e)
    case (add_order_in a)
    show ?thesis unfolding fl add_order_in line_event_add_iff [OF refl] pl
      by (cases a) (auto simp del: line_event.simps simp: na)
  next
    case (cancel_order_in a)
    show ?thesis unfolding fl cancel_order_in line_event_cancel_iff [OF refl] pl
      by (cases a) (use na in auto)
  next
    case shutdown_in
    show ?thesis unfolding shutdown_in pl by simp
  qed
qed

lemma println_not_Nil [simp]: "println text \<noteq> []"
  by (simp add: println_def)

lemma parse_line_diagnostic:
  assumes "parse_line line out = (status, e, diagnostic)"
  shows "status = parse_error \<longleftrightarrow> diagnostic \<noteq> []" "status \<noteq> parse_ok \<Longrightarrow> e = out"
    "status = parse_skipped \<longleftrightarrow> trim line = [] \<or> hd (trim line) = CHR ''#''"
  using assms by (auto simp: parse_line_def Let_def split: prod.splits if_splits)

lemma parse_line_status_ok:
  "fst (parse_line line out) = parse_ok \<longleftrightarrow> (\<exists>e. line_event e (field_list line))"
proof
  assume "fst (parse_line line out) = parse_ok"
  then obtain e d where p: "parse_line line out = (parse_ok, e, d)" by (cases "parse_line line out") auto
  then have "d = []" using parse_line_diagnostic(1) [OF p] by simp
  with p show "\<exists>e. line_event e (field_list line)" using parse_line_event by blast
next
  assume "\<exists>e. line_event e (field_list line)"
  then obtain e where "parse_line line out = (parse_ok, e, [])" using parse_line_event by blast
  then show "fst (parse_line line out) = parse_ok" by simp
qed

lemma line_event_int64: "line_event e fs \<Longrightarrow> input_event_int64 e \<and> e \<noteq> shutdown_in"
  using parse_int_int64 by (cases e) auto

section \<open>The stream\<close>

text \<open>The reference reading of a stream: its lines, the events they hold and their diagnostics.\<close>

function stream_lines :: "string \<Rightarrow> string list" where
  "stream_lines input = (case getline input of None \<Rightarrow> [] | Some (line, rest) \<Rightarrow> line # stream_lines rest)"
  by pat_completeness auto
termination
  by (relation "measure length") (auto dest: getline_shorter)

declare stream_lines.simps [simp del]

definition events_of_line :: "string \<Rightarrow> input_event_t list" where
  "events_of_line line =
     (case parse_line line input_event_init of (status, e, diagnostic) \<Rightarrow> if status = parse_ok then [e] else [])"

definition stream_events :: "string \<Rightarrow> input_event_t list" where
  "stream_events input = concat (map events_of_line (stream_lines input))"

definition stream_diagnostics :: "string \<Rightarrow> string" where
  "stream_diagnostics input =
     concat (map (\<lambda>line. snd (snd (parse_line line input_event_init))) (stream_lines input))"

lemma stream_lines_Nil [simp]: "stream_lines [] = []"
  by (simp add: stream_lines.simps getline_def)

lemma stream_lines_line:
  assumes "list_all (\<lambda>c. c \<noteq> CHR 0x0A) line"
  shows "stream_lines (line @ CHR 0x0A # rest) = line # stream_lines rest"
  using assms by (subst stream_lines.simps) (simp add: getline_def span_all)

lemma parse_stream_fold:
  "parse_stream handler input st err =
     (fold handler (stream_events input) st, err @ stream_diagnostics input)"
proof (induction handler input st err rule: parse_stream.induct)
  case (1 handler input st err)
  show ?case
  proof (cases "getline input")
    case None
    then show ?thesis
      by (simp add: parse_stream.simps [of handler input] stream_lines.simps [of input] stream_events_def stream_diagnostics_def)
  next
    case (Some lr)
    obtain line rest where g: "getline input = Some (line, rest)" using Some by (cases lr) auto
    obtain status e d where p: "parse_line line input_event_init = (status, e, d)" by (metis prod_cases3)
    have sl: "stream_lines input = line # stream_lines rest" by (subst stream_lines.simps) (simp add: g)
    have "parse_stream handler input st err =
        parse_stream handler rest (if status = parse_ok then handler e st else st) (err @ d)"
      by (subst parse_stream.simps) (simp add: g p)
    also have "\<dots> = (fold handler (stream_events rest) (if status = parse_ok then handler e st else st),
        (err @ d) @ stream_diagnostics rest)"
      by (rule 1 [OF g refl p [symmetric] refl])
    finally show ?thesis by (simp add: stream_events_def stream_diagnostics_def sl events_of_line_def p)
  qed
qed

lemma stream_events_ok: "list_all (\<lambda>e. input_event_int64 e \<and> e \<noteq> shutdown_in) (stream_events input)"
proof -
  have "\<forall>e \<in> set (events_of_line line). input_event_int64 e \<and> e \<noteq> shutdown_in" for line
  proof
    fix e assume "e \<in> set (events_of_line line)"
    then obtain d where p: "parse_line line input_event_init = (parse_ok, e, d)"
      by (cases "parse_line line input_event_init") (auto simp: events_of_line_def split: if_splits)
    then have "d = []" using parse_line_diagnostic(1) [OF p] by simp
    with p parse_line_event have "line_event e (field_list line)" by blast
    then show "input_event_int64 e \<and> e \<noteq> shutdown_in" by (rule line_event_int64)
  qed
  then show ?thesis by (auto simp: stream_events_def list_all_iff)
qed

section \<open>The documented wire lines\<close>

fun wire_fields :: "input_event_t \<Rightarrow> string list" where
  "wire_fields (add_order_in e) =
     [wire_add, format_int (add_order_id e), side_token (add_side e), format_int (add_quantity e),
      format_int (add_price e), tif_token (add_tif e)]"
| "wire_fields (cancel_order_in e) = [wire_cancel, format_int (cancel_order_id e)]"
| "wire_fields shutdown_in = []"

definition wire_line :: "input_event_t \<Rightarrow> string" where
  "wire_line e = join_fields (wire_fields e)"

lemma wire_fields_event:
  "input_event_int64 e \<Longrightarrow> e \<noteq> shutdown_in \<Longrightarrow> line_event e (wire_fields e)"
  by (cases e) (auto simp: ends_with_def integer_field.decode_encode side_field.decode_encode tif_field.decode_encode)

lemma wire_fields_clean: "\<forall>t \<in> set (wire_fields e). clean_token t"
proof -
  have "clean_token wire_add" "clean_token wire_cancel"
    by (simp_all add: clean_token_def is_ws_def wire_simps)
  then show ?thesis
    by (cases e) (auto simp: format_int_clean side_field.encode_clean tif_field.encode_clean)
qed

lemma wire_line_no_newline: "list_all (\<lambda>c. c \<noteq> CHR 0x0A) (wire_line e)"
  using join_fields_no_ws [OF wire_fields_clean, of e] unfolding wire_line_def
  by (rule list.pred_mono_strong) (auto simp: is_ws_def)

lemma field_list_join:
  assumes "\<forall>f \<in> set fs. no_comma f" "fs \<noteq> []" "list_all is_ws pre" "list_all is_ws post"
  shows "field_list (pre @ join_fields fs @ post) = map trim fs"
  using assms by (simp add: field_list_pad field_list_pad_end split_join field_list_def [of "join_fields fs"])

lemma parse_wire_line:
  assumes "input_event_int64 e" "e \<noteq> shutdown_in"
  shows "parse_line (wire_line e) out = (parse_ok, e, [])"
proof -
  have ne: "wire_fields e \<noteq> []" using assms(2) by (cases e) auto
  have "map trim (wire_fields e) = wire_fields e"
    using wire_fields_clean [of e] clean_token_trim by (simp add: map_idI)
  moreover have "field_list (wire_line e) = map trim (wire_fields e)"
    using field_list_join [of "wire_fields e" "[]" "[]"] wire_fields_clean [of e] clean_token_no_comma ne
    by (simp add: wire_line_def)
  ultimately show ?thesis using wire_fields_event [OF assms] by (simp add: parse_line_event)
qed

section \<open>Properties of the parser\<close>

text \<open>
  C27: the parser accepts exactly the documented grammar. A line yields an event, without a
  diagnostic, exactly when its trimmed comma-separated fields are the opcode and the
  arguments of that event, where one empty field may follow (a trailing comma).
\<close>

theorem parser_accepts_grammar:
  "parse_line line out = (parse_ok, e, []) \<longleftrightarrow> line_event e (field_list line)"
  by (rule parse_line_event)

text \<open>
  C11: round trip. A wire line for an event in the int64 range, with any white space around
  the line and around its fields, parses to that event.
\<close>

theorem parser_roundtrip:
  assumes "input_event_int64 e" "e \<noteq> shutdown_in"
    and "map trim fs = wire_fields e" "list_all no_comma fs" "list_all is_ws pre" "list_all is_ws post"
  shows "parse_line (pre @ join_fields fs @ post) out = (parse_ok, e, [])"
proof -
  have "fs \<noteq> []" using assms(2,3) by (cases e) auto
  then have "field_list (pre @ join_fields fs @ post) = wire_fields e"
    using assms(3-6) by (simp add: field_list_join list_all_iff)
  then show ?thesis using wire_fields_event [OF assms(1,2)] by (simp add: parse_line_event)
qed

theorem parser_roundtrip_witness:
  "parse_line ('' CXL, 42'' @ [CHR 0x0D]) input_event_init = (parse_ok, cancel_order_in \<lparr>cancel_order_id = 42\<rparr>, [])"
proof -
  have "map trim [''CXL'', '' 42''] = wire_fields (cancel_order_in \<lparr>cancel_order_id = 42\<rparr>)" by code_simp
  moreover have "list_all no_comma [''CXL'', '' 42'']" "list_all is_ws '' ''" "list_all is_ws [CHR 0x0D]" by code_simp+
  ultimately show ?thesis
    using parser_roundtrip [of "cancel_order_in \<lparr>cancel_order_id = 42\<rparr>" "[''CXL'', '' 42'']" "'' ''" "[CHR 0x0D]" input_event_init]
    by (simp add: int64_def)
qed

text \<open>
  C14: what the parser does with every line. A blank line or a comment is skipped without a word; any other line either is a request of
  the grammar, gives its event and no diagnostic, or is refused with exactly the message that the rules of
  \<open>line_error\<close> give for its fields, the event variable keeping its value: an unknown opcode, an ill-formed cancel or add, and on a
  well-shaped add the side token before the time in force.
\<close>

theorem parser_diagnostics:
  "parse_line line out = (status, e, diagnostic) \<longleftrightarrow>
     (if trim line = [] \<or> hd (trim line) = CHR ''#'' then status = parse_skipped \<and> e = out \<and> diagnostic = []
      else status = parse_ok \<and> line_event e (field_list line) \<and> diagnostic = [] \<or>
        status = parse_error \<and> e = out \<and>
          (\<exists>message. line_error (trim line) (field_list line) message \<and> diagnostic = println message))"
proof (cases "trim line = [] \<or> hd (trim line) = CHR ''#''")
  case True
  then show ?thesis by (auto simp: parse_line_def Let_def)
next
  case False
  let ?fs = "split_commas (trim line)"
  have fl: "field_list line = map trim ?fs" using field_list_trim [of line] by (simp add: field_list_def)
  have ok: "parse_line line out = (parse_ok, e, diagnostic) \<longleftrightarrow> line_event e (field_list line) \<and> diagnostic = []"
    using parse_line_event [of line out e] parse_line_diagnostic(1) [of line out parse_ok e diagnostic] by auto
  have trimmed: "trim line \<noteq> []" "hd (trim line) \<noteq> CHR ''#''" using False by blast+
  have err: "parse_line line out = (parse_error, e, diagnostic) \<longleftrightarrow>
      e = out \<and> (\<exists>message. line_error (trim line) (field_list line) message \<and> diagnostic = println message)"
    using parse_line_complaint [OF trimmed, of out] unfolding fl line_error_fields [OF refl]
    by (cases "complaint (trim line) ?fs") auto
  have "parse_line line out \<noteq> (parse_skipped, e, diagnostic)" using False parse_line_diagnostic(3) by blast
  with False ok err show ?thesis by (cases status) simp_all
qed

text \<open>
  The stream parser hands the events of the lines to the handler in the order of the
  input, once each, and everything it hands over is an add or cancel whose fields are in
  the int64 range.
\<close>

lemma stream_in_order:
  "parse_stream (\<lambda>e es. es @ [e]) input [] [] = (stream_events input, stream_diagnostics input) \<and>
   list_all (\<lambda>e. input_event_int64 e \<and> e \<noteq> shutdown_in) (stream_events input)"
proof -
  have "fold (\<lambda>e es. es @ [e]) es acc = acc @ es" for es acc :: "input_event_t list"
    by (induction es arbitrary: acc) simp_all
  then show ?thesis using stream_events_ok by (simp add: parse_stream_fold)
qed

text \<open>
  Round trip of a stream. The wire lines of a list of events, one per line, are read back
  as exactly these events, with no diagnostic.
\<close>

lemma stream_roundtrip:
  assumes "list_all (\<lambda>e. input_event_int64 e \<and> e \<noteq> shutdown_in) es"
  shows "parse_stream (\<lambda>e es. es @ [e]) (concat (map (\<lambda>e. wire_line e @ [CHR 0x0A]) es)) [] [] = (es, [])"
proof -
  have "stream_events (concat (map (\<lambda>e. wire_line e @ [CHR 0x0A]) es)) = es \<and>
      stream_diagnostics (concat (map (\<lambda>e. wire_line e @ [CHR 0x0A]) es)) = []"
    using assms
  proof (induction es)
    case (Cons e es)
    then have "parse_line (wire_line e) input_event_init = (parse_ok, e, [])" by (simp add: parse_wire_line)
    with Cons show ?case
      by (simp add: stream_events_def stream_diagnostics_def stream_lines_line [OF wire_line_no_newline] events_of_line_def)
  qed (simp add: stream_events_def stream_diagnostics_def)
  moreover have "fold (\<lambda>e es. es @ [e]) es acc = acc @ es" for es acc :: "input_event_t list"
    by (induction es arbitrary: acc) simp_all
  ultimately show ?thesis by (simp add: parse_stream_fold)
qed

end
