(* ===== verification/Output_Formatter.thy ===== *)
theory Output_Formatter
  imports Wire_Text
begin

text \<open>
  The formatter of \<^verbatim>\<open>output_formatter.hpp\<close>: one line of text per output event. There is no
  overload for the shutdown sentinel, which the writer handles itself: its text is \<open>None\<close>.
\<close>

section \<open>Tokens\<close>

fun reject_code_token :: "reject_code_t \<Rightarrow> string" where
  "reject_code_token duplicate_order_id = wire_reject_duplicate_id"
| "reject_code_token unknown_order_id = wire_reject_unknown_id"
| "reject_code_token invalid_quantity = wire_reject_invalid_quantity"
| "reject_code_token invalid_price = wire_reject_invalid_price"
| "reject_code_token invalid_order_id = wire_reject_invalid_order_id"

fun cancel_cause_token :: "cancel_cause_t \<Rightarrow> string" where
  "cancel_cause_token user_request = wire_cause_user"
| "cancel_cause_token immediate_or_cancel = wire_cause_ioc"
| "cancel_cause_token fill_or_kill = wire_cause_fok"

section \<open>Lines\<close>

text \<open>The comma-separated fields of the row of an event, and its text with the line feed.\<close>

fun output_fields :: "output_event_t \<Rightarrow> string list" where
  "output_fields (trade_event i r q) = [wire_trade, format_int i, format_int r, format_int q]"
| "output_fields (order_resting_event i f r) = [wire_resting, format_int i, format_int f, format_int r]"
| "output_fields (order_filled_event i f) = [wire_filled, format_int i, format_int f]"
| "output_fields (order_cancelled_event i f q cause) =
     [wire_cancelled, format_int i, format_int f, format_int q, cancel_cause_token cause]"
| "output_fields (order_rejected_event i code) = [wire_rejected, format_int i, reject_code_token code]"
| "output_fields shutdown_out = []"

definition output_formatter :: "output_event_t \<Rightarrow> string option" where
  "output_formatter ev =
     (if ev = shutdown_out then None else Some (join_fields (output_fields ev) @ [CHR 0x0A]))"

section \<open>The text determines the event\<close>

definition read_reject_code :: "string \<Rightarrow> reject_code_t option" where
  "read_reject_code t =
     (if t = wire_reject_duplicate_id then Some duplicate_order_id
      else if t = wire_reject_unknown_id then Some unknown_order_id
      else if t = wire_reject_invalid_quantity then Some invalid_quantity
      else if t = wire_reject_invalid_price then Some invalid_price
      else if t = wire_reject_invalid_order_id then Some invalid_order_id else None)"

definition read_cancel_cause :: "string \<Rightarrow> cancel_cause_t option" where
  "read_cancel_cause t =
     (if t = wire_cause_user then Some user_request
      else if t = wire_cause_ioc then Some immediate_or_cancel
      else if t = wire_cause_fok then Some fill_or_kill else None)"

interpretation reject_field: field_codec "\<lambda>_. True" reject_code_token read_reject_code
  by (rule token_codec) code_simp

interpretation cause_field: field_codec "\<lambda>_. True" cancel_cause_token read_cancel_cause
  by (rule token_codec) code_simp

text \<open>The range of the fields of an event.\<close>

fun output_event_int64 :: "output_event_t \<Rightarrow> bool" where
  "output_event_int64 (trade_event i r q) \<longleftrightarrow> int64 i \<and> int64 r \<and> int64 q"
| "output_event_int64 (order_resting_event i f r) \<longleftrightarrow> int64 i \<and> int64 f \<and> int64 r"
| "output_event_int64 (order_filled_event i f) \<longleftrightarrow> int64 i \<and> int64 f"
| "output_event_int64 (order_cancelled_event i f q cause) \<longleftrightarrow> int64 i \<and> int64 f \<and> int64 q"
| "output_event_int64 (order_rejected_event i code) \<longleftrightarrow> int64 i"
| "output_event_int64 shutdown_out \<longleftrightarrow> True"

lemma output_fields_clean: "\<forall>t \<in> set (output_fields ev). clean_token t"
proof -
  have "clean_token wire_trade" "clean_token wire_resting" "clean_token wire_filled"
    "clean_token wire_cancelled" "clean_token wire_rejected"
    by (simp_all add: clean_token_def is_ws_def wire_simps)
  then show ?thesis
    by (cases ev) (auto simp: format_int_clean reject_field.encode_clean cause_field.encode_clean)
qed

lemma output_fields_inj:
  assumes "output_event_int64 ev" "output_event_int64 ev'" "output_fields ev = output_fields ev'"
  shows "ev = ev'"
  using assms
  by (cases ev; cases ev')
    (auto simp: wire_simps dest: integer_field.encode_inj reject_field.encode_inj [OF TrueI TrueI]
      cause_field.encode_inj [OF TrueI TrueI])

lemma output_formatter_line:
  assumes "output_formatter ev = Some row"
  obtains line where "row = line @ [CHR 0x0A]" "list_all (\<lambda>c. c \<noteq> CHR 0x0A) line"
    "split_commas line = output_fields ev"
proof -
  from assms have ev: "ev \<noteq> shutdown_out" and row: "row = join_fields (output_fields ev) @ [CHR 0x0A]"
    by (auto simp: output_formatter_def split: if_splits)
  have "list_all (\<lambda>c. c \<noteq> CHR 0x0A) (join_fields (output_fields ev))"
    using join_fields_no_ws [OF output_fields_clean, of ev]
    by (rule list.pred_mono_strong) (auto simp: is_ws_def)
  moreover have "split_commas (join_fields (output_fields ev)) = output_fields ev"
    using output_fields_clean [of ev] clean_token_no_comma ev by (intro split_join) (cases ev; auto)+
  ultimately show thesis using that row by blast
qed

text \<open>The output text of a run: the rows of its events, one after the other.\<close>

definition format_all :: "output_event_t list \<Rightarrow> string" where
  "format_all evs = concat (map (\<lambda>ev. case output_formatter ev of None \<Rightarrow> [] | Some row \<Rightarrow> row) evs)"

lemma format_all_simps [simp]:
  "format_all [] = []"
  "format_all (ev # evs) = (case output_formatter ev of None \<Rightarrow> [] | Some row \<Rightarrow> row) @ format_all evs"
  "format_all (evs @ evs') = format_all evs @ format_all evs'"
  by (simp_all add: format_all_def)

lemma newline_split_unique:
  assumes "list_all (\<lambda>c. c \<noteq> z) xs" "list_all (\<lambda>c. c \<noteq> z) ys" "xs @ z # us = ys @ z # vs"
  shows "xs = ys \<and> us = vs"
  using assms
proof (induction xs arbitrary: ys)
  case Nil
  then show ?case by (cases ys) auto
next
  case (Cons x xs)
  then show ?case by (cases ys) auto
qed

text \<open>
  Every output event but the shutdown sentinel is written as one row: text without a line
  feed, then one line feed, whose comma-separated fields are the tag and the fields of the
  event.
\<close>

lemma formatter_one_row:
  "(output_formatter ev = None \<longleftrightarrow> ev = shutdown_out) \<and>
   (\<forall>row. output_formatter ev = Some row \<longrightarrow>
      (\<exists>line. row = line @ [CHR 0x0A] \<and> list_all (\<lambda>c. c \<noteq> CHR 0x0A) line \<and>
         split_commas line = output_fields ev))"
proof (intro conjI allI impI)
  show "output_formatter ev = None \<longleftrightarrow> ev = shutdown_out" by (simp add: output_formatter_def)
  fix row assume "output_formatter ev = Some row"
  then show "\<exists>line. row = line @ [CHR 0x0A] \<and> list_all (\<lambda>c. c \<noteq> CHR 0x0A) line \<and>
      split_commas line = output_fields ev" by (rule output_formatter_line) blast
qed

lemma format_all_inj:
  assumes "list_all (\<lambda>ev. output_event_int64 ev \<and> ev \<noteq> shutdown_out) evs"
    and "list_all (\<lambda>ev. output_event_int64 ev \<and> ev \<noteq> shutdown_out) evs'"
    and "format_all evs = format_all evs'"
  shows "evs = evs'"
  using assms
proof (induction evs arbitrary: evs')
  case Nil
  show ?case
  proof (cases evs')
    case (Cons ev rest)
    with Nil.prems obtain row where "output_formatter ev = Some row" by (auto simp: output_formatter_def)
    with Nil.prems Cons show ?thesis by (auto elim!: output_formatter_line)
  qed simp
next
  case (Cons ev evs)
  from Cons.prems(1) obtain row where r: "output_formatter ev = Some row" by (auto simp: output_formatter_def)
  then obtain line where l: "row = line @ [CHR 0x0A]" "list_all (\<lambda>c. c \<noteq> CHR 0x0A) line"
    "split_commas line = output_fields ev" by (rule output_formatter_line)
  from Cons.prems(3) r l(1) have "format_all evs' \<noteq> []" by auto
  then obtain ev' rest where e: "evs' = ev' # rest" by (cases evs') auto
  from Cons.prems(2) e obtain row' where r': "output_formatter ev' = Some row'" by (auto simp: output_formatter_def)
  then obtain line' where l': "row' = line' @ [CHR 0x0A]" "list_all (\<lambda>c. c \<noteq> CHR 0x0A) line'"
    "split_commas line' = output_fields ev'" by (rule output_formatter_line)
  have "line @ CHR 0x0A # format_all evs = line' @ CHR 0x0A # format_all rest"
    using Cons.prems(3) e r r' l(1) l'(1) by simp
  from newline_split_unique [OF l(2) l'(2) this] have eq: "line = line'" "format_all evs = format_all rest"
    by simp_all
  from eq(1) l(3) l'(3) Cons.prems e have "ev = ev'" by (auto intro: output_fields_inj)
  moreover from Cons.IH [OF _ _ eq(2)] Cons.prems e have "evs = rest" by simp
  ultimately show ?case by (simp add: e)
qed

text \<open>
  C28: the output text determines the events. Two lists of events in the int64 range, without
  the sentinel, that are written as the same text are the same list.
\<close>

theorem format_all_injective:
  assumes "list_all (\<lambda>ev. output_event_int64 ev \<and> ev \<noteq> shutdown_out) evs"
    and "list_all (\<lambda>ev. output_event_int64 ev \<and> ev \<noteq> shutdown_out) evs'"
  shows "format_all evs = format_all evs' \<longleftrightarrow> evs = evs'"
  using format_all_inj [OF assms] by blast

theorem format_all_injective_witness:
  "format_all [trade_event 1 2 3, order_filled_event 1 3] \<noteq> format_all [trade_event 1 2 3, order_filled_event 2 3]"
  using format_all_injective [of "[trade_event 1 2 3, order_filled_event 1 3]"
    "[trade_event 1 2 3, order_filled_event 2 3]"] by (simp add: int64_def del: format_all_simps)

end
