(* ===== verification/Fair_Runs.thy ===== *)
theory Fair_Runs
  imports Prelude
begin

text \<open>
  Infinite runs of a system whose threads are scheduled fairly. The contract is a locale: a step
  that changes the state uses up work, and an unfinished state has an action that changes it. Then
  the system can always finish, and under every fair schedule it does.
\<close>

section \<open>Runs\<close>

text \<open>An action is a total move of one thread; every thread moves again and again.\<close>

definition fair_run :: "('l \<Rightarrow> 's \<Rightarrow> 's option) \<Rightarrow> ('s \<Rightarrow> 's \<Rightarrow> bool) \<Rightarrow> (nat \<Rightarrow> 's) \<Rightarrow> bool" where
  "fair_run act step run \<longleftrightarrow>
     (\<forall>i. step (run i) (run (Suc i))) \<and> (\<forall>a i. \<exists>j \<ge> i. act a (run j) = Some (run (Suc j)))"

lemma fair_run_step: "fair_run act step run \<Longrightarrow> step (run i) (run (Suc i))"
  by (simp add: fair_run_def)

lemma fair_run_turn:
  assumes "fair_run act step run"
  obtains j where "i \<le> j" "act a (run j) = Some (run (Suc j))"
  using assms unfolding fair_run_def by blast

text \<open>A run that follows a schedule, and the schedules in which every thread comes up again and again.\<close>

primrec scheduled :: "('l \<Rightarrow> 's \<Rightarrow> 's option) \<Rightarrow> (nat \<Rightarrow> 'l) \<Rightarrow> 's \<Rightarrow> nat \<Rightarrow> 's" where
  "scheduled act pick s 0 = s"
| "scheduled act pick s (Suc i) = the (act (pick i) (scheduled act pick s i))"

definition recurring :: "(nat \<Rightarrow> 'l) \<Rightarrow> bool" where
  "recurring pick \<longleftrightarrow> (\<forall>a i. \<exists>j \<ge> i. pick j = a)"

lemma recurring_round_robin:
  assumes "\<And>a. a \<in> set as"
  shows "recurring (\<lambda>i. as ! (i mod length as))"
proof -
  have "\<exists>j \<ge> i. as ! (j mod length as) = a" for a i
  proof -
    from assms obtain k where k: "k < length as" "as ! k = a" by (metis in_set_conv_nth)
    then have "1 \<le> length as" by linarith
    then have "i \<le> i * length as + k" using mult_le_mono2 [of 1 "length as" i] by linarith
    moreover have "(i * length as + k) mod length as = k" using k(1) by simp
    ultimately show ?thesis using k(2) by (intro exI [of _ "i * length as + k"]) simp
  qed
  then show ?thesis by (simp add: recurring_def)
qed

section \<open>The contract\<close>

locale progress =
  fixes act :: "'l \<Rightarrow> 's \<Rightarrow> 's option" and step :: "'s \<Rightarrow> 's \<Rightarrow> bool" and inv :: "'s \<Rightarrow> bool"
    and work :: "'s \<Rightarrow> 'm :: wellorder" and finished :: "'s \<Rightarrow> bool"
  assumes act_step: "act a s = Some s' \<Longrightarrow> step s s'"
    and act_total: "inv s \<Longrightarrow> \<exists>s'. act a s = Some s'"
    and inv_step: "inv s \<Longrightarrow> step s s' \<Longrightarrow> inv s'"
    and step_work: "inv s \<Longrightarrow> step s s' \<Longrightarrow> s' = s \<or> work s' < work s"
    and helpful: "inv s \<Longrightarrow> \<not> finished s \<Longrightarrow> \<exists>a s'. act a s = Some s' \<and> s' \<noteq> s"
begin

lemma scheduled_fair:
  assumes "inv s" "recurring pick"
  shows "fair_run act step (scheduled act pick s)"
proof -
  have i: "inv (scheduled act pick s i)" for i
    by (induction i) (use assms(1) act_total inv_step act_step in \<open>fastforce+\<close>)
  have a: "act (pick i) (scheduled act pick s i) = Some (scheduled act pick s (Suc i))" for i
    using act_total [OF i] by fastforce
  from a act_step assms(2) show ?thesis unfolding fair_run_def recurring_def by metis
qed

lemma run_inv:
  assumes "inv (run i)" "fair_run act step run" "i \<le> j"
  shows "inv (run j)"
  using assms(3,1) by (induction rule: dec_induct) (auto intro: inv_step fair_run_step [OF assms(2)])

text \<open>From one moment of a run to a later one the state is the same, or work was done.\<close>

lemma run_work:
  assumes "inv (run i)" "fair_run act step run" "i \<le> j"
  shows "run j = run i \<or> work (run j) < work (run i)"
  using assms(3)
proof (induction rule: dec_induct)
  case (step j)
  from step_work [OF run_inv [OF assms(1,2) step.hyps(1)] fair_run_step [OF assms(2)]] step.IH
  show ?case by (metis less_trans)
qed simp

lemma run_progress:
  assumes "inv (run i)" "fair_run act step run" "\<not> finished (run i)"
  shows "\<exists>j. work (run j) < work (run i) \<and> inv (run j)"
proof -
  from helpful [OF assms(1,3)] obtain a s' where a: "act a (run i) = Some s'" "s' \<noteq> run i" by blast
  obtain j where j: "i \<le> j" "act a (run j) = Some (run (Suc j))" by (rule fair_run_turn [OF assms(2)])
  have "run (Suc j) \<noteq> run i" if "run j = run i" using that a j(2) by simp
  with run_work [OF assms(1,2) j(1)] run_work [OF assms(1,2) le_SucI [OF j(1)]]
  have "work (run j) < work (run i) \<or> work (run (Suc j)) < work (run i)" by blast
  with run_inv [OF assms(1,2)] j(1) le_SucI show ?thesis by blast
qed

lemma fair_finishes:
  assumes "inv (run i)" "fair_run act step run"
  shows "\<exists>n. finished (run n)"
  using assms(1)
proof (induction "work (run i)" arbitrary: i rule: less_induct)
  case less
  show ?case using less.hyps run_progress [OF less.prems assms(2)] by blast
qed

text \<open>In particular some schedule of the threads finishes.\<close>

lemma can_finish:
  assumes "inv s"
  shows "\<exists>s'. (\<lambda>s s'. \<exists>a. act a s = Some s')\<^sup>*\<^sup>* s s' \<and> finished s'"
  using assms
proof (induction "work s" arbitrary: s rule: less_induct)
  case less
  show ?case
  proof (cases "finished s")
    case False
    from helpful [OF less.prems False] obtain a s' where a: "act a s = Some s'" "s' \<noteq> s" by blast
    from less.hyps [of s'] inv_step [OF less.prems act_step [OF a(1)]] step_work [OF less.prems act_step [OF a(1)]] a
    show ?thesis by (metis (mono_tags, lifting) converse_rtranclp_into_rtranclp)
  qed auto
qed

end

end
