(* ===== verification/Relay.thy ===== *)
theory Relay
  imports Spsc_Queue Fair_Runs "HOL-Library.Product_Lexorder"
begin

text \<open>
  Three agents joined by two rings, as the engine and the benchmark wire them: a source pushes a list
  of events that ends with a sentinel, a stage pops them, runs a handler and pushes what the handler
  emits, and a sink pops and consumes. One turn is one attempt of a push loop or one poll of an
  event loop (\<^verbatim>\<open>event_loop.hpp\<close>), of any agent. A stop request reaches each agent at its own time: the
  agent acts on what its token last returned. The contract of the two handlers is a locale; inside
  it, in every state any schedule reaches, the sink has consumed a prefix of the stage's output, all of it
  when it has seen the sentinel, and under every fair schedule all three agents return. The fields of the state have
  the names of the engine's agents: reader, matcher and writer.
\<close>

section \<open>Loops\<close>

text \<open>
  One turn of the loop of \<^verbatim>\<open>push\<close> and \<^verbatim>\<open>forward_shutdown\<close>,
  \<^verbatim>\<open>while (!token_.stop_requested() && !queue_->try_push(event))\<close>: whether the loop is left.
\<close>

definition push_attempt :: "64 word \<Rightarrow> bool \<Rightarrow> 'a \<Rightarrow> 'a spsc_queue_t \<Rightarrow> bool \<times> 'a spsc_queue_t" where
  "push_attempt capacity stopped event q =
     (if stopped then (True, q) else try_push capacity event q)"

text \<open>\<^verbatim>\<open>queue_source_t::try_pop\<close> and its shared variant forward to the queue they point to.\<close>

definition source_try_pop :: "64 word \<Rightarrow> 'a spsc_queue_t \<Rightarrow> ('a \<times> 'a spsc_queue_t) option" where
  "source_try_pop capacity q = try_pop capacity q"

text \<open>One turn of \<^verbatim>\<open>event_loop_t::run\<close>: leave on a stop request, handle an event, or pause.\<close>

datatype ('e, 'q) poll_t = Leave | Handle 'e 'q | Pause

definition event_loop_poll :: "64 word \<Rightarrow> bool \<Rightarrow> 'a spsc_queue_t \<Rightarrow> ('a, 'a spsc_queue_t) poll_t" where
  "event_loop_poll capacity stopped q =
     (if stopped then Leave
      else (case source_try_pop capacity q of None \<Rightarrow> Pause | Some (event, q') \<Rightarrow> Handle event q'))"

section \<open>The agents\<close>

datatype agent_phase = Running | Leaving | Finished

text \<open>
  \<open>stop_requested\<close> is the state of the stop source, and \<open>reader_stop\<close>, \<open>matcher_stop\<close>, \<open>writer_stop\<close> what the
  token of each agent last returned. \<open>reader_todo\<close> are the events the source has still to push, its
  sentinel last; \<open>matcher_todo\<close> the events the stage's handler has still to push; \<open>handled\<close> records
  the events the sink has handled. The types of the two queues are parameters: here they are rings
  with one operation at a time, in the theory \<^verbatim>\<open>Relay_Access\<close> rings with both threads at work.
\<close>

record ('e, 'b, 'o, 'w, 'p, 'q) wiring_t =
  stop_requested :: bool
  reader_stop :: bool
  matcher_stop :: bool
  writer_stop :: bool
  reader_todo :: "'e list"
  order_queue :: 'p
  matcher_phase :: agent_phase
  matcher_book :: 'b
  matcher_todo :: "'o list"
  output_queue :: 'q
  writer_done :: bool
  sink :: 'w
  handled :: "'o list"

type_synonym ('e, 'b, 'o, 'w) relay_t = "('e, 'b, 'o, 'w, 'e spsc_queue_t, 'o spsc_queue_t) wiring_t"

definition source_turn :: "64 word \<Rightarrow> ('e, 'b, 'o, 'w) relay_t \<Rightarrow> ('e, 'b, 'o, 'w) relay_t" where
  "source_turn capacity s =
     (case reader_todo s of
        [] \<Rightarrow> s
      | e # es \<Rightarrow>
          (let (leave, q) = push_attempt capacity (reader_stop s) e (order_queue s)
           in s\<lparr>order_queue := q, reader_todo := if leave then es else e # es\<rparr>))"

text \<open>
  The event loop of the stage. The handler gives its result (true ends the loop), the new state and
  the events that are pushed, in order, before it returns; \<open>None\<close> when it does not return.
\<close>

definition stage_turn ::
    "('e \<Rightarrow> 'b \<Rightarrow> (bool \<times> 'b \<times> 'o list) option) \<Rightarrow> 64 word \<Rightarrow> ('e, 'b, 'o, 'w) relay_t \<Rightarrow>
     ('e, 'b, 'o, 'w) relay_t option" where
  "stage_turn handler capacity s =
     (case matcher_todo s of
        ev # evs \<Rightarrow>
          (let (leave, q) = push_attempt capacity (matcher_stop s) ev (output_queue s)
           in Some (s\<lparr>output_queue := q, matcher_todo := if leave then evs else ev # evs\<rparr>))
      | [] \<Rightarrow>
          (case matcher_phase s of
             Finished \<Rightarrow> Some s
           | Leaving \<Rightarrow> Some (s\<lparr>matcher_phase := Finished\<rparr>)
           | Running \<Rightarrow>
               (case event_loop_poll capacity (matcher_stop s) (order_queue s) of
                  Leave \<Rightarrow> Some (s\<lparr>matcher_phase := Finished\<rparr>)
                | Pause \<Rightarrow> Some s
                | Handle event q \<Rightarrow>
                    (case handler event (matcher_book s) of
                       None \<Rightarrow> None
                     | Some (leave, book, evs) \<Rightarrow>
                         Some (s\<lparr>order_queue := q, matcher_book := book, matcher_todo := evs,
                                matcher_phase := if leave then Leaving else Running\<rparr>)))))"

definition sink_turn ::
    "('o \<Rightarrow> 'w \<Rightarrow> bool \<times> 'w) \<Rightarrow> 64 word \<Rightarrow> ('e, 'b, 'o, 'w) relay_t \<Rightarrow> ('e, 'b, 'o, 'w) relay_t" where
  "sink_turn consume capacity s =
     (if writer_done s then s
      else (case event_loop_poll capacity (writer_stop s) (output_queue s) of
              Leave \<Rightarrow> s\<lparr>writer_done := True\<rparr>
            | Pause \<Rightarrow> s
            | Handle event q \<Rightarrow>
                (let (leave, w) = consume event (sink s)
                 in s\<lparr>output_queue := q, sink := w, writer_done := leave, handled := handled s @ [event]\<rparr>)))"

text \<open>The moves of the threads: a turn of an agent, or its token catching up with the stop source.\<close>

datatype relay_action = Source_turn | Stage_turn | Sink_turn | Source_sees | Stage_sees | Sink_sees

fun relay_act ::
    "('e \<Rightarrow> 'b \<Rightarrow> (bool \<times> 'b \<times> 'o list) option) \<Rightarrow> ('o \<Rightarrow> 'w \<Rightarrow> bool \<times> 'w) \<Rightarrow> 64 word \<Rightarrow> relay_action \<Rightarrow>
     ('e, 'b, 'o, 'w) relay_t \<Rightarrow> ('e, 'b, 'o, 'w) relay_t option" where
  "relay_act handler consume capacity Source_turn s = Some (source_turn capacity s)"
| "relay_act handler consume capacity Stage_turn s = stage_turn handler capacity s"
| "relay_act handler consume capacity Sink_turn s = Some (sink_turn consume capacity s)"
| "relay_act handler consume capacity Source_sees s = Some (s\<lparr>reader_stop := stop_requested s\<rparr>)"
| "relay_act handler consume capacity Stage_sees s = Some (s\<lparr>matcher_stop := stop_requested s\<rparr>)"
| "relay_act handler consume capacity Sink_sees s = Some (s\<lparr>writer_stop := stop_requested s\<rparr>)"

definition relay_round :: "nat \<Rightarrow> relay_action" where
  "relay_round i =
     (let as = [Source_turn, Stage_turn, Sink_turn, Source_sees, Stage_sees, Sink_sees] in as ! (i mod length as))"

inductive relay_step ::
    "('e \<Rightarrow> 'b \<Rightarrow> (bool \<times> 'b \<times> 'o list) option) \<Rightarrow> ('o \<Rightarrow> 'w \<Rightarrow> bool \<times> 'w) \<Rightarrow> 64 word \<Rightarrow>
     ('e, 'b, 'o, 'w) relay_t \<Rightarrow> ('e, 'b, 'o, 'w) relay_t \<Rightarrow> bool"
  for handler consume capacity where
  action: "relay_act handler consume capacity a s = Some s' \<Longrightarrow> relay_step handler consume capacity s s'"
| stop: "relay_step handler consume capacity s (s\<lparr>stop_requested := True\<rparr>)"

inductive_simps relay_step_simps: "relay_step handler consume capacity s s'"

definition relay_init :: "'p \<Rightarrow> 'q \<Rightarrow> 'e list \<Rightarrow> 'b \<Rightarrow> 'w \<Rightarrow> ('e, 'b, 'o, 'w, 'p, 'q) wiring_t" where
  "relay_init orders outputs todo b w =
     \<lparr>stop_requested = False, reader_stop = False, matcher_stop = False, writer_stop = False,
      reader_todo = todo, order_queue = orders, matcher_phase = Running, matcher_book = b, matcher_todo = [],
      output_queue = outputs, writer_done = False, sink = w, handled = []\<rparr>"

text \<open>Every agent has returned.\<close>

definition all_joined :: "('e, 'b, 'o, 'w, 'p, 'q) wiring_t \<Rightarrow> bool" where
  "all_joined s \<longleftrightarrow> reader_todo s = [] \<and> matcher_todo s = [] \<and> matcher_phase s = Finished \<and> writer_done s"

text \<open>Nobody has requested a stop, and no agent has seen one.\<close>

definition undisturbed :: "('e, 'b, 'o, 'w, 'p, 'q) wiring_t \<Rightarrow> bool" where
  "undisturbed s \<longleftrightarrow> \<not> stop_requested s \<and> \<not> reader_stop s \<and> \<not> matcher_stop s \<and> \<not> writer_stop s"

text \<open>
  The work left, lexicographically: each input event is pushed and popped once and the stage leaves
  its loop; for the output of one input event, each event is pushed and popped once. The request and
  its three observations count once each.
\<close>

definition relay_work :: "64 word \<Rightarrow> ('e, 'b, 'o, 'w) relay_t \<Rightarrow> nat \<times> nat" where
  "relay_work capacity s =
     (2 * length (reader_todo s) + length (ring_contents capacity (order_queue s)) +
        (case matcher_phase s of Running \<Rightarrow> 2 | Leaving \<Rightarrow> 1 | Finished \<Rightarrow> 0),
      2 * length (matcher_todo s) + length (ring_contents capacity (output_queue s)) + of_bool (\<not> writer_done s) +
        of_bool (\<not> stop_requested s) + of_bool (\<not> reader_stop s) + of_bool (\<not> matcher_stop s) + of_bool (\<not> writer_stop s))"

section \<open>Loops on a ring in use\<close>

lemma snoc_in_prefix: "xs @ [x] = ys @ zs \<Longrightarrow> x \<in> set ys \<Longrightarrow> x \<notin> set xs \<Longrightarrow> zs = []"
  by (cases zs rule: rev_cases) auto

lemma relay_act_changes:
  "relay_act handler consume capacity a s = Some s' \<Longrightarrow> f s' \<noteq> f s \<Longrightarrow>
   \<exists>a s'. relay_act handler consume capacity a s = Some s' \<and> s' \<noteq> s"
  by blast

lemma event_loop_poll_simps [simp]:
  "event_loop_poll capacity False q = (case try_pop capacity q of None \<Rightarrow> Pause | Some (event, q') \<Rightarrow> Handle event q')"
  "event_loop_poll capacity True q = Leave"
  by (simp_all add: event_loop_poll_def source_try_pop_def)

lemma push_attempt_simps [simp]:
  "push_attempt capacity True event q = (True, q)"
  "push_attempt capacity False event q = try_push capacity event q"
  by (simp_all add: push_attempt_def)

lemma event_loop_poll_cases:
  assumes "ring_ok capacity q"
  obtains (leave) "stopped" "event_loop_poll capacity stopped q = Leave"
  | (pause) "\<not> stopped" "event_loop_poll capacity stopped q = Pause" "ring_contents capacity q = []"
  | (handle) e q' where "\<not> stopped" "event_loop_poll capacity stopped q = Handle e q'" "ring_ok capacity q'"
      "ring_contents capacity q = e # ring_contents capacity q'"
proof (cases "stopped")
  case False
  show thesis
  proof (cases "try_pop capacity q")
    case None
    with False ring.pop_none [OF assms] show ?thesis by (intro pause) simp_all
  next
    case (Some p)
    then obtain e q' where "try_pop capacity q = Some (e, q')" by (cases p) simp
    with False ring.pop_some [OF assms] show ?thesis by (intro handle) simp_all
  qed
qed (simp add: leave)

lemma push_attempt_cases:
  assumes "ring_ok capacity q"
  obtains (drop) "stopped" "push_attempt capacity stopped v q = (True, q)"
  | (full) "\<not> stopped" "push_attempt capacity stopped v q = (False, q)" "ring_contents capacity q \<noteq> []"
  | (room) q' where "\<not> stopped" "push_attempt capacity stopped v q = (True, q')" "ring_ok capacity q'"
      "ring_contents capacity q' = ring_contents capacity q @ [v]"
proof (cases "stopped")
  case False
  obtain b q' where p: "try_push capacity v q = (b, q')" by fastforce
  note c = ring.push_contents [OF assms p]
  show thesis
  proof (cases b)
    case True
    with False p c show ?thesis by (intro room [of q']) simp_all
  next
    case b: False
    have "q' = q" using p b by (auto simp: try_push_def Let_def split: if_splits)
    moreover have "2 \<le> unat capacity" using assms valid_capacity_ge by (auto simp: ring_ok_def)
    then have "ring_contents capacity q \<noteq> []" using c b by auto
    ultimately show ?thesis using False p b by (intro full) simp_all
  qed
qed (simp add: drop)

lemma relay_act_stop:
  assumes "relay_act handler consume capacity a s = Some s'"
  shows "stop_requested s' = stop_requested s" "undisturbed s \<Longrightarrow> undisturbed s'"
  using assms
  by (cases a; auto simp: undisturbed_def source_turn_def stage_turn_def sink_turn_def case_prod_beta Let_def
      split: list.splits agent_phase.splits poll_t.splits option.splits if_splits)+

lemma relay_acts:
  assumes "(\<lambda>s s'. \<exists>a. relay_act handler consume capacity a s = Some s')\<^sup>*\<^sup>* s s'"
  shows "(relay_step handler consume capacity)\<^sup>*\<^sup>* s s' \<and> stop_requested s' = stop_requested s"
  using assms
  by (induction rule: rtranclp_induct) (auto intro: rtranclp.rtrancl_into_rtrancl relay_step.action simp: relay_act_stop(1))

lemma relay_round_recurring: "recurring relay_round"
proof -
  let ?as = "[Source_turn, Stage_turn, Sink_turn, Source_sees, Stage_sees, Sink_sees]"
  have "relay_round = (\<lambda>i. ?as ! (i mod length ?as))" by (rule ext) (simp add: relay_round_def Let_def)
  moreover have "a \<in> set ?as" for a by (cases a) simp_all
  ultimately show ?thesis using recurring_round_robin [of ?as] by metis
qed

section \<open>Work is used up\<close>

lemma source_turn_work:
  assumes "ring_ok capacity (order_queue s)"
  shows "source_turn capacity s = s \<or> relay_work capacity (source_turn capacity s) < relay_work capacity s"
proof (cases "reader_todo s")
  case (Cons e es)
  from assms show ?thesis
    by (cases rule: push_attempt_cases [of _ _ "reader_stop s" e]) (simp_all add: source_turn_def Cons relay_work_def)
qed (simp add: source_turn_def)

lemma stage_turn_work:
  assumes "ring_ok capacity (order_queue s)" "ring_ok capacity (output_queue s)" "stage_turn handler capacity s = Some s'"
  shows "s' = s \<or> relay_work capacity s' < relay_work capacity s"
proof (cases "matcher_todo s")
  case (Cons ev evs)
  obtain b q where p: "push_attempt capacity (matcher_stop s) ev (output_queue s) = (b, q)" by fastforce
  have "s' = s\<lparr>output_queue := q, matcher_todo := if b then evs else ev # evs\<rparr>"
    using assms(3) by (simp add: stage_turn_def Cons p)
  with assms(2) show ?thesis using p
    by (cases rule: push_attempt_cases [of _ _ "matcher_stop s" ev]) (simp_all add: Cons relay_work_def)
next
  case Nil
  show ?thesis
  proof (cases "matcher_phase s")
    case Running
    from assms(1) show ?thesis
    proof (cases rule: event_loop_poll_cases [of _ _ "matcher_stop s"])
      case (handle e q)
      then obtain l b evs where "s' = s\<lparr>order_queue := q, matcher_book := b, matcher_todo := evs,
          matcher_phase := if l then Leaving else Running\<rparr>"
        using assms(3) Nil Running by (auto simp: stage_turn_def split: option.splits)
      with handle Running show ?thesis by (simp add: relay_work_def)
    next
      case leave
      then have "s' = s\<lparr>matcher_phase := Finished\<rparr>" using assms(3) Nil Running by (simp add: stage_turn_def)
      then show ?thesis by (simp add: relay_work_def Running)
    qed (use assms(3) Nil Running in \<open>simp add: stage_turn_def\<close>)
  next
    case Leaving
    then have "s' = s\<lparr>matcher_phase := Finished\<rparr>" using assms(3) Nil by (simp add: stage_turn_def)
    then show ?thesis by (simp add: relay_work_def Leaving)
  qed (use assms(3) Nil in \<open>simp add: stage_turn_def\<close>)
qed

lemma sink_turn_work:
  assumes "ring_ok capacity (output_queue s)"
  shows "sink_turn consume capacity s = s \<or> relay_work capacity (sink_turn consume capacity s) < relay_work capacity s"
proof (cases "writer_done s")
  case False
  from assms show ?thesis using False
    by (cases rule: event_loop_poll_cases [of _ _ "writer_stop s"]) (auto simp: sink_turn_def relay_work_def case_prod_beta)
qed (simp add: sink_turn_def)

lemma sees_work:
  assumes "reader_stop s \<or> matcher_stop s \<or> writer_stop s \<longrightarrow> stop_requested s"
  shows "s\<lparr>reader_stop := stop_requested s\<rparr> = s \<or> relay_work capacity (s\<lparr>reader_stop := stop_requested s\<rparr>) < relay_work capacity s"
    "s\<lparr>matcher_stop := stop_requested s\<rparr> = s \<or> relay_work capacity (s\<lparr>matcher_stop := stop_requested s\<rparr>) < relay_work capacity s"
    "s\<lparr>writer_stop := stop_requested s\<rparr> = s \<or> relay_work capacity (s\<lparr>writer_stop := stop_requested s\<rparr>) < relay_work capacity s"
    "s\<lparr>stop_requested := True\<rparr> = s \<or> relay_work capacity (s\<lparr>stop_requested := True\<rparr>) < relay_work capacity s"
proof -
  consider "reader_stop s = stop_requested s" | "\<not> reader_stop s" "stop_requested s" using assms by blast
  then show "s\<lparr>reader_stop := stop_requested s\<rparr> = s \<or> relay_work capacity (s\<lparr>reader_stop := stop_requested s\<rparr>) < relay_work capacity s"
    by cases (simp_all add: relay_work_def)
  consider "matcher_stop s = stop_requested s" | "\<not> matcher_stop s" "stop_requested s" using assms by blast
  then show "s\<lparr>matcher_stop := stop_requested s\<rparr> = s \<or> relay_work capacity (s\<lparr>matcher_stop := stop_requested s\<rparr>) < relay_work capacity s"
    by cases (simp_all add: relay_work_def)
  consider "writer_stop s = stop_requested s" | "\<not> writer_stop s" "stop_requested s" using assms by blast
  then show "s\<lparr>writer_stop := stop_requested s\<rparr> = s \<or> relay_work capacity (s\<lparr>writer_stop := stop_requested s\<rparr>) < relay_work capacity s"
    by cases (simp_all add: relay_work_def)
  show "s\<lparr>stop_requested := True\<rparr> = s \<or> relay_work capacity (s\<lparr>stop_requested := True\<rparr>) < relay_work capacity s"
    by (cases "stop_requested s") (simp_all add: relay_work_def)
qed

lemma relay_step_work:
  assumes "ring_ok capacity (order_queue s)" "ring_ok capacity (output_queue s)"
    and "reader_stop s \<or> matcher_stop s \<or> writer_stop s \<longrightarrow> stop_requested s"
    and "relay_step handler consume capacity s s'"
  shows "s' = s \<or> relay_work capacity s' < relay_work capacity s"
  using assms(4)
proof cases
  case (action a)
  then show ?thesis
    using source_turn_work [OF assms(1)] stage_turn_work [OF assms(1,2), of handler s'] sink_turn_work [OF assms(2), of consume]
      sees_work [OF assms(3), of capacity]
    by (cases a) auto
next
  case stop
  with sees_work(4) [OF assms(3)] show ?thesis by simp
qed

section \<open>The contract of the handlers\<close>

text \<open>
  \<open>rep b taken\<close> says that \<open>b\<close> is the stage's state after the events \<open>taken\<close>, \<open>out_of taken\<close> what it has
  emitted for them, \<open>written\<close> the sink's state after a list of events. The sentinels \<open>halt_in\<close> and
  \<open>halt_out\<close> end the two loops.
\<close>

locale relay =
  fixes handler :: "'e \<Rightarrow> 'b \<Rightarrow> (bool \<times> 'b \<times> 'o list) option"
    and consume :: "'o \<Rightarrow> 'w \<Rightarrow> bool \<times> 'w"
    and halt_in :: 'e and halt_out :: 'o and admissible :: "'e \<Rightarrow> bool"
    and rep :: "'b \<Rightarrow> 'e list \<Rightarrow> bool" and out_of :: "'e list \<Rightarrow> 'o list" and written :: "'o list \<Rightarrow> 'w"
  assumes out_Nil: "out_of [] = []"
    and handler_step: "rep b taken \<Longrightarrow> list_all admissible taken \<Longrightarrow> halt_in \<notin> set taken \<Longrightarrow> admissible e \<or> e = halt_in \<Longrightarrow>
      \<exists>b' evs. handler e b = Some (e = halt_in, b', evs) \<and> rep b' (taken @ [e]) \<and>
        out_of (taken @ [e]) = out_of taken @ evs"
    and out_plain: "list_all admissible taken \<Longrightarrow> halt_in \<notin> set taken \<Longrightarrow> halt_out \<notin> set (out_of taken)"
    and out_halt: "list_all admissible taken \<Longrightarrow> halt_in \<notin> set taken \<Longrightarrow>
      out_of (taken @ [halt_in]) = out_of taken @ [halt_out]"
    and consume_step: "consume ev (written evs) = (ev = halt_out, written (evs @ [ev]))"
begin

abbreviation plain :: "'e list \<Rightarrow> bool" where
  "plain es \<equiv> list_all admissible es \<and> halt_in \<notin> set es"

abbreviation whole_output :: "'e list \<Rightarrow> 'o list" where
  "whole_output es \<equiv> out_of (es @ [halt_in])"

text \<open>
  Where every event is: taken by the stage, in the ring, skipped by a source that has seen a stop, or still to be pushed;
  and the same for the output, where the stage may have dropped some.
\<close>

definition relay_inv :: "64 word \<Rightarrow> 'e list \<Rightarrow> ('e, 'b, 'o, 'w) relay_t \<Rightarrow> 'e list \<Rightarrow> 'e list \<Rightarrow> 'o list \<Rightarrow> bool" where
  "relay_inv capacity es s taken skipped dropped \<longleftrightarrow>
     es @ [halt_in] = taken @ ring_contents capacity (order_queue s) @ skipped @ reader_todo s \<and>
     out_of taken = handled s @ ring_contents capacity (output_queue s) @ dropped @ matcher_todo s \<and>
     ring_ok capacity (order_queue s) \<and> ring_ok capacity (output_queue s) \<and>
     rep (matcher_book s) taken \<and> sink s = written (handled s) \<and>
     (skipped \<noteq> [] \<longrightarrow> reader_stop s) \<and> (dropped \<noteq> [] \<longrightarrow> matcher_stop s) \<and>
     (matcher_phase s = Running \<longrightarrow> halt_in \<notin> set taken) \<and>
     (matcher_phase s \<noteq> Running \<longrightarrow> halt_in \<in> set taken \<or> matcher_stop s) \<and>
     (matcher_phase s = Finished \<longrightarrow> matcher_todo s = []) \<and>
     (writer_done s \<longrightarrow> halt_out \<in> set (handled s) \<or> writer_stop s) \<and>
     (halt_out \<in> set (handled s) \<longrightarrow> writer_done s) \<and>
     (reader_stop s \<or> matcher_stop s \<or> writer_stop s \<longrightarrow> stop_requested s)"

definition relay_ok :: "64 word \<Rightarrow> 'e list \<Rightarrow> ('e, 'b, 'o, 'w) relay_t \<Rightarrow> bool" where
  "relay_ok capacity es s \<longleftrightarrow> (\<exists>taken skipped dropped. relay_inv capacity es s taken skipped dropped)"

lemma relay_invD:
  assumes "relay_inv capacity es s taken skipped dropped"
  shows "es @ [halt_in] = taken @ ring_contents capacity (order_queue s) @ skipped @ reader_todo s"
    "out_of taken = handled s @ ring_contents capacity (output_queue s) @ dropped @ matcher_todo s"
    "ring_ok capacity (order_queue s)" "ring_ok capacity (output_queue s)" "rep (matcher_book s) taken"
    "matcher_phase s = Running \<Longrightarrow> halt_in \<notin> set taken" "sink s = written (handled s)"
    "reader_stop s \<or> matcher_stop s \<or> writer_stop s \<longrightarrow> stop_requested s"
  using assms by (simp_all add: relay_inv_def)

text \<open>The events taken are a beginning of the source's, and the sentinel is the last of them.\<close>

lemma taken_halt:
  assumes "plain es" "es @ [halt_in] = taken @ left" "halt_in \<in> set taken"
  shows "left = []" "taken = es @ [halt_in]"
proof -
  show "left = []" using assms by (intro snoc_in_prefix [OF assms(2,3)]) simp
  then show "taken = es @ [halt_in]" using assms(2) by simp
qed

lemma taken_plain:
  assumes "plain es" "es @ [halt_in] = taken @ left" "halt_in \<notin> set taken"
  shows "list_all admissible taken" "\<exists>left'. es = taken @ left'"
proof -
  obtain left' where l: "left = left' @ [halt_in]"
    using assms(2,3) by (cases left rule: rev_cases) auto
  then show "\<exists>left'. es = taken @ left'" using assms(2) by simp
  then show "list_all admissible taken" using assms(1) by auto
qed

lemma out_extends:
  assumes "rep b taken" "plain (taken @ left)"
  shows "\<exists>b' rest. rep b' (taken @ left) \<and> out_of (taken @ left) = out_of taken @ rest"
  using assms(2)
proof (induction left rule: rev_induct)
  case (snoc e left)
  then obtain b' rest where i: "rep b' (taken @ left)" "out_of (taken @ left) = out_of taken @ rest" by auto
  from handler_step [OF i(1), of e] snoc.prems i(2) show ?case by auto
qed (use assms(1) in auto)

lemma out_prefix:
  assumes "plain es" "relay_inv capacity es s taken skipped dropped"
  shows "\<exists>rest. whole_output es = out_of taken @ rest"
proof (cases "halt_in \<in> set taken")
  case True
  with taken_halt(2) [OF assms(1) relay_invD(1) [OF assms(2)]] show ?thesis by simp
next
  case False
  note t = taken_plain [OF assms(1) relay_invD(1) [OF assms(2)] False]
  then obtain left where es: "es = taken @ left" by blast
  with assms(1) out_extends [OF relay_invD(5) [OF assms(2)], of left] out_halt [of es] show ?thesis by auto
qed

lemma out_has_halt:
  assumes "plain es" "relay_inv capacity es s taken skipped dropped"
  shows "halt_out \<in> set (out_of taken) \<longleftrightarrow> halt_in \<in> set taken"
proof (cases "halt_in \<in> set taken")
  case True
  with taken_halt(2) [OF assms(1) relay_invD(1) [OF assms(2)]] out_halt [of es] assms(1) show ?thesis by simp
next
  case False
  with taken_plain(1) [OF assms(1) relay_invD(1) [OF assms(2)] False] out_plain show ?thesis by blast
qed

section \<open>Each turn keeps the invariant\<close>

lemma source_turn_inv:
  assumes "relay_inv capacity es s taken skipped dropped"
  shows "\<exists>skipped'. relay_inv capacity es (source_turn capacity s) taken skipped' dropped"
proof (cases "reader_todo s")
  case (Cons e todo)
  from relay_invD(3) [OF assms] show ?thesis
  proof (cases rule: push_attempt_cases [of _ _ "reader_stop s" e])
    case drop
    with assms show ?thesis by (intro exI [of _ "skipped @ [e]"]) (simp add: relay_inv_def source_turn_def Cons)
  next
    case full
    with assms show ?thesis by (intro exI [of _ skipped]) (simp add: relay_inv_def source_turn_def Cons)
  next
    case (room q)
    with assms show ?thesis by (intro exI [of _ "[]"]) (auto simp: relay_inv_def source_turn_def Cons)
  qed
qed (use assms in \<open>auto simp: source_turn_def\<close>)

lemma sink_turn_inv:
  assumes "relay_inv capacity es s taken skipped dropped"
  shows "relay_inv capacity es (sink_turn consume capacity s) taken skipped dropped"
proof (cases "writer_done s")
  case False
  from relay_invD(4) [OF assms] show ?thesis
  proof (cases rule: event_loop_poll_cases [of _ _ "writer_stop s"])
    case (handle ev q)
    have "sink_turn consume capacity s = s\<lparr>output_queue := q, sink := written (handled s @ [ev]),
        writer_done := ev = halt_out, handled := handled s @ [ev]\<rparr>"
      using False handle consume_step [of ev "handled s"] by (simp add: sink_turn_def relay_invD(7) [OF assms])
    with assms False handle show ?thesis by (auto simp: relay_inv_def)
  qed (use assms False in \<open>simp_all add: sink_turn_def relay_inv_def\<close>)
qed (use assms in \<open>simp add: sink_turn_def\<close>)

lemma stage_turn_push:
  assumes inv: "relay_inv capacity es s taken skipped dropped" and m: "matcher_todo s = ev # evs"
  shows "\<exists>s' dropped'. stage_turn handler capacity s = Some s' \<and> relay_inv capacity es s' taken skipped dropped'"
proof -
  from relay_invD(4) [OF inv] show ?thesis
  proof (cases rule: push_attempt_cases [of _ _ "matcher_stop s" ev])
    case drop
    with inv m show ?thesis by (intro exI conjI [OF _ exI [of _ "dropped @ [ev]"]]) (auto simp: relay_inv_def stage_turn_def)
  next
    case full
    with inv m show ?thesis by (auto simp: relay_inv_def stage_turn_def)
  next
    case (room q)
    with inv m show ?thesis by (auto simp: relay_inv_def stage_turn_def)
  qed
qed

lemma handler_taken:
  assumes inv: "relay_inv capacity es s taken skipped dropped" and es: "plain es" and p: "matcher_phase s = Running"
    and e: "ring_contents capacity (order_queue s) = e # rest"
  shows "\<exists>b evs. handler e (matcher_book s) = Some (e = halt_in, b, evs) \<and> rep b (taken @ [e]) \<and>
    out_of (taken @ [e]) = out_of taken @ evs"
proof -
  note t = relay_invD(6) [OF inv p]
  have "e \<in> set (es @ [halt_in])" unfolding relay_invD(1) [OF inv] by (simp add: e)
  then have "admissible e \<or> e = halt_in" using es by (auto simp: list_all_iff)
  from handler_step [OF relay_invD(5) [OF inv] taken_plain(1) [OF es relay_invD(1) [OF inv] t] t this] show ?thesis .
qed

lemma stage_turn_poll:
  assumes inv: "relay_inv capacity es s taken skipped dropped" and es: "plain es" and m: "matcher_todo s = []"
  shows "\<exists>s' taken'. stage_turn handler capacity s = Some s' \<and> relay_inv capacity es s' taken' skipped dropped"
proof (cases "matcher_phase s")
  case Running
  from relay_invD(3) [OF inv] show ?thesis
  proof (cases rule: event_loop_poll_cases [of _ _ "matcher_stop s"])
    case leave
    with inv m Running show ?thesis by (auto simp: stage_turn_def relay_inv_def)
  next
    case pause
    with inv m Running show ?thesis by (auto simp: stage_turn_def)
  next
    case (handle e q)
    from handler_taken [OF inv es Running handle(4)] obtain b evs where
      h: "handler e (matcher_book s) = Some (e = halt_in, b, evs)" "rep b (taken @ [e])"
        "out_of (taken @ [e]) = out_of taken @ evs" by blast
    let ?s = "s\<lparr>order_queue := q, matcher_book := b, matcher_todo := evs,
        matcher_phase := if e = halt_in then Leaving else Running\<rparr>"
    have "stage_turn handler capacity s = Some ?s" using Running m h(1) handle(2) by (simp add: stage_turn_def)
    moreover have "relay_inv capacity es ?s (taken @ [e]) skipped dropped"
      using inv m handle h(2,3) Running by (auto simp: relay_inv_def)
    ultimately show ?thesis by blast
  qed
next
  case Leaving
  with inv m show ?thesis by (auto simp: stage_turn_def relay_inv_def)
qed (use inv m in \<open>auto simp: stage_turn_def\<close>)

lemma stage_turn_inv:
  assumes "relay_inv capacity es s taken skipped dropped" "plain es"
  shows "\<exists>s'. stage_turn handler capacity s = Some s' \<and> relay_ok capacity es s'"
  using stage_turn_push [OF assms(1)] stage_turn_poll [OF assms] unfolding relay_ok_def by (cases "matcher_todo s") blast+

lemma stop_inv:
  assumes "relay_inv capacity es s taken skipped dropped"
  shows "relay_inv capacity es (s\<lparr>reader_stop := stop_requested s\<rparr>) taken skipped dropped"
    "relay_inv capacity es (s\<lparr>matcher_stop := stop_requested s\<rparr>) taken skipped dropped"
    "relay_inv capacity es (s\<lparr>writer_stop := stop_requested s\<rparr>) taken skipped dropped"
    "relay_inv capacity es (s\<lparr>stop_requested := True\<rparr>) taken skipped dropped"
  using assms by (simp_all add: relay_inv_def) blast+

lemma relay_act_total:
  assumes "relay_ok capacity es s" "plain es"
  shows "\<exists>s'. relay_act handler consume capacity a s = Some s'"
proof -
  from assms(1) obtain taken skipped dropped where inv: "relay_inv capacity es s taken skipped dropped" by (auto simp: relay_ok_def)
  from stage_turn_inv [OF inv assms(2)] show ?thesis by (cases a) auto
qed

section \<open>Every schedule\<close>

lemma relay_ok_step:
  assumes es: "plain es" and "relay_step handler consume capacity s s'" "relay_ok capacity es s"
  shows "relay_ok capacity es s'"
proof -
  from assms(3) obtain taken skipped dropped where inv: "relay_inv capacity es s taken skipped dropped"
    by (auto simp: relay_ok_def)
  from assms(2) show ?thesis
  proof cases
    case (action a)
    then show ?thesis
      using source_turn_inv [OF inv] sink_turn_inv [OF inv] stage_turn_inv [OF inv es] stop_inv [OF inv]
      by (cases a) (auto simp: relay_ok_def)
  qed (use stop_inv(4) [OF inv] in \<open>auto simp: relay_ok_def\<close>)
qed

lemma relay_ok_init:
  assumes "plain es" "rep b []" "ring_ok capacity orders" "ring_contents capacity orders = []"
    and "ring_ok capacity outputs" "ring_contents capacity outputs = []"
  shows "relay_ok capacity es (relay_init orders outputs (es @ [halt_in]) b (written []))"
proof -
  have "relay_inv capacity es (relay_init orders outputs (es @ [halt_in]) b (written [])) [] [] []"
    using assms by (simp add: relay_inv_def relay_init_def out_Nil)
  then show ?thesis unfolding relay_ok_def by blast
qed

lemma steps_ok:
  assumes "(relay_step handler consume capacity)\<^sup>*\<^sup>* s s'" "relay_ok capacity es s" "plain es"
  shows "relay_ok capacity es s'"
  using assms(1,2) by (induction rule: rtranclp_induct) (auto intro: relay_ok_step [OF assms(3)])

text \<open>What the sink has consumed is the beginning of the output, and all of it once it has seen the sentinel.\<close>

lemma sink_prefix:
  assumes "relay_ok capacity es s" "plain es"
  shows "\<exists>rest. whole_output es = handled s @ rest" "sink s = written (handled s)"
proof -
  from assms(1) obtain taken skipped dropped where inv: "relay_inv capacity es s taken skipped dropped"
    by (auto simp: relay_ok_def)
  from out_prefix [OF assms(2) inv] relay_invD(2) [OF inv] show "\<exists>rest. whole_output es = handled s @ rest" by auto
  show "sink s = written (handled s)" by (rule relay_invD(7) [OF inv])
qed

lemma sink_done_rest:
  assumes "relay_inv capacity es s taken skipped dropped" "halt_out \<in> set (handled s)" "plain es"
  shows "taken = es @ [halt_in]" "reader_todo s = []" "matcher_todo s = []" "matcher_phase s \<noteq> Running"
    "handled s = whole_output es"
proof -
  note D = relay_invD [OF assms(1)]
  have "halt_out \<in> set (out_of taken)" unfolding D(2) using assms(2) by simp
  then have t: "halt_in \<in> set taken" using out_has_halt [OF assms(3,1)] by simp
  then show "matcher_phase s \<noteq> Running" using D(6) by blast
  show all: "taken = es @ [halt_in]" by (rule taken_halt(2) [OF assms(3) D(1) t])
  with D(1) show "reader_todo s = []" by simp
  let ?rest = "ring_contents capacity (output_queue s) @ dropped @ matcher_todo s"
  have "out_of es @ [halt_out] = handled s @ ?rest" using D(2) out_halt [of es] assms(3) by (simp add: all)
  then have "?rest = []" using assms(2,3) out_plain [of es] by (intro snoc_in_prefix [of _ _ "handled s"]) simp_all
  with D(2) all show "matcher_todo s = []" "handled s = whole_output es" by simp_all
qed

lemma sink_saw_halt:
  assumes "relay_ok capacity es s" "writer_done s" "\<not> writer_stop s"
  obtains taken skipped dropped where "relay_inv capacity es s taken skipped dropped" "halt_out \<in> set (handled s)"
  using assms by (auto simp: relay_ok_def relay_inv_def)

lemma final_sink:
  assumes "relay_ok capacity es s" "writer_done s" "\<not> writer_stop s" "plain es"
  shows "sink s = written (whole_output es)"
  using sink_saw_halt [OF assms(1-3)] sink_done_rest(5) [OF _ _ assms(4)] sink_prefix(2) [OF assms(1,4)] by metis

lemma final_stage:
  assumes "relay_ok capacity es s" "writer_done s" "\<not> writer_stop s" "plain es"
  shows "rep (matcher_book s) (es @ [halt_in])"
  using sink_saw_halt [OF assms(1-3)] sink_done_rest(1) [OF _ _ assms(4)] relay_invD(5) by metis

section \<open>Progress\<close>

text \<open>Once every token reports the stop, each agent that has not returned has a turn that brings it closer.\<close>

lemma helpful_stopped:
  assumes "stop_requested s" "\<not> all_joined s"
  shows "\<exists>a s'. relay_act handler consume capacity a s = Some s' \<and> s' \<noteq> s"
proof -
  consider "\<not> reader_stop s" | "\<not> matcher_stop s" | "\<not> writer_stop s"
    | "reader_stop s" "reader_todo s \<noteq> []" | "matcher_stop s" "matcher_todo s \<noteq> []"
    | "matcher_stop s" "matcher_todo s = []" "matcher_phase s \<noteq> Finished" | "writer_stop s" "\<not> writer_done s"
    using assms(2) by (auto simp: all_joined_def)
  then show ?thesis
  proof cases
    case 1
    with assms(1) show ?thesis by (intro relay_act_changes [of _ _ _ Source_sees _ _ reader_stop]) auto
  next
    case 2
    with assms(1) show ?thesis by (intro relay_act_changes [of _ _ _ Stage_sees _ _ matcher_stop]) auto
  next
    case 3
    with assms(1) show ?thesis by (intro relay_act_changes [of _ _ _ Sink_sees _ _ writer_stop]) auto
  next
    case 4
    then show ?thesis by (cases "reader_todo s") (auto intro!: relay_act_changes [of _ _ _ Source_turn _ _ reader_todo] simp: source_turn_def)
  next
    case 5
    then show ?thesis by (cases "matcher_todo s") (auto intro!: relay_act_changes [of _ _ _ Stage_turn _ _ matcher_todo] simp: stage_turn_def)
  next
    case 6
    then show ?thesis
      by (intro relay_act_changes [of _ _ _ Stage_turn _ "s\<lparr>matcher_phase := Finished\<rparr>" matcher_phase])
        (cases "matcher_phase s"; simp add: stage_turn_def)+
  next
    case 7
    then show ?thesis by (intro relay_act_changes [of _ _ _ Sink_turn _ _ writer_done]) (auto simp: sink_turn_def)
  qed
qed

text \<open>Without a stop the agents never wait for each other in a circle.\<close>

lemma helpful_full_output:
  assumes inv: "relay_inv capacity es s taken skipped dropped" and "undisturbed s" "\<not> writer_done s"
    and "ring_contents capacity (output_queue s) \<noteq> []"
  shows "\<exists>a s'. relay_act handler consume capacity a s = Some s' \<and> s' \<noteq> s"
proof -
  have w: "\<not> writer_stop s" using assms(2) by (simp add: undisturbed_def)
  from relay_invD(4) [OF inv] show ?thesis
  proof (cases rule: event_loop_poll_cases [of _ _ "writer_stop s"])
    case (handle ev q)
    then have "relay_act handler consume capacity Sink_turn s = Some (s\<lparr>output_queue := q, sink := snd (consume ev (sink s)),
        writer_done := fst (consume ev (sink s)), handled := handled s @ [ev]\<rparr>)"
      using assms(3) by (simp add: sink_turn_def case_prod_beta)
    then show ?thesis by (rule relay_act_changes [where f = handled]) simp
  qed (use w assms(4) in simp_all)
qed

lemma helpful_empty_output:
  assumes inv: "relay_inv capacity es s taken skipped dropped" and "undisturbed s"
    and "ring_contents capacity (output_queue s) = []" "matcher_todo s = ev # evs"
  shows "\<exists>a s'. relay_act handler consume capacity a s = Some s' \<and> s' \<noteq> s"
proof -
  have w: "\<not> matcher_stop s" using assms(2) by (simp add: undisturbed_def)
  from relay_invD(4) [OF inv] show ?thesis
  proof (cases rule: push_attempt_cases [of _ _ "matcher_stop s" ev])
    case (room q)
    then have "relay_act handler consume capacity Stage_turn s = Some (s\<lparr>output_queue := q, matcher_todo := evs\<rparr>)"
      using assms(4) by (simp add: stage_turn_def)
    then show ?thesis by (rule relay_act_changes [where f = matcher_todo]) (simp add: assms(4))
  qed (use w assms(3) in simp_all)
qed

lemma helpful_full_orders:
  assumes inv: "relay_inv capacity es s taken skipped dropped" and es: "plain es" and "undisturbed s"
    and "matcher_todo s = []" "matcher_phase s = Running" "ring_contents capacity (order_queue s) \<noteq> []"
  shows "\<exists>a s'. relay_act handler consume capacity a s = Some s' \<and> s' \<noteq> s"
proof -
  have w: "\<not> matcher_stop s" using assms(3) by (simp add: undisturbed_def)
  from relay_invD(3) [OF inv] show ?thesis
  proof (cases rule: event_loop_poll_cases [of _ _ "matcher_stop s"])
    case (handle e q)
    from handler_taken [OF inv es assms(5) handle(4)] obtain b out where
      "handler e (matcher_book s) = Some (e = halt_in, b, out)" by blast
    with handle assms(4,5) have "relay_act handler consume capacity Stage_turn s = Some (s\<lparr>order_queue := q, matcher_book := b,
        matcher_todo := out, matcher_phase := if e = halt_in then Leaving else Running\<rparr>)" by (simp add: stage_turn_def)
    then show ?thesis
      by (rule relay_act_changes [where f = "\<lambda>s. length (ring_contents capacity (order_queue s))"]) (simp add: handle(4))
  qed (use w assms(6) in simp_all)
qed

lemma helpful_empty_orders:
  assumes inv: "relay_inv capacity es s taken skipped dropped" and "undisturbed s"
    and "ring_contents capacity (order_queue s) = []" "reader_todo s = e # todo"
  shows "\<exists>a s'. relay_act handler consume capacity a s = Some s' \<and> s' \<noteq> s"
proof -
  have w: "\<not> reader_stop s" using assms(2) by (simp add: undisturbed_def)
  from relay_invD(3) [OF inv] show ?thesis
  proof (cases rule: push_attempt_cases [of _ _ "reader_stop s" e])
    case (room q)
    then have "relay_act handler consume capacity Source_turn s = Some (s\<lparr>order_queue := q, reader_todo := todo\<rparr>)"
      using assms(4) by (simp add: source_turn_def)
    then show ?thesis by (rule relay_act_changes [where f = reader_todo]) (simp add: assms(4))
  qed (use w assms(3) in simp_all)
qed

lemma helpful_undisturbed:
  assumes inv: "relay_inv capacity es s taken skipped dropped" and es: "plain es" and q: "undisturbed s" and j: "\<not> all_joined s"
  shows "\<exists>a s'. relay_act handler consume capacity a s = Some s' \<and> s' \<noteq> s"
proof (cases "writer_done s")
  case True
  then have "halt_out \<in> set (handled s)" using inv q by (auto simp: relay_inv_def undisturbed_def)
  from sink_done_rest [OF inv this es] True j have "matcher_phase s = Leaving" "matcher_todo s = []"
    by (cases "matcher_phase s"; simp add: all_joined_def)+
  then show ?thesis by (intro relay_act_changes [of _ _ _ Stage_turn _ _ matcher_phase], simp add: stage_turn_def, simp)
next
  case False
  then have n: "halt_out \<notin> set (handled s)" using inv by (auto simp: relay_inv_def)
  have k: "skipped = []" "dropped = []" using inv q by (auto simp: relay_inv_def undisturbed_def)
  consider "ring_contents capacity (output_queue s) \<noteq> []"
    | ev evs where "ring_contents capacity (output_queue s) = []" "matcher_todo s = ev # evs"
    | "ring_contents capacity (output_queue s) = []" "matcher_todo s = []" by (cases "matcher_todo s") auto
  then show ?thesis
  proof cases
    case 3
    then have h: "halt_in \<notin> set taken" using relay_invD(2) [OF inv] n out_has_halt [OF es inv] by (simp add: k)
    then have p: "matcher_phase s = Running" using inv q by (auto simp: relay_inv_def undisturbed_def)
    show ?thesis
    proof (cases "ring_contents capacity (order_queue s) = []")
      case True
      then obtain e todo where "reader_todo s = e # todo"
        using relay_invD(1) [OF inv] h by (cases "reader_todo s") (auto simp: k)
      with True show ?thesis by (rule helpful_empty_orders [OF inv q])
    qed (rule helpful_full_orders [OF inv es q 3(2) p])
  qed (use helpful_full_output [OF inv q False] helpful_empty_output [OF inv q] in blast)+
qed

lemma relay_ok_helpful:
  assumes "relay_ok capacity es s" "plain es" "\<not> all_joined s"
  shows "\<exists>a s'. relay_act handler consume capacity a s = Some s' \<and> s' \<noteq> s"
proof -
  from assms(1) obtain taken skipped dropped where inv: "relay_inv capacity es s taken skipped dropped"
    by (auto simp: relay_ok_def)
  show ?thesis
  proof (cases "stop_requested s")
    case True
    then show ?thesis by (rule helpful_stopped [OF _ assms(3)])
  next
    case False
    with relay_invD(8) [OF inv] have "undisturbed s" by (auto simp: undisturbed_def)
    then show ?thesis by (rule helpful_undisturbed [OF inv assms(2) _ assms(3)])
  qed
qed

end

text \<open>So the agents satisfy the contract of progress, with all agents joined as the end.\<close>

sublocale relay \<subseteq> agents: progress "relay_act handler consume capacity" "relay_step handler consume capacity"
  "\<lambda>s. plain es \<and> relay_ok capacity es s" "relay_work capacity" all_joined for capacity es
proof unfold_locales
  show "relay_step handler consume capacity s s'" if "relay_act handler consume capacity a s = Some s'" for a s s'
    using that by (rule relay_step.action)
  show "\<exists>s'. relay_act handler consume capacity a s = Some s'" if "plain es \<and> relay_ok capacity es s" for a s
    using that relay_act_total by blast
  show "plain es \<and> relay_ok capacity es s'" if "plain es \<and> relay_ok capacity es s" "relay_step handler consume capacity s s'" for s s'
    using that relay_ok_step by blast
  show "s' = s \<or> relay_work capacity s' < relay_work capacity s"
    if "plain es \<and> relay_ok capacity es s" "relay_step handler consume capacity s s'" for s s'
    using that relay_step_work [OF relay_invD(3,4,8)] unfolding relay_ok_def by blast
  show "\<exists>a s'. relay_act handler consume capacity a s = Some s' \<and> s' \<noteq> s"
    if "plain es \<and> relay_ok capacity es s" "\<not> all_joined s" for s
    using that relay_ok_helpful by blast
qed

end
