(* ===== verification/Relay_Access.thy ===== *)
theory Relay_Access
  imports Relay Spsc_Concurrent
begin

text \<open>
  The agents of the theory \<^verbatim>\<open>Relay\<close> down to the atomic accesses of their two rings: a turn is no longer a
  whole \<^verbatim>\<open>try_push\<close> or \<^verbatim>\<open>try_pop\<close> but the next load or store of it, the accesses of all agents interleave
  in any order, and every index an agent loads from the other side of a ring, and the stop state its
  token returns, may be out of date. These agents implement those with whole operations: the
  store that ends an operation is the moment it takes effect.
\<close>

section \<open>The agents\<close>

type_synonym ('e, 'b, 'o, 'w) access_t = "('e, 'b, 'o, 'w, 'e spsc_system, 'o spsc_system) wiring_t"

definition source_access :: "64 word \<Rightarrow> ('e, 'b, 'o, 'w) access_t \<Rightarrow> ('e, 'b, 'o, 'w) access_t" where
  "source_access capacity f =
     (case reader_todo f of
        [] \<Rightarrow> f
      | e # es \<Rightarrow>
          if reader_stop f then f\<lparr>reader_todo := es\<rparr>
          else (let (pushed, q) = producer_access capacity e (order_queue f)
                in f\<lparr>order_queue := q, reader_todo := if pushed then es else e # es\<rparr>))"

definition stage_access ::
    "('e \<Rightarrow> 'b \<Rightarrow> (bool \<times> 'b \<times> 'o list) option) \<Rightarrow> 64 word \<Rightarrow> ('e, 'b, 'o, 'w) access_t \<Rightarrow>
     ('e, 'b, 'o, 'w) access_t option" where
  "stage_access handler capacity f =
     (case matcher_todo f of
        ev # evs \<Rightarrow>
          if matcher_stop f then Some (f\<lparr>matcher_todo := evs\<rparr>)
          else (let (pushed, q) = producer_access capacity ev (output_queue f)
                in Some (f\<lparr>output_queue := q, matcher_todo := if pushed then evs else ev # evs\<rparr>))
      | [] \<Rightarrow>
          (case matcher_phase f of
             Finished \<Rightarrow> Some f
           | Leaving \<Rightarrow> Some (f\<lparr>matcher_phase := Finished\<rparr>)
           | Running \<Rightarrow>
               if matcher_stop f then Some (f\<lparr>matcher_phase := Finished\<rparr>)
               else (case consumer_access capacity (order_queue f) of
                       (None, q) \<Rightarrow> Some (f\<lparr>order_queue := q\<rparr>)
                     | (Some event, q) \<Rightarrow>
                         (case handler event (matcher_book f) of
                            None \<Rightarrow> None
                          | Some (leave, book, evs) \<Rightarrow>
                              Some (f\<lparr>order_queue := q, matcher_book := book, matcher_todo := evs,
                                     matcher_phase := if leave then Leaving else Running\<rparr>)))))"

definition sink_access ::
    "('o \<Rightarrow> 'w \<Rightarrow> bool \<times> 'w) \<Rightarrow> 64 word \<Rightarrow> ('e, 'b, 'o, 'w) access_t \<Rightarrow> ('e, 'b, 'o, 'w) access_t" where
  "sink_access consume capacity f =
     (if writer_done f then f
      else if writer_stop f then f\<lparr>writer_done := True\<rparr>
      else (case consumer_access capacity (output_queue f) of
              (None, q) \<Rightarrow> f\<lparr>output_queue := q\<rparr>
            | (Some event, q) \<Rightarrow>
                (let (leave, w) = consume event (sink f)
                 in f\<lparr>output_queue := q, sink := w, writer_done := leave, handled := handled f @ [event]\<rparr>)))"

text \<open>
  An agent asks its token at the head of a loop, so never in the middle of an operation. The four
  views of indices move at any time.
\<close>

datatype access_action =
    Source_access | Stage_access | Sink_access
  | Reader_token | Matcher_token | Writer_token
  | Order_tail | Order_head | Output_tail | Output_head

fun access_act ::
    "('e \<Rightarrow> 'b \<Rightarrow> (bool \<times> 'b \<times> 'o list) option) \<Rightarrow> ('o \<Rightarrow> 'w \<Rightarrow> bool \<times> 'w) \<Rightarrow> 64 word \<Rightarrow> access_action \<Rightarrow>
     ('e, 'b, 'o, 'w) access_t \<Rightarrow> ('e, 'b, 'o, 'w) access_t option" where
  "access_act handler consume capacity Source_access f = Some (source_access capacity f)"
| "access_act handler consume capacity Stage_access f = stage_access handler capacity f"
| "access_act handler consume capacity Sink_access f = Some (sink_access consume capacity f)"
| "access_act handler consume capacity Reader_token f =
     (if producer (order_queue f) = P_idle then Some (f\<lparr>reader_stop := stop_requested f\<rparr>) else None)"
| "access_act handler consume capacity Matcher_token f =
     (if consumer (order_queue f) = C_idle \<and> producer (output_queue f) = P_idle
      then Some (f\<lparr>matcher_stop := stop_requested f\<rparr>) else None)"
| "access_act handler consume capacity Writer_token f =
     (if consumer (output_queue f) = C_idle then Some (f\<lparr>writer_stop := stop_requested f\<rparr>) else None)"
| "access_act handler consume capacity Order_tail f = Some (f\<lparr>order_queue := see_tail (order_queue f)\<rparr>)"
| "access_act handler consume capacity Order_head f = Some (f\<lparr>order_queue := see_head (order_queue f)\<rparr>)"
| "access_act handler consume capacity Output_tail f = Some (f\<lparr>output_queue := see_tail (output_queue f)\<rparr>)"
| "access_act handler consume capacity Output_head f = Some (f\<lparr>output_queue := see_head (output_queue f)\<rparr>)"

definition access_move ::
    "('e \<Rightarrow> 'b \<Rightarrow> (bool \<times> 'b \<times> 'o list) option) \<Rightarrow> ('o \<Rightarrow> 'w \<Rightarrow> bool \<times> 'w) \<Rightarrow> 64 word \<Rightarrow>
     ('e, 'b, 'o, 'w) access_t \<Rightarrow> ('e, 'b, 'o, 'w) access_t \<Rightarrow> bool" where
  "access_move handler consume capacity f f' \<longleftrightarrow> (\<exists>a. access_act handler consume capacity a f = Some f')"

inductive access_step ::
    "('e \<Rightarrow> 'b \<Rightarrow> (bool \<times> 'b \<times> 'o list) option) \<Rightarrow> ('o \<Rightarrow> 'w \<Rightarrow> bool \<times> 'w) \<Rightarrow> 64 word \<Rightarrow>
     ('e, 'b, 'o, 'w) access_t \<Rightarrow> ('e, 'b, 'o, 'w) access_t \<Rightarrow> bool"
  for handler consume capacity where
  move: "access_move handler consume capacity f f' \<Longrightarrow> access_step handler consume capacity f f'"
| stop: "access_step handler consume capacity f (f\<lparr>stop_requested := True\<rparr>)"

lemma access_moveI: "access_act handler consume capacity a f = Some f' \<Longrightarrow> access_move handler consume capacity f f'"
  by (auto simp: access_move_def)

section \<open>They implement the agents with whole operations\<close>

definition coarse ::
    "('e, 'b, 'o, 'w, 'p, 'q) wiring_t \<Rightarrow> 'e spsc_queue_t \<Rightarrow> 'o spsc_queue_t \<Rightarrow> ('e, 'b, 'o, 'w) relay_t" where
  "coarse f orders outputs =
     \<lparr>stop_requested = stop_requested f, reader_stop = reader_stop f, matcher_stop = matcher_stop f,
      writer_stop = writer_stop f, reader_todo = reader_todo f, order_queue = orders,
      matcher_phase = matcher_phase f, matcher_book = matcher_book f, matcher_todo = matcher_todo f,
      output_queue = outputs, writer_done = writer_done f, sink = sink f, handled = handled f\<rparr>"

lemma coarse_simps [simp]:
  "stop_requested (coarse f p q) = stop_requested f" "reader_stop (coarse f p q) = reader_stop f"
  "matcher_stop (coarse f p q) = matcher_stop f" "writer_stop (coarse f p q) = writer_stop f"
  "reader_todo (coarse f p q) = reader_todo f" "order_queue (coarse f p q) = p"
  "matcher_phase (coarse f p q) = matcher_phase f" "matcher_book (coarse f p q) = matcher_book f"
  "matcher_todo (coarse f p q) = matcher_todo f" "output_queue (coarse f p q) = q"
  "writer_done (coarse f p q) = writer_done f" "sink (coarse f p q) = sink f" "handled (coarse f p q) = handled f"
  by (simp_all add: coarse_def)

text \<open>A push under way is of the event its agent has next, and the agent has not seen a stop.\<close>

definition pushes_next :: "'a producer_t \<Rightarrow> 'a list \<Rightarrow> bool \<Rightarrow> bool" where
  "pushes_next p todo stopped \<longleftrightarrow> (\<forall>v. pushing p = Some v \<longrightarrow> \<not> stopped \<and> (\<exists>rest. todo = v # rest))"

definition access_rel :: "64 word \<Rightarrow> ('e, 'b, 'o, 'w) access_t \<Rightarrow> ('e, 'b, 'o, 'w) relay_t \<Rightarrow> bool" where
  "access_rel capacity f r \<longleftrightarrow>
     r = coarse f (order_queue r) (output_queue r) \<and>
     ring_abs capacity (order_queue f) (order_queue r) \<and> ring_abs capacity (output_queue f) (output_queue r) \<and>
     pushes_next (producer (order_queue f)) (reader_todo f) (reader_stop f) \<and>
     pushes_next (producer (output_queue f)) (matcher_todo f) (matcher_stop f)"

lemma access_relI:
  assumes "ring_abs capacity (order_queue f) p" "ring_abs capacity (output_queue f) q"
    and "pushes_next (producer (order_queue f)) (reader_todo f) (reader_stop f)"
    and "pushes_next (producer (output_queue f)) (matcher_todo f) (matcher_stop f)"
  shows "access_rel capacity f (coarse f p q)"
  using assms by (simp add: access_rel_def)

lemma access_relE:
  assumes "access_rel capacity f r"
  obtains p q where "r = coarse f p q" "ring_abs capacity (order_queue f) p" "ring_abs capacity (output_queue f) q"
    "pushes_next (producer (order_queue f)) (reader_todo f) (reader_stop f)"
    "pushes_next (producer (output_queue f)) (matcher_todo f) (matcher_stop f)"
  using assms that [of "order_queue r" "output_queue r"] by (simp add: access_rel_def)

text \<open>An access of a ring moves one thread and leaves the other where it was.\<close>

lemma pushes_next_idle [simp]: "pushes_next P_idle todo stopped"
  by (simp add: pushes_next_def)

lemma pushes_next_iff:
  "pushes_next p todo stopped \<longleftrightarrow> p = P_idle \<or> \<not> stopped \<and> (\<exists>v rest. pushing p = Some v \<and> todo = v # rest)"
  by (cases p) (auto simp: pushes_next_def)

lemma consumer_access_producer: "consumer_access capacity s = (r, s') \<Longrightarrow> producer s' = producer s"
  by (auto simp: consumer_access_def split: consumer_t.splits)

lemma see_producer [simp]: "producer (see_tail s) = producer s" "producer (see_head s) = producer s"
  by (simp_all add: see_tail_def see_head_def)

text \<open>An access of a push: the whole push at its last access, nothing before.\<close>

lemma push_access_sim:
  assumes "ring_abs capacity s p" "producer_access capacity v s = (b, s')" "pushes_next (producer s) (v # rest) stopped" "\<not> stopped"
  shows "\<exists>p'. ring_abs capacity s' p' \<and> (if b then try_push capacity v p = (True, p') else p' = p) \<and>
    pushes_next (producer s') (if b then rest else v # rest) stopped"
proof -
  have "pushing (producer s) \<in> {None, Some v}" using assms(3) by (auto simp: pushes_next_iff)
  note abs = producer_access_abs [OF assms(1,2) this]
  have "pushes_next (producer s') (if b then rest else v # rest) stopped"
    using assms(2-4) by (cases "producer s") (auto simp: producer_access_def pushes_next_def split: if_splits)
  with abs show ?thesis by (cases b) auto
qed

lemma source_access_sim:
  assumes "access_rel capacity f r"
  shows "\<exists>r'. (r' = r \<or> r' = source_turn capacity r) \<and> access_rel capacity (source_access capacity f) r'"
proof (cases "reader_todo f")
  case (Cons e es)
  from assms obtain p q where r: "r = coarse f p q" "ring_abs capacity (order_queue f) p" "ring_abs capacity (output_queue f) q"
    "pushes_next (producer (order_queue f)) (reader_todo f) (reader_stop f)"
    "pushes_next (producer (output_queue f)) (matcher_todo f) (matcher_stop f)" by (rule access_relE)
  show ?thesis
  proof (cases "reader_stop f")
    case True
    let ?f = "f\<lparr>reader_todo := es\<rparr>"
    have "source_turn capacity r = coarse ?f p q" using True Cons by (simp add: r(1) source_turn_def coarse_def)
    moreover have "access_rel capacity ?f (coarse ?f p q)" using r(2-5) True by (intro access_relI) (auto simp: pushes_next_iff)
    ultimately show ?thesis using True Cons by (auto simp: source_access_def)
  next
    case False
    obtain b s' where a: "producer_access capacity e (order_queue f) = (b, s')" by fastforce
    let ?f = "f\<lparr>order_queue := s', reader_todo := if b then es else e # es\<rparr>"
    from push_access_sim [OF r(2) a r(4) [unfolded Cons] False] obtain p' where
      p': "ring_abs capacity s' p'" "if b then try_push capacity e p = (True, p') else p' = p"
        "pushes_next (producer s') (if b then es else e # es) (reader_stop f)" by blast
    have "coarse ?f p' q = (if b then source_turn capacity r else r)"
      using Cons False p'(2) by (cases b) (simp_all add: r(1) source_turn_def coarse_def)
    moreover have "access_rel capacity ?f (coarse ?f p' q)" using p'(1,3) r(3,5) by (intro access_relI) simp_all
    ultimately show ?thesis using Cons False a by (auto simp: source_access_def)
  qed
qed (use assms in \<open>auto simp: source_access_def\<close>)

lemma stage_push_sim:
  assumes "access_rel capacity f r" "matcher_todo f = ev # evs"
  shows "\<exists>f' r'. stage_access handler capacity f = Some f' \<and> (r' = r \<or> stage_turn handler capacity r = Some r') \<and> access_rel capacity f' r'"
proof -
  from assms(1) obtain p q where r: "r = coarse f p q" "ring_abs capacity (order_queue f) p" "ring_abs capacity (output_queue f) q"
    "pushes_next (producer (order_queue f)) (reader_todo f) (reader_stop f)"
    "pushes_next (producer (output_queue f)) (matcher_todo f) (matcher_stop f)" by (rule access_relE)
  show ?thesis
  proof (cases "matcher_stop f")
    case True
    let ?f = "f\<lparr>matcher_todo := evs\<rparr>"
    have "stage_turn handler capacity r = Some (coarse ?f p q)" using True assms(2) by (simp add: r(1) stage_turn_def coarse_def)
    moreover have "access_rel capacity ?f (coarse ?f p q)" using r(2-5) True by (intro access_relI) (auto simp: pushes_next_iff)
    ultimately show ?thesis using True assms(2) by (auto simp: stage_access_def)
  next
    case False
    obtain b s' where a: "producer_access capacity ev (output_queue f) = (b, s')" by fastforce
    let ?f = "f\<lparr>output_queue := s', matcher_todo := if b then evs else ev # evs\<rparr>"
    from push_access_sim [OF r(3) a r(5) [unfolded assms(2)] False] obtain q' where
      q': "ring_abs capacity s' q'" "if b then try_push capacity ev q = (True, q') else q' = q"
        "pushes_next (producer s') (if b then evs else ev # evs) (matcher_stop f)" by blast
    have "if b then stage_turn handler capacity r = Some (coarse ?f p q') else coarse ?f p q' = r"
      using assms(2) False q'(2) by (cases b) (simp_all add: r(1) stage_turn_def coarse_def)
    moreover have "access_rel capacity ?f (coarse ?f p q')" using q'(1,3) r(2,4) by (intro access_relI) simp_all
    moreover have "stage_access handler capacity f = Some ?f" using assms(2) False a by (simp add: stage_access_def)
    ultimately show ?thesis by (cases b) auto
  qed
qed

lemma stage_poll_sim:
  assumes "access_rel capacity f r" "matcher_todo f = []" "stage_access handler capacity f = Some f'"
  shows "\<exists>r'. (r' = r \<or> stage_turn handler capacity r = Some r') \<and> access_rel capacity f' r'"
proof -
  from assms(1) obtain p q where r: "r = coarse f p q" "ring_abs capacity (order_queue f) p" "ring_abs capacity (output_queue f) q"
    "pushes_next (producer (order_queue f)) (reader_todo f) (reader_stop f)"
    "pushes_next (producer (output_queue f)) (matcher_todo f) (matcher_stop f)" by (rule access_relE)
  have idle: "producer (output_queue f) = P_idle" using r(5) assms(2) by (auto simp: pushes_next_iff)
  let ?done = "f\<lparr>matcher_phase := Finished\<rparr>"
  have fin: "access_rel capacity ?done (coarse ?done p q)" using r by (intro access_relI) simp_all
  show ?thesis
  proof (cases "matcher_phase f = Running \<and> \<not> matcher_stop f")
    case False
    then have "matcher_phase f = Finished \<and> f' = f \<or> matcher_phase f \<noteq> Finished \<and> f' = ?done \<and> stage_turn handler capacity r = Some (coarse ?done p q)"
      using assms(2,3) by (cases "matcher_phase f") (auto simp: r(1) stage_access_def stage_turn_def coarse_def)
    with fin assms(1) show ?thesis by auto
  next
    case True
    obtain res s' where a: "consumer_access capacity (order_queue f) = (res, s')" by fastforce
    note c = consumer_access_abs [OF r(2) a] consumer_access_producer [OF a]
    show ?thesis
    proof (cases res)
      case None
      let ?f = "f\<lparr>order_queue := s'\<rparr>"
      have "f' = ?f" using True a None assms(2,3) by (simp add: stage_access_def)
      moreover have "coarse ?f p q = r" by (simp add: r(1) coarse_def)
      moreover have "access_rel capacity ?f (coarse ?f p q)" using c None r by (intro access_relI) simp_all
      ultimately show ?thesis by auto
    next
      case (Some e)
      with True a assms(2,3) obtain l b evs where h: "handler e (matcher_book f) = Some (l, b, evs)"
        by (auto simp: stage_access_def split: option.splits)
      let ?f = "f\<lparr>order_queue := s', matcher_book := b, matcher_todo := evs, matcher_phase := if l then Leaving else Running\<rparr>"
      from c Some obtain p' where p': "try_pop capacity p = Some (e, p')" "ring_abs capacity s' p'" by auto
      have "f' = ?f" using True a Some h assms(2,3) by (simp add: stage_access_def)
      moreover have "stage_turn handler capacity r = Some (coarse ?f p' q)"
        using True h p'(1) assms(2) by (simp add: r(1) stage_turn_def coarse_def)
      moreover have "access_rel capacity ?f (coarse ?f p' q)" using c(2) p'(2) r idle by (intro access_relI) simp_all
      ultimately show ?thesis by auto
    qed
  qed
qed

lemma stage_access_sim:
  assumes "access_rel capacity f r" "stage_access handler capacity f = Some f'"
  shows "\<exists>r'. (r' = r \<or> stage_turn handler capacity r = Some r') \<and> access_rel capacity f' r'"
proof (cases "matcher_todo f")
  case Nil
  then show ?thesis by (rule stage_poll_sim [OF assms(1) _ assms(2)])
next
  case (Cons ev evs)
  from stage_push_sim [OF assms(1) Cons, of handler] assms(2) show ?thesis by auto
qed

lemma sink_access_sim:
  assumes "access_rel capacity f r"
  shows "\<exists>r'. (r' = r \<or> r' = sink_turn consume capacity r) \<and> access_rel capacity (sink_access consume capacity f) r'"
proof (cases "writer_done f")
  case False
  from assms obtain p q where r: "r = coarse f p q" "ring_abs capacity (order_queue f) p" "ring_abs capacity (output_queue f) q"
    "pushes_next (producer (order_queue f)) (reader_todo f) (reader_stop f)"
    "pushes_next (producer (output_queue f)) (matcher_todo f) (matcher_stop f)" by (rule access_relE)
  show ?thesis
  proof (cases "writer_stop f")
    case True
    let ?f = "f\<lparr>writer_done := True\<rparr>"
    have "sink_turn consume capacity r = coarse ?f p q" using True False by (simp add: r(1) sink_turn_def coarse_def)
    moreover have "access_rel capacity ?f (coarse ?f p q)" using r by (intro access_relI) simp_all
    ultimately show ?thesis using True False by (auto simp: sink_access_def)
  next
    case ns: False
    obtain res s' where a: "consumer_access capacity (output_queue f) = (res, s')" by fastforce
    note c = consumer_access_abs [OF r(3) a] consumer_access_producer [OF a]
    show ?thesis
    proof (cases res)
      case None
      let ?f = "f\<lparr>output_queue := s'\<rparr>"
      have "coarse ?f p q = r" by (simp add: r(1) coarse_def)
      moreover have "access_rel capacity ?f (coarse ?f p q)" using c None r by (intro access_relI) simp_all
      ultimately show ?thesis using False ns a None by (auto simp: sink_access_def)
    next
      case (Some ev)
      obtain l w where w: "consume ev (sink f) = (l, w)" by fastforce
      let ?f = "f\<lparr>output_queue := s', sink := w, writer_done := l, handled := handled f @ [ev]\<rparr>"
      from c Some obtain q' where q': "try_pop capacity q = Some (ev, q')" "ring_abs capacity s' q'" by auto
      have "sink_turn consume capacity r = coarse ?f p q'" using False ns q'(1) w by (simp add: r(1) sink_turn_def coarse_def)
      moreover have "access_rel capacity ?f (coarse ?f p q')" using c(2) q'(2) r by (intro access_relI) simp_all
      ultimately show ?thesis using False ns a Some w by (auto simp: sink_access_def)
    qed
  qed
qed (use assms in \<open>auto simp: sink_access_def\<close>)

text \<open>Every access is a step of the agents with whole operations, or none.\<close>

lemma access_step_sim:
  assumes "access_rel capacity f r" "access_step handler consume capacity f f'"
  shows "\<exists>r'. (relay_step handler consume capacity)\<^sup>=\<^sup>= r r' \<and> access_rel capacity f' r'"
proof -
  from assms(1) obtain p q where r: "r = coarse f p q" "ring_abs capacity (order_queue f) p" "ring_abs capacity (output_queue f) q"
    "pushes_next (producer (order_queue f)) (reader_todo f) (reader_stop f)"
    "pushes_next (producer (output_queue f)) (matcher_todo f) (matcher_stop f)" by (rule access_relE)
  have turn: "?thesis" if "access_rel capacity f' r'" "r' = r \<or> relay_step handler consume capacity r r'" for r'
    using that by auto
  have flag: "?thesis" if "relay_step handler consume capacity r (coarse f' p q)" "order_queue f' = order_queue f" "output_queue f' = output_queue f"
    "reader_todo f' = reader_todo f" "matcher_todo f' = matcher_todo f"
    "reader_stop f' = reader_stop f \<or> producer (order_queue f) = P_idle" "matcher_stop f' = matcher_stop f \<or> producer (output_queue f) = P_idle"
    using that r(2-5) by (intro turn [of "coarse f' p q"] access_relI) auto
  have orders: "?thesis" if "f' = f\<lparr>order_queue := s\<rparr>" "ring_abs capacity s p" "producer s = producer (order_queue f)" for s
    using that r by (intro turn [of r]) (auto simp: access_rel_def coarse_def)
  have outputs: "?thesis" if "f' = f\<lparr>output_queue := s\<rparr>" "ring_abs capacity s q" "producer s = producer (output_queue f)" for s
    using that r by (intro turn [of r]) (auto simp: access_rel_def coarse_def)
  from assms(2) show ?thesis
  proof cases
    case move
    then obtain a where access: "access_act handler consume capacity a f = Some f'" by (auto simp: access_move_def)
    note act = relay_step.action [where handler = handler and consume = consume and capacity = capacity and s = r]
    show ?thesis
    proof (cases a)
      case Source_access
      with access source_access_sim [OF assms(1)] act [of Source_turn] show ?thesis by (auto intro: turn)
    next
      case Stage_access
      with access stage_access_sim [OF assms(1), of handler f'] act [of Stage_turn] show ?thesis by (auto intro: turn)
    next
      case Sink_access
      with access sink_access_sim [OF assms(1), of consume] act [of Sink_turn] show ?thesis by (auto intro: turn)
    next
      case Reader_token
      with access act [of Source_sees] show ?thesis by (intro flag) (auto simp: r(1) coarse_def split: if_splits)
    next
      case Matcher_token
      with access act [of Stage_sees] show ?thesis by (intro flag) (auto simp: r(1) coarse_def split: if_splits)
    next
      case Writer_token
      with access act [of Sink_sees] show ?thesis by (intro flag) (auto simp: r(1) coarse_def split: if_splits)
    qed (use access orders [OF _ ring_abs_see(1) [OF r(2)]] orders [OF _ ring_abs_see(2) [OF r(2)]]
        outputs [OF _ ring_abs_see(1) [OF r(3)]] outputs [OF _ ring_abs_see(2) [OF r(3)]] in simp_all)
  next
    case stop
    with relay_step.stop [of handler consume capacity r] show ?thesis by (intro flag) (auto simp: r(1) coarse_def)
  qed
qed

lemma access_steps_sim:
  assumes "(access_step handler consume capacity)\<^sup>*\<^sup>* f f'" "access_rel capacity f r"
  shows "\<exists>r'. (relay_step handler consume capacity)\<^sup>*\<^sup>* r r' \<and> access_rel capacity f' r'"
  using assms(1)
proof (induction rule: rtranclp_induct)
  case (step f1 f2)
  then obtain r1 where r1: "(relay_step handler consume capacity)\<^sup>*\<^sup>* r r1" "access_rel capacity f1 r1" by blast
  from access_step_sim [OF r1(2) step.hyps(2)] r1(1) show ?case by (auto intro: rtranclp.rtrancl_into_rtrancl)
qed (use assms(2) in auto)

section \<open>Every schedule of whole operations is one of accesses\<close>

text \<open>A ring between operations, with both views up to date.\<close>

definition settled :: "'a spsc_system \<Rightarrow> bool" where
  "settled s \<longleftrightarrow> producer s = P_idle \<and> consumer s = C_idle \<and>
     tail_view s = tail_index (shared s) \<and> head_view s = head_index (shared s)"

definition exact :: "('e, 'b, 'o, 'w) access_t \<Rightarrow> ('e, 'b, 'o, 'w) relay_t \<Rightarrow> bool" where
  "exact f r \<longleftrightarrow> settled (order_queue f) \<and> settled (output_queue f) \<and>
     r = coarse f (shared (order_queue f)) (shared (output_queue f))"

lemma settled_push:
  assumes "settled s" "try_push capacity v (shared s) = (True, q)"
  shows "\<exists>s1 s2. (\<lambda>s s'. producer_access capacity v s = (False, s'))\<^sup>*\<^sup>* s s1 \<and> producer_access capacity v s1 = (True, s2) \<and>
    settled (see_head s2) \<and> shared (see_head s2) = q"
proof -
  let ?h = "head_index (shared s)"
  let ?a = "s\<lparr>producer := P_check v ?h\<rparr>" and ?b = "s\<lparr>producer := P_write v ?h\<rparr>"
  let ?q = "(shared s)\<lparr>ring_slots := (ring_slots (shared s))[unat ?h := v]\<rparr>"
  let ?c = "s\<lparr>producer := P_publish v ?h, shared := ?q\<rparr>"
  let ?d = "s\<lparr>producer := P_idle, accepted := accepted s @ [v], shared := ?q\<lparr>head_index := (?h + 1) AND spsc_mask capacity\<rparr>\<rparr>"
  have p: "(?h + 1) AND spsc_mask capacity \<noteq> tail_view s" "q = ?q\<lparr>head_index := (?h + 1) AND spsc_mask capacity\<rparr>"
    using assms by (auto simp: settled_def try_push_def Let_def split: if_splits)
  have "producer_access capacity v s = (False, ?a)" "producer_access capacity v ?a = (False, ?b)"
    "producer_access capacity v ?b = (False, ?c)" "producer_access capacity v ?c = (True, ?d)"
    using assms(1) p(1) by (simp_all add: producer_access_def settled_def)
  then have "(\<lambda>s s'. producer_access capacity v s = (False, s'))\<^sup>*\<^sup>* s ?c" "producer_access capacity v ?c = (True, ?d)"
    by (meson converse_rtranclp_into_rtranclp rtranclp.rtrancl_refl, simp)
  moreover have "settled (see_head ?d)" "shared (see_head ?d) = q" using assms(1) p(2) by (simp_all add: settled_def see_head_def)
  ultimately show ?thesis by blast
qed

lemma settled_pop:
  assumes "settled s" "try_pop capacity (shared s) = Some (v, q)"
  shows "\<exists>s1 s2. (\<lambda>s s'. consumer_access capacity s = (None, s'))\<^sup>*\<^sup>* s s1 \<and> consumer_access capacity s1 = (Some v, s2) \<and>
    settled (see_tail s2) \<and> shared (see_tail s2) = q"
proof -
  let ?t = "tail_index (shared s)"
  let ?a = "s\<lparr>consumer := C_check ?t\<rparr>" and ?b = "s\<lparr>consumer := C_read ?t\<rparr>" and ?c = "s\<lparr>consumer := C_release ?t v\<rparr>"
  let ?d = "s\<lparr>consumer := C_idle, delivered := delivered s @ [v], shared := (shared s)\<lparr>tail_index := (?t + 1) AND spsc_mask capacity\<rparr>\<rparr>"
  have p: "?t \<noteq> head_view s" "v = ring_slots (shared s) ! unat ?t" "q = (shared s)\<lparr>tail_index := (?t + 1) AND spsc_mask capacity\<rparr>"
    using assms by (auto simp: settled_def try_pop_def Let_def split: if_splits)
  have "consumer_access capacity s = (None, ?a)" "consumer_access capacity ?a = (None, ?b)"
    "consumer_access capacity ?b = (None, ?c)" "consumer_access capacity ?c = (Some v, ?d)"
    using assms(1) p(1,2) by (simp_all add: consumer_access_def settled_def)
  then have "(\<lambda>s s'. consumer_access capacity s = (None, s'))\<^sup>*\<^sup>* s ?c" "consumer_access capacity ?c = (Some v, ?d)"
    by (meson converse_rtranclp_into_rtranclp rtranclp.rtrancl_refl, simp)
  moreover have "settled (see_tail ?d)" "shared (see_tail ?d) = q" using assms(1) p(3) by (simp_all add: settled_def see_tail_def)
  ultimately show ?thesis by blast
qed

text \<open>The accesses of one operation, its last access, and the other side's view of the new index.\<close>

lemma access_path:
  assumes "R\<^sup>*\<^sup>* q q'" "\<And>q q'. R q q' \<Longrightarrow> S (put q) (put q')" "S (put q') g" "S g g'" "put q = f"
  shows "S\<^sup>*\<^sup>* f g'"
proof -
  have "S\<^sup>*\<^sup>* (put q) (put q')"
    using assms(1) by (induction rule: rtranclp_induct) (auto intro: rtranclp.rtrancl_into_rtrancl assms(2))
  with assms(3-5) show ?thesis by (meson rtranclp.rtrancl_into_rtrancl)
qed

lemma push_path:
  assumes "settled s" "try_push capacity v (shared s) = (True, q)" "put s = f"
    and "\<And>a a'. producer_access capacity v a = (False, a') \<Longrightarrow> S (put a) (put a')"
    and "\<And>a a'. producer_access capacity v a = (True, a') \<Longrightarrow> S (put a) (fin a')" "\<And>a. S (fin a) (fin (see_head a))"
  shows "\<exists>s'. S\<^sup>*\<^sup>* f (fin s') \<and> settled s' \<and> shared s' = q"
proof -
  from settled_push [OF assms(1,2)] obtain s1 s2 where
    s: "(\<lambda>s s'. producer_access capacity v s = (False, s'))\<^sup>*\<^sup>* s s1" "producer_access capacity v s1 = (True, s2)"
      "settled (see_head s2)" "shared (see_head s2) = q" by blast
  have "S\<^sup>*\<^sup>* f (fin (see_head s2))" by (rule access_path [OF s(1) assms(4) assms(5) [OF s(2)] assms(6) assms(3)])
  with s(3,4) show ?thesis by blast
qed

lemma pop_path:
  assumes "settled s" "try_pop capacity (shared s) = Some (v, q)" "put s = f"
    and "\<And>a a'. consumer_access capacity a = (None, a') \<Longrightarrow> S (put a) (put a')"
    and "\<And>a a'. consumer_access capacity a = (Some v, a') \<Longrightarrow> S (put a) (fin a')" "\<And>a. S (fin a) (fin (see_tail a))"
  shows "\<exists>s'. S\<^sup>*\<^sup>* f (fin s') \<and> settled s' \<and> shared s' = q"
proof -
  from settled_pop [OF assms(1,2)] obtain s1 s2 where
    s: "(\<lambda>s s'. consumer_access capacity s = (None, s'))\<^sup>*\<^sup>* s s1" "consumer_access capacity s1 = (Some v, s2)"
      "settled (see_tail s2)" "shared (see_tail s2) = q" by blast
  have "S\<^sup>*\<^sup>* f (fin (see_tail s2))" by (rule access_path [OF s(1) assms(4) assms(5) [OF s(2)] assms(6) assms(3)])
  with s(3,4) show ?thesis by blast
qed

lemma try_push_full: "try_push capacity v q = (False, q') \<Longrightarrow> q' = q"
  by (auto simp: try_push_def Let_def split: if_splits)

lemma exactD:
  assumes "exact f r"
  shows "r = coarse f (shared (order_queue f)) (shared (output_queue f))" "settled (order_queue f)" "settled (output_queue f)"
  using assms by (simp_all add: exact_def)

lemma source_turn_exact:
  assumes "exact f r"
  shows "\<exists>f'. (access_move handler consume capacity)\<^sup>*\<^sup>* f f' \<and> exact f' (source_turn capacity r)"
proof -
  let ?S = "access_move handler consume capacity"
  note r = exactD [OF assms] and acc = access_moveI [of _ _ _ Source_access]
  consider "reader_todo f = []" | e es where "reader_todo f = e # es" "reader_stop f"
    | e es q where "reader_todo f = e # es" "\<not> reader_stop f" "try_push capacity e (shared (order_queue f)) = (False, q)"
    | e es q where "reader_todo f = e # es" "\<not> reader_stop f" "try_push capacity e (shared (order_queue f)) = (True, q)"
    by (metis (full_types) list.exhaust prod.exhaust)
  then show ?thesis
  proof cases
    case 1
    with assms show ?thesis by (auto simp: source_turn_def r(1))
  next
    case 2
    then have "?S f (f\<lparr>reader_todo := es\<rparr>)" by (intro acc) (simp add: source_access_def)
    moreover have "exact (f\<lparr>reader_todo := es\<rparr>) (source_turn capacity r)"
      using r 2 by (simp add: exact_def source_turn_def coarse_def)
    ultimately show ?thesis by blast
  next
    case 3
    with try_push_full [OF 3(3)] have "source_turn capacity r = r" by (simp add: source_turn_def r(1) coarse_def)
    with assms show ?thesis by auto
  next
    case 4
    have "\<exists>s'. ?S\<^sup>*\<^sup>* f (f\<lparr>order_queue := s', reader_todo := es\<rparr>) \<and> settled s' \<and> shared s' = q"
      by (rule push_path [OF r(2) 4(3), where put = "\<lambda>q. f\<lparr>order_queue := q\<rparr>"])
        (auto simp: source_access_def 4 intro: acc access_moveI [of _ _ _ Order_head])
    then obtain s' where s: "?S\<^sup>*\<^sup>* f (f\<lparr>order_queue := s', reader_todo := es\<rparr>)" "settled s'" "shared s' = q" by blast
    have "exact (f\<lparr>order_queue := s', reader_todo := es\<rparr>) (source_turn capacity r)"
      using r s(2,3) 4 by (simp add: exact_def source_turn_def coarse_def)
    with s(1) show ?thesis by blast
  qed
qed

lemma stage_push_exact:
  assumes "exact f r" "matcher_todo f = ev # evs"
  shows "\<exists>f' r'. (access_move handler consume capacity)\<^sup>*\<^sup>* f f' \<and> stage_turn handler capacity r = Some r' \<and> exact f' r'"
proof -
  let ?S = "access_move handler consume capacity"
  note r = exactD [OF assms(1)] and acc = access_moveI [of _ _ _ Stage_access]
  consider "matcher_stop f" | q where "\<not> matcher_stop f" "try_push capacity ev (shared (output_queue f)) = (False, q)"
    | q where "\<not> matcher_stop f" "try_push capacity ev (shared (output_queue f)) = (True, q)" by (metis (full_types) prod.exhaust)
  then show ?thesis
  proof cases
    case 1
    then have "?S f (f\<lparr>matcher_todo := evs\<rparr>)" by (intro acc) (simp add: stage_access_def assms(2))
    moreover have "exact (f\<lparr>matcher_todo := evs\<rparr>) (r\<lparr>matcher_todo := evs\<rparr>)" using r by (simp add: exact_def coarse_def)
    moreover have "stage_turn handler capacity r = Some (r\<lparr>matcher_todo := evs\<rparr>)"
      using 1 assms(2) by (simp add: stage_turn_def r(1) coarse_def)
    ultimately show ?thesis by blast
  next
    case 2
    with try_push_full [OF 2(2)] have "stage_turn handler capacity r = Some r"
      using assms(2) by (simp add: stage_turn_def r(1) coarse_def)
    with assms(1) show ?thesis by blast
  next
    case 3
    let ?f = "\<lambda>q. f\<lparr>output_queue := q, matcher_todo := evs\<rparr>"
    have "\<exists>s'. ?S\<^sup>*\<^sup>* f (?f s') \<and> settled s' \<and> shared s' = q"
      by (rule push_path [OF r(3) 3(2), where put = "\<lambda>q. f\<lparr>output_queue := q\<rparr>"])
        (auto simp: stage_access_def assms(2) 3 intro: acc access_moveI [of _ _ _ Output_head])
    then obtain s' where s: "?S\<^sup>*\<^sup>* f (?f s')" "settled s'" "shared s' = q" by blast
    moreover have "exact (?f s') (coarse (?f s') (shared (order_queue f)) q)" using r s(2,3) by (simp add: exact_def)
    moreover have "stage_turn handler capacity r = Some (coarse (?f s') (shared (order_queue f)) q)"
      using 3 assms(2) by (simp add: stage_turn_def r(1) coarse_def)
    ultimately show ?thesis by blast
  qed
qed

lemma stage_idle_exact:
  assumes "exact f r" "matcher_todo f = []" "\<not> (matcher_phase f = Running \<and> \<not> matcher_stop f)" "stage_turn handler capacity r = Some r'"
  shows "\<exists>f'. (access_move handler consume capacity)\<^sup>*\<^sup>* f f' \<and> exact f' r'"
proof -
  let ?done = "f\<lparr>matcher_phase := Finished\<rparr>"
  note r = exactD [OF assms(1)]
  consider "r' = r" | "matcher_phase f \<noteq> Finished" "r' = coarse ?done (shared (order_queue f)) (shared (output_queue f))"
    using assms(2-4) by (cases "matcher_phase f") (auto simp: r(1) stage_turn_def coarse_def)
  then show ?thesis
  proof cases
    case 2
    then have "access_move handler consume capacity f ?done" using assms(2,3)
      by (intro access_moveI [of _ _ _ Stage_access]) (cases "matcher_phase f"; simp add: stage_access_def)
    moreover have "exact ?done r'" using 2 r by (simp add: exact_def)
    ultimately show ?thesis by blast
  qed (use assms(1) in blast)
qed

lemma stage_poll_exact:
  assumes "exact f r" "matcher_todo f = []" "stage_turn handler capacity r = Some r'" and poll: "matcher_phase f = Running" "\<not> matcher_stop f"
  shows "\<exists>f'. (access_move handler consume capacity)\<^sup>*\<^sup>* f f' \<and> exact f' r'"
proof -
  let ?S = "access_move handler consume capacity"
  note r = exactD [OF assms(1)] and acc = access_moveI [of _ _ _ Stage_access]
  show ?thesis
  proof (cases "try_pop capacity (shared (order_queue f))")
    case None
    then have "r' = r" using assms(2,3) poll by (simp add: r(1) stage_turn_def)
    with assms(1) show ?thesis by blast
  next
    case (Some vq)
    then obtain e q where p: "try_pop capacity (shared (order_queue f)) = Some (e, q)" by (cases vq) simp
    with assms(2,3) poll obtain l b evs where h: "handler e (matcher_book f) = Some (l, b, evs)"
      by (auto simp: r(1) stage_turn_def split: option.splits)
    let ?g = "\<lambda>q. f\<lparr>order_queue := q, matcher_book := b, matcher_todo := evs, matcher_phase := if l then Leaving else Running\<rparr>"
    have "\<exists>s'. ?S\<^sup>*\<^sup>* f (?g s') \<and> settled s' \<and> shared s' = q"
      by (rule pop_path [OF r(2) p, where put = "\<lambda>q. f\<lparr>order_queue := q\<rparr>"])
        (auto simp: stage_access_def assms(2) poll h intro: acc access_moveI [of _ _ _ Order_tail])
    then obtain s' where s: "?S\<^sup>*\<^sup>* f (?g s')" "settled s'" "shared s' = q" by blast
    have "r' = coarse (?g s') q (shared (output_queue f))" using p h assms(2,3) poll by (simp add: stage_turn_def r(1) coarse_def)
    then have "exact (?g s') r'" using r s(2,3) by (simp add: exact_def)
    with s(1) show ?thesis by blast
  qed
qed

lemma sink_turn_exact:
  assumes "exact f r"
  shows "\<exists>f'. (access_move handler consume capacity)\<^sup>*\<^sup>* f f' \<and> exact f' (sink_turn consume capacity r)"
proof -
  let ?S = "access_move handler consume capacity"
  note r = exactD [OF assms] and acc = access_moveI [of _ _ _ Sink_access]
  consider "writer_done f" | "\<not> writer_done f" "writer_stop f"
    | "\<not> writer_done f" "\<not> writer_stop f" "try_pop capacity (shared (output_queue f)) = None"
    | ev q where "\<not> writer_done f" "\<not> writer_stop f" "try_pop capacity (shared (output_queue f)) = Some (ev, q)"
    by (cases "try_pop capacity (shared (output_queue f))") auto
  then show ?thesis
  proof cases
    case 2
    then have "?S f (f\<lparr>writer_done := True\<rparr>)" by (intro acc) (simp add: sink_access_def)
    moreover have "exact (f\<lparr>writer_done := True\<rparr>) (sink_turn consume capacity r)"
      using 2 r by (simp add: exact_def sink_turn_def coarse_def)
    ultimately show ?thesis by blast
  next
    case 4
    obtain l w where w: "consume ev (sink f) = (l, w)" by fastforce
    let ?g = "\<lambda>q. f\<lparr>output_queue := q, sink := w, writer_done := l, handled := handled f @ [ev]\<rparr>"
    have "\<exists>s'. ?S\<^sup>*\<^sup>* f (?g s') \<and> settled s' \<and> shared s' = q"
      by (rule pop_path [OF r(3) 4(3), where put = "\<lambda>q. f\<lparr>output_queue := q\<rparr>"])
        (auto simp: sink_access_def 4 w intro: acc access_moveI [of _ _ _ Output_tail])
    then obtain s' where s: "?S\<^sup>*\<^sup>* f (?g s')" "settled s'" "shared s' = q" by blast
    have "sink_turn consume capacity r = coarse (?g s') (shared (order_queue f)) q" using 4 w by (simp add: sink_turn_def r(1) coarse_def)
    then have "exact (?g s') (sink_turn consume capacity r)" using r s(2,3) by (simp add: exact_def)
    with s(1) show ?thesis by blast
  qed (use assms in \<open>auto simp: sink_turn_def r(1)\<close>)
qed

lemma relay_act_exact:
  assumes "exact f r" "relay_act handler consume capacity a r = Some r'"
  shows "\<exists>f'. (access_move handler consume capacity)\<^sup>*\<^sup>* f f' \<and> exact f' r'"
proof -
  have flag: "?thesis" if "access_move handler consume capacity f f'" "order_queue f' = order_queue f" "output_queue f' = output_queue f"
    "r' = coarse f' (shared (order_queue f)) (shared (output_queue f))" for f'
    using that assms(1) by (intro exI [of _ f']) (auto simp: exact_def)
  note r = exactD [OF assms(1)]
  show ?thesis
  proof (cases a)
    case Source_turn
    with assms(2) source_turn_exact [OF assms(1)] show ?thesis by auto
  next
    case Stage_turn
    with assms(2) have t: "stage_turn handler capacity r = Some r'" by simp
    with stage_push_exact [OF assms(1)] stage_poll_exact [OF assms(1) _ t] stage_idle_exact [OF assms(1) _ _ t] show ?thesis
      by (cases "matcher_todo f") fastforce+
  next
    case Sink_turn
    with assms(2) sink_turn_exact [OF assms(1)] show ?thesis by auto
  next
    case Source_sees
    with assms(2) r show ?thesis
      by (intro flag [of "f\<lparr>reader_stop := stop_requested f\<rparr>"] access_moveI [of _ _ _ Reader_token])
        (auto simp: settled_def coarse_def)
  next
    case Stage_sees
    with assms(2) r show ?thesis
      by (intro flag [of "f\<lparr>matcher_stop := stop_requested f\<rparr>"] access_moveI [of _ _ _ Matcher_token])
        (auto simp: settled_def coarse_def)
  next
    case Sink_sees
    with assms(2) r show ?thesis
      by (intro flag [of "f\<lparr>writer_stop := stop_requested f\<rparr>"] access_moveI [of _ _ _ Writer_token])
        (auto simp: settled_def coarse_def)
  qed
qed

lemma relay_acts_exact:
  assumes "(\<lambda>s s'. \<exists>a. relay_act handler consume capacity a s = Some s')\<^sup>*\<^sup>* r r'" "exact f r"
  shows "\<exists>f'. (access_move handler consume capacity)\<^sup>*\<^sup>* f f' \<and> exact f' r'"
  using assms(1)
proof (induction rule: rtranclp_induct)
  case (step r1 r2)
  then obtain f1 where f1: "(access_move handler consume capacity)\<^sup>*\<^sup>* f f1" "exact f1 r1" by blast
  from step.hyps(2) relay_act_exact [OF f1(2)] obtain f2 where
    "(access_move handler consume capacity)\<^sup>*\<^sup>* f1 f2" "exact f2 r2" by blast
  with f1(1) show ?case by (meson rtranclp_trans)
qed (use assms(2) in auto)

section \<open>The agents at the start\<close>

lemma access_init:
  assumes "valid_capacity capacity"
  shows "access_rel capacity (relay_init (spsc_system_init capacity e0) (spsc_system_init capacity o0) todo b w)
      (relay_init (spsc_init capacity e0) (spsc_init capacity o0) todo b w)"
    "exact (relay_init (spsc_system_init capacity e0) (spsc_system_init capacity o0) todo b w)
      (relay_init (spsc_init capacity e0) (spsc_init capacity o0) todo b w)"
  using ring_abs_init [OF assms, of e0] ring_abs_init [OF assms, of o0]
  by (auto simp: access_rel_def exact_def settled_def coarse_def relay_init_def)
    (simp_all add: spsc_system_init_def spsc_init_def)

end
