(* ===== verification/Access_Progress.thy ===== *)
theory Access_Progress
  imports Relay_Access
begin

text \<open>
  No deadlock at the level of atomic accesses: from every state of the agents the operations under way
  can be brought to an end, after which the schedules of whole operations apply. So the
  agents can always be joined, also in the middle of an operation and after a stop request.
\<close>

section \<open>Who is in the middle of a pop\<close>

definition polls :: "('e, 'b, 'o, 'w) access_t \<Rightarrow> bool" where
  "polls f \<longleftrightarrow>
     (consumer (order_queue f) \<noteq> C_idle \<longrightarrow> matcher_todo f = [] \<and> matcher_phase f = Running \<and> \<not> matcher_stop f) \<and>
     (consumer (output_queue f) \<noteq> C_idle \<longrightarrow> \<not> writer_done f \<and> \<not> writer_stop f)"

lemma producer_access_consumer: "producer_access capacity v s = (b, s') \<Longrightarrow> consumer s' = consumer s"
  by (auto simp: producer_access_def split: producer_t.splits)

lemma consumer_access_done: "consumer_access capacity s = (Some v, s') \<Longrightarrow> consumer s' = C_idle"
  by (auto simp: consumer_access_def split: consumer_t.splits)

lemma see_consumer [simp]: "consumer (see_tail s) = consumer s" "consumer (see_head s) = consumer s"
  "shared (see_tail s) = shared s" "shared (see_head s) = shared s"
  by (simp_all add: see_tail_def see_head_def)

lemma source_access_polls: "polls f \<Longrightarrow> polls (source_access capacity f)"
  by (auto simp: polls_def source_access_def producer_access_consumer split: list.split prod.split)

lemma stage_access_polls:
  assumes "polls f" "stage_access handler capacity f = Some f'"
  shows "polls f'"
proof (cases "matcher_todo f")
  case (Cons ev evs)
  with assms show ?thesis
    by (auto simp: polls_def stage_access_def producer_access_consumer split: if_splits prod.splits)
next
  case Nil
  with assms show ?thesis
    by (auto simp: polls_def stage_access_def split: if_splits agent_phase.splits prod.splits option.splits dest: consumer_access_done)
qed

lemma sink_access_polls:
  assumes "polls f"
  shows "polls (sink_access consume capacity f)"
proof -
  obtain r s where a: "consumer_access capacity (output_queue f) = (r, s)" by fastforce
  with assms consumer_access_done [of capacity "output_queue f" _ s] show ?thesis
    by (cases r) (auto simp: polls_def sink_access_def case_prod_beta)
qed

lemma access_move_polls:
  assumes "access_move handler consume capacity f f'" "polls f"
  shows "polls f'"
proof -
  from assms(1) obtain a where a: "access_act handler consume capacity a f = Some f'" by (auto simp: access_move_def)
  consider "f' = source_access capacity f" | "stage_access handler capacity f = Some f'" | "f' = sink_access consume capacity f"
    | "a \<notin> {Source_access, Stage_access, Sink_access}" using a by (cases a) auto
  then show ?thesis
  proof cases
    case 4
    with a assms(2) show ?thesis by (cases a) (clarsimp simp: polls_def split: if_splits)+
  qed (use assms(2) source_access_polls stage_access_polls sink_access_polls in blast)+
qed

lemma access_steps_polls:
  assumes "(access_step handler consume capacity)\<^sup>*\<^sup>* f f'" "polls f"
  shows "polls f'"
  using assms(1)
proof (induction rule: rtranclp_induct)
  case (step f1 f2)
  from step.hyps(2) show ?case
  proof cases
    case move
    then show ?thesis by (rule access_move_polls [OF _ step.IH])
  qed (use step.IH in \<open>simp add: polls_def\<close>)
qed (rule assms(2))

section \<open>Ending the operations under way\<close>

fun push_rank :: "'a producer_t \<Rightarrow> nat" where
  "push_rank P_idle = 0"
| "push_rank (P_publish v h) = 1"
| "push_rank (P_write v h) = 2"
| "push_rank (P_check v h) = 3"

fun poll_rank :: "'a consumer_t \<Rightarrow> nat" where
  "poll_rank C_idle = 0"
| "poll_rank (C_release t v) = 1"
| "poll_rank (C_read t) = 2"
| "poll_rank (C_check t) = 3"

definition ring_rank :: "'a spsc_system \<Rightarrow> nat" where
  "ring_rank s = push_rank (producer s) + poll_rank (consumer s)"

lemma rank_idle: "push_rank p = 0 \<longleftrightarrow> p = P_idle" "poll_rank c = 0 \<longleftrightarrow> c = C_idle"
  by (cases p; simp) (cases c; simp)

lemma producer_access_rank:
  "producer_access capacity v s = (b, s') \<Longrightarrow> producer s \<noteq> P_idle \<Longrightarrow> ring_rank s' < ring_rank s"
  by (auto simp: producer_access_def ring_rank_def split: producer_t.splits)

lemma consumer_access_rank:
  "consumer_access capacity s = (r, s') \<Longrightarrow> consumer s \<noteq> C_idle \<Longrightarrow> ring_rank s' < ring_rank s"
  by (auto simp: consumer_access_def ring_rank_def split: consumer_t.splits)

definition access_rank :: "('e, 'b, 'o, 'w) access_t \<Rightarrow> nat" where
  "access_rank f = ring_rank (order_queue f) + ring_rank (output_queue f)"

lemma access_rank_move:
  assumes rel: "access_rel capacity f r" and "polls f" "stage_turn handler capacity r \<noteq> None" "access_rank f \<noteq> 0"
  shows "\<exists>f'. access_move handler consume capacity f f' \<and> access_rank f' < access_rank f"
proof -
  from rel obtain p q where r: "r = coarse f p q" "ring_abs capacity (order_queue f) p" "ring_abs capacity (output_queue f) q"
    "pushes_next (producer (order_queue f)) (reader_todo f) (reader_stop f)"
    "pushes_next (producer (output_queue f)) (matcher_todo f) (matcher_stop f)" by (rule access_relE)
  consider "producer (order_queue f) \<noteq> P_idle" | "producer (output_queue f) \<noteq> P_idle"
    | "consumer (order_queue f) \<noteq> C_idle" | "consumer (output_queue f) \<noteq> C_idle"
    using assms(4) by (auto simp: access_rank_def ring_rank_def rank_idle)
  then show ?thesis
  proof cases
    case 1
    with r(4) obtain e es where todo: "\<not> reader_stop f" "reader_todo f = e # es" by (auto simp: pushes_next_iff)
    obtain b s where a: "producer_access capacity e (order_queue f) = (b, s)" by fastforce
    have "access_move handler consume capacity f (f\<lparr>order_queue := s, reader_todo := if b then es else e # es\<rparr>)"
      by (rule access_moveI [of _ _ _ Source_access]) (simp add: source_access_def todo a)
    with producer_access_rank [OF a 1] show ?thesis by (intro exI conjI) (auto simp: access_rank_def)
  next
    case 2
    with r(5) obtain ev evs where todo: "\<not> matcher_stop f" "matcher_todo f = ev # evs" by (auto simp: pushes_next_iff)
    obtain b s where a: "producer_access capacity ev (output_queue f) = (b, s)" by fastforce
    have "access_move handler consume capacity f (f\<lparr>output_queue := s, matcher_todo := if b then evs else ev # evs\<rparr>)"
      by (rule access_moveI [of _ _ _ Stage_access]) (simp add: stage_access_def todo a)
    with producer_access_rank [OF a 2] show ?thesis by (intro exI conjI) (auto simp: access_rank_def)
  next
    case 3
    with assms(2) have todo: "matcher_todo f = []" "matcher_phase f = Running" "\<not> matcher_stop f" by (auto simp: polls_def)
    obtain res s where a: "consumer_access capacity (order_queue f) = (res, s)" by fastforce
    have "\<exists>f'. stage_access handler capacity f = Some f' \<and> order_queue f' = s \<and> output_queue f' = output_queue f"
    proof (cases res)
      case (Some e)
      with consumer_access_abs [OF r(2) a] assms(3) todo obtain x where "handler e (matcher_book f) = Some x"
        by (auto simp: r(1) stage_turn_def split: option.splits)
      with Some a todo show ?thesis by (cases x) (simp add: stage_access_def)
    qed (use a todo in \<open>simp add: stage_access_def\<close>)
    then obtain f' where f': "stage_access handler capacity f = Some f'" "order_queue f' = s" "output_queue f' = output_queue f" by blast
    have "access_move handler consume capacity f f'" by (rule access_moveI [of _ _ _ Stage_access]) (simp add: f'(1))
    with consumer_access_rank [OF a 3] f' show ?thesis by (intro exI conjI) (auto simp: access_rank_def)
  next
    case 4
    with assms(2) have todo: "\<not> writer_done f" "\<not> writer_stop f" by (auto simp: polls_def)
    obtain res s where a: "consumer_access capacity (output_queue f) = (res, s)" by fastforce
    have "access_move handler consume capacity f (sink_access consume capacity f)"
      by (rule access_moveI [of _ _ _ Sink_access]) simp
    moreover have "order_queue (sink_access consume capacity f) = order_queue f" "output_queue (sink_access consume capacity f) = s"
      using todo a by (cases res; simp add: sink_access_def case_prod_beta)+
    ultimately show ?thesis using consumer_access_rank [OF a 4] by (intro exI conjI) (auto simp: access_rank_def)
  qed
qed

section \<open>The ring in memory\<close>

lemma shared_ring:
  assumes "ring_abs capacity s q"
  shows "ring_ok capacity (shared s)" "ring_contents capacity (shared s) = in_flight s"
proof -
  note v = ring_abs_valid [OF assms]
  from assms obtain ms ns where "ring_inv capacity s ms ns" by (auto simp: ring_abs_def spsc_inv_def)
  then have "ring_rep capacity (length (delivered s)) (in_flight s) (shared s)"
    by (auto simp: ring_rep_def inv_defs in_flight_def)
  from ring_rep_contents [OF v this] show "ring_ok capacity (shared s)" "ring_contents capacity (shared s) = in_flight s" by simp_all
qed

lemma shared_contents: "ring_abs capacity s q \<Longrightarrow> ring_contents capacity (shared s) = ring_contents capacity q"
  using shared_ring(2) [of capacity s q] by (simp add: ring_abs_def)

section \<open>Joining the agents\<close>

context relay
begin

lemma relay_ok_rings:
  assumes "relay_ok capacity es (coarse f p q)" "ring_ok capacity p'" "ring_ok capacity q'"
    and "ring_contents capacity p' = ring_contents capacity p" "ring_contents capacity q' = ring_contents capacity q"
  shows "relay_ok capacity es (coarse f p' q')"
proof -
  from assms(1) obtain taken skipped dropped where "relay_inv capacity es (coarse f p q) taken skipped dropped" by (auto simp: relay_ok_def)
  then have "relay_inv capacity es (coarse f p' q') taken skipped dropped" using assms(2-5) by (simp add: relay_inv_def)
  then show ?thesis by (auto simp: relay_ok_def)
qed

lemma access_settles:
  assumes "access_rel capacity f r" "polls f" "relay_ok capacity es r" "plain es"
  shows "\<exists>f' r'. (access_move handler consume capacity)\<^sup>*\<^sup>* f f' \<and> exact f' r' \<and> relay_ok capacity es r'"
  using assms(1-3)
proof (induction "access_rank f" arbitrary: f r rule: less_induct)
  case less
  show ?case
  proof (cases "access_rank f = 0")
    case False
    from relay_act_total [OF less.prems(3) assms(4), of Stage_turn] have "stage_turn handler capacity r \<noteq> None" by auto
    from access_rank_move [OF less.prems(1,2) this False, of consume] obtain f1 where
      f1: "access_move handler consume capacity f f1" "access_rank f1 < access_rank f" by blast
    from access_step_sim [OF less.prems(1) access_step.move [OF f1(1)]] obtain r1 where
      r1: "(relay_step handler consume capacity)\<^sup>=\<^sup>= r r1" "access_rel capacity f1 r1" by blast
    then have "relay_ok capacity es r1" using relay_ok_step [OF assms(4) _ less.prems(3)] less.prems(3) by auto
    from less.hyps [OF f1(2) r1(2) access_move_polls [OF f1(1) less.prems(2)] this] f1(1) show ?thesis
      by (meson converse_rtranclp_into_rtranclp)
  next
    case True
    from less.prems(1) obtain p q where r: "r = coarse f p q" "ring_abs capacity (order_queue f) p" "ring_abs capacity (output_queue f) q"
      by (auto elim: access_relE)
    let ?see = "\<lambda>s. see_head (see_tail s)"
    let ?f1 = "f\<lparr>order_queue := see_tail (order_queue f)\<rparr>" and ?f2 = "f\<lparr>order_queue := ?see (order_queue f)\<rparr>"
    let ?f3 = "?f2\<lparr>output_queue := see_tail (output_queue f)\<rparr>" and ?f4 = "?f2\<lparr>output_queue := ?see (output_queue f)\<rparr>"
    let ?r = "coarse ?f4 (shared (order_queue ?f4)) (shared (output_queue ?f4))"
    have "access_move handler consume capacity f ?f1" by (rule access_moveI [of _ _ _ Order_tail]) simp
    moreover have "access_move handler consume capacity ?f1 ?f2" by (rule access_moveI [of _ _ _ Order_head]) simp
    moreover have "access_move handler consume capacity ?f2 ?f3" by (rule access_moveI [of _ _ _ Output_tail]) simp
    moreover have "access_move handler consume capacity ?f3 ?f4" by (rule access_moveI [of _ _ _ Output_head]) simp
    ultimately have "(access_move handler consume capacity)\<^sup>*\<^sup>* f ?f4"
      by (meson converse_rtranclp_into_rtranclp rtranclp.rtrancl_refl)
    moreover have "settled (order_queue ?f4)" "settled (output_queue ?f4)"
      using True by (simp_all add: settled_def access_rank_def ring_rank_def rank_idle see_tail_def see_head_def)
    then have "exact ?f4 ?r" by (simp only: exact_def simp_thms)
    moreover have "relay_ok capacity es ?r"
    proof -
      have "?r = coarse f (shared (order_queue f)) (shared (output_queue f))" by (simp add: coarse_def)
      moreover have "relay_ok capacity es (coarse f (shared (order_queue f)) (shared (output_queue f)))"
        by (rule relay_ok_rings [OF less.prems(3) [unfolded r(1)] shared_ring(1) [OF r(2)] shared_ring(1) [OF r(3)] shared_contents [OF r(2)] shared_contents [OF r(3)]])
      ultimately show ?thesis by (simp only:)
    qed
    ultimately show ?thesis by blast
  qed
qed

lemma access_joins:
  assumes "access_rel capacity f r" "polls f" "relay_ok capacity es r" "plain es"
  shows "\<exists>f'. (access_move handler consume capacity)\<^sup>*\<^sup>* f f' \<and> all_joined f'"
proof -
  from access_settles [OF assms] obtain f1 r1 where
    s: "(access_move handler consume capacity)\<^sup>*\<^sup>* f f1" "exact f1 r1" "relay_ok capacity es r1" by blast
  from agents.can_finish [OF conjI [OF assms(4) s(3)]] obtain r2 where
    r2: "(\<lambda>s s'. \<exists>a. relay_act handler consume capacity a s = Some s')\<^sup>*\<^sup>* r1 r2" "all_joined r2" by blast
  from relay_acts_exact [OF r2(1) s(2)] obtain f2 where f2: "(access_move handler consume capacity)\<^sup>*\<^sup>* f1 f2" "exact f2 r2" by blast
  from f2(2) r2(2) have "all_joined f2" by (auto simp: exact_def all_joined_def)
  with rtranclp_trans [OF s(1) f2(1)] show ?thesis by blast
qed

end

lemma polls_init [simp]: "polls (relay_init (spsc_system_init capacity e0) (spsc_system_init capacity o0) todo b w)"
  by (simp add: polls_def relay_init_def spsc_system_init_def)

lemma access_move_stop:
  assumes "access_move handler consume capacity f f'"
  shows "stop_requested f' = stop_requested f" "undisturbed f \<Longrightarrow> undisturbed f'"
proof -
  from assms obtain a where "access_act handler consume capacity a f = Some f'" by (auto simp: access_move_def)
  then have "stop_requested f' = stop_requested f \<and> (undisturbed f \<longrightarrow> undisturbed f')"
    by (cases a) (auto simp: undisturbed_def source_access_def stage_access_def sink_access_def case_prod_beta Let_def
      split: list.splits agent_phase.splits option.splits if_splits prod.splits)
  then show "stop_requested f' = stop_requested f" "undisturbed f \<Longrightarrow> undisturbed f'" by blast+
qed

lemma access_moves_stop:
  assumes "(access_move handler consume capacity)\<^sup>*\<^sup>* f f'"
  shows "(access_step handler consume capacity)\<^sup>*\<^sup>* f f' \<and> stop_requested f' = stop_requested f"
  using assms
  by (induction rule: rtranclp_induct) (auto intro: rtranclp.rtrancl_into_rtrancl access_step.move simp: access_move_stop(1))

end
