(* ===== verification/Pipeline.thy ===== *)
theory Pipeline
  imports Clob_Correctness Input_Parser Output_Formatter Access_Progress
begin

text \<open>
  The three agents of the engine (\<^verbatim>\<open>stream_pipeline.hpp\<close>, \<^verbatim>\<open>event_loop.hpp\<close>, the wiring of
  \<^verbatim>\<open>matching_engine.cpp\<close>): the reader pushes parsed events to the order queue, the matcher
  applies them to the book and pushes what it emits to the output queue, the writer formats.
  One step of the relation is one atomic access of one agent, a view or a token catching up, or a stop
  request, in any order. Whatever the schedule, the output is that of the sequential engine.
\<close>

section \<open>The sequential engine\<close>

text \<open>Parse everything, match everything, format everything: output and error text.\<close>

definition sequential_engine :: "string \<Rightarrow> (string \<times> string) option" where
  "sequential_engine input =
     map_option (\<lambda>c. (format_all (emitter c), stream_diagnostics input))
       (clob_run clob_init (stream_events input))"

section \<open>Handlers\<close>

text \<open>
  \<^verbatim>\<open>matcher_handler_t\<close>: the result (true ends the loop), the book, and the output events that
  are pushed, in order, before the handler returns. The book's emitter is the output queue.
\<close>

definition matcher_handler :: "input_event_t \<Rightarrow> clob_t \<Rightarrow> (bool \<times> clob_t \<times> output_event_t list) option" where
  "matcher_handler event book =
     (if event = shutdown_in then Some (True, book, [shutdown_out])
      else (case clob_step (book\<lparr>emitter := []\<rparr>) event of
              None \<Rightarrow> None
            | Some book' \<Rightarrow> Some (False, book', emitter book')))"

text \<open>\<^verbatim>\<open>writer_handler_t\<close>: the result and the text in the sink.\<close>

definition writer_handler :: "output_event_t \<Rightarrow> string \<Rightarrow> bool \<times> string" where
  "writer_handler event out =
     (case output_formatter event of None \<Rightarrow> (True, out) | Some row \<Rightarrow> (False, out @ row))"

section \<open>The agents\<close>

text \<open>The agents of the engine are those of the theory \<^verbatim>\<open>Relay_Access\<close> with these handlers.\<close>

type_synonym engine_t = "(input_event_t, clob_t, output_event_t, string) access_t"

text \<open>\<^verbatim>\<open>reader_loop_t::run\<close>: the events of the stream in order, then the sentinel.\<close>

definition reader_events :: "string \<Rightarrow> input_event_t list" where
  "reader_events input = fst (parse_stream (\<lambda>event pushed. pushed @ [event]) input [] []) @ [shutdown_in]"

definition engine_init :: "64 word \<Rightarrow> string \<Rightarrow> engine_t" where
  "engine_init capacity input =
     relay_init (spsc_system_init capacity input_event_init) (spsc_system_init capacity (trade_event 0 0 0))
       (reader_events input) clob_init []"

definition reader_access :: "64 word \<Rightarrow> engine_t \<Rightarrow> engine_t" where
  "reader_access capacity f = source_access capacity f"

definition matcher_access :: "64 word \<Rightarrow> engine_t \<Rightarrow> engine_t option" where
  "matcher_access capacity f = stage_access matcher_handler capacity f"

definition writer_access :: "64 word \<Rightarrow> engine_t \<Rightarrow> engine_t" where
  "writer_access capacity f = sink_access writer_handler capacity f"

inductive engine_step :: "64 word \<Rightarrow> engine_t \<Rightarrow> engine_t \<Rightarrow> bool" for capacity where
  reader_step: "engine_step capacity f (reader_access capacity f)"
| matcher_step: "matcher_access capacity f = Some f' \<Longrightarrow> engine_step capacity f f'"
| writer_step: "engine_step capacity f (writer_access capacity f)"
| observe: "a \<notin> {Source_access, Stage_access, Sink_access} \<Longrightarrow> access_act matcher_handler writer_handler capacity a f = Some f' \<Longrightarrow>
    engine_step capacity f f'"
| stop_step: "engine_step capacity f (f\<lparr>stop_requested := True\<rparr>)"

text \<open>The same agents with whole operations of the rings as their turns.\<close>

type_synonym pipeline_t = "(input_event_t, clob_t, output_event_t, string) relay_t"

definition pipeline_init :: "64 word \<Rightarrow> string \<Rightarrow> pipeline_t" where
  "pipeline_init capacity input =
     relay_init (spsc_init capacity input_event_init) (spsc_init capacity (trade_event 0 0 0)) (reader_events input) clob_init []"

definition pipeline_act :: "64 word \<Rightarrow> relay_action \<Rightarrow> pipeline_t \<Rightarrow> pipeline_t option" where
  "pipeline_act capacity = relay_act matcher_handler writer_handler capacity"

definition pipeline_step :: "64 word \<Rightarrow> pipeline_t \<Rightarrow> pipeline_t \<Rightarrow> bool" where
  "pipeline_step capacity = relay_step matcher_handler writer_handler capacity"

section \<open>What the agents have done\<close>

text \<open>The output of a prefix of the input: the book's events, then the sentinel if it was reached.\<close>

definition run_output :: "input_event_t list \<Rightarrow> output_event_t list" where
  "run_output taken =
     fst (spec_run empty_book taken) @ (if shutdown_in \<in> set taken then [shutdown_out] else [])"

lemma spec_match_queue_no_sentinel: "shutdown_out \<notin> set (fst (spec_match_queue i xs q))"
  by (induction i xs q rule: spec_match_queue.induct) (auto split: prod.splits)

lemma spec_match_side_no_sentinel: "shutdown_out \<notin> set (fst (spec_match_side s i limit m q))"
proof (induction m arbitrary: q)
  case (Cons e m)
  obtain p xs where e: "e = (p, xs)" by fastforce
  obtain evs xs' q' where sq: "spec_match_queue i xs q = (evs, xs', q')" by (metis prod_cases3)
  then have "shutdown_out \<notin> set evs" using spec_match_queue_no_sentinel [of i xs q] by simp
  with Cons [of q'] show ?case by (auto simp: e sq split: prod.splits)
qed simp

lemma spec_step_no_sentinel: "shutdown_out \<notin> set (fst (spec_step b e))"
proof (cases e)
  case (add_order_in a)
  obtain evs m r where sm: "spec_match_side (opposite_of (add_side a)) (add_order_id a) (add_price a)
      (queues (opposite_of (add_side a)) b) (add_quantity a) = (evs, m, r)" by (metis prod_cases3)
  then have "shutdown_out \<notin> set evs"
    using spec_match_side_no_sentinel [of "opposite_of (add_side a)" "add_order_id a" "add_price a"
      "queues (opposite_of (add_side a)) b" "add_quantity a"] by simp
  then show ?thesis by (auto simp: add_order_in spec_on_add_def spec_add_order_def sm Let_def)
next
  case (cancel_order_in a)
  then show ?thesis by (auto simp: spec_on_cancel_def Let_def split: option.splits)
qed simp

lemma spec_run_no_sentinel: "shutdown_out \<notin> set (fst (spec_run b es))"
proof (induction es arbitrary: b)
  case (Cons e es)
  from Cons [of "snd (spec_step b e)"] spec_step_no_sentinel [of b e] show ?case
    by (simp add: case_prod_beta)
qed simp

lemma spec_run_snoc:
  "fst (spec_run b (es @ [e])) = fst (spec_run b es) @ fst (spec_step (snd (spec_run b es)) e)"
  "snd (spec_run b (es @ [e])) = snd (spec_step (snd (spec_run b es)) e)"
  by (simp_all add: spec_run_append split: prod.splits)

lemma book_rep_emitter [simp]: "book_rep (c\<lparr>emitter := evs\<rparr>) b \<longleftrightarrow> book_rep c b"
proof -
  have "side_book t (c\<lparr>emitter := evs\<rparr>) = side_book t c" for t by (cases t) simp_all
  then show ?thesis by (simp add: book_rep_def book_ghost_def abs_book_def)
qed

lemma matcher_handler_event:
  assumes "book_rep c b" "input_event_int64 e" "e \<noteq> shutdown_in"
  shows "\<exists>c'. matcher_handler e c = Some (False, c', fst (spec_step b e)) \<and> book_rep c' (snd (spec_step b e))"
proof -
  have "book_rep (c\<lparr>emitter := []\<rparr>) b" using assms(1) by simp
  from clob_step_refines [OF this assms(2)] assms(3) show ?thesis
    by (auto simp: step_refines_def matcher_handler_def)
qed

section \<open>The contract of the agents\<close>

lemma writer_handler_sink:
  "writer_handler ev (format_all evs) = (ev = shutdown_out, format_all (evs @ [ev]))"
  by (auto simp: writer_handler_def output_formatter_def)

lemma run_output_snoc:
  assumes "shutdown_in \<notin> set taken"
  shows "run_output (taken @ [e]) = run_output taken @ fst (spec_step (snd (spec_run empty_book taken)) e) @
    (if e = shutdown_in then [shutdown_out] else [])"
  using assms by (simp add: run_output_def spec_run_snoc)

text \<open>The book and the formatter satisfy the contract of the relay.\<close>

interpretation engine: relay matcher_handler writer_handler shutdown_in shutdown_out input_event_int64
  "\<lambda>c taken. book_rep c (snd (spec_run empty_book taken))" run_output format_all
proof unfold_locales
  show "run_output [] = []" by (simp add: run_output_def)
next
  fix c taken e
  assume a: "book_rep c (snd (spec_run empty_book taken))" "list_all input_event_int64 taken" "shutdown_in \<notin> set taken"
    "input_event_int64 e \<or> e = shutdown_in"
  show "\<exists>c' evs. matcher_handler e c = Some (e = shutdown_in, c', evs) \<and>
    book_rep c' (snd (spec_run empty_book (taken @ [e]))) \<and> run_output (taken @ [e]) = run_output taken @ evs"
  proof (cases "e = shutdown_in")
    case True
    with a show ?thesis by (simp add: matcher_handler_def spec_run_snoc run_output_snoc)
  next
    case False
    with a(4) matcher_handler_event [OF a(1), of e] a(3) show ?thesis by (auto simp: spec_run_snoc run_output_snoc)
  qed
next
  fix taken
  assume "shutdown_in \<notin> set taken"
  then show "shutdown_out \<notin> set (run_output taken)" "run_output (taken @ [shutdown_in]) = run_output taken @ [shutdown_out]"
    using spec_run_no_sentinel [of empty_book taken] by (simp_all add: run_output_def spec_run_snoc)
next
  show "writer_handler ev (format_all evs) = (ev = shutdown_out, format_all (evs @ [ev]))" for ev evs
    by (rule writer_handler_sink)
qed

lemma engine_step_access: "engine_step capacity = access_step matcher_handler writer_handler capacity"
proof (intro ext iffI)
  fix f f' assume "engine_step capacity f f'"
  then show "access_step matcher_handler writer_handler capacity f f'"
  proof cases
    case reader_step
    then show ?thesis by (intro access_step.move access_moveI [of _ _ _ Source_access]) (simp add: reader_access_def)
  next
    case matcher_step
    then show ?thesis by (intro access_step.move access_moveI [of _ _ _ Stage_access]) (simp add: matcher_access_def)
  next
    case writer_step
    then show ?thesis by (intro access_step.move access_moveI [of _ _ _ Sink_access]) (simp add: writer_access_def)
  next
    case observe
    then show ?thesis by (intro access_step.move access_moveI)
  qed (simp add: access_step.stop)
next
  fix f f' assume "access_step matcher_handler writer_handler capacity f f'"
  then show "engine_step capacity f f'"
  proof cases
    case move
    then obtain a where "access_act matcher_handler writer_handler capacity a f = Some f'" by (auto simp: access_move_def)
    then show ?thesis
      using engine_step.observe [of a] engine_step.matcher_step engine_step.reader_step [of capacity f] engine_step.writer_step [of capacity f]
      by (cases "a \<in> {Source_access, Stage_access, Sink_access}") (auto simp: reader_access_def matcher_access_def writer_access_def)
  qed (simp add: engine_step.stop_step)
qed

lemma reader_events_stream: "reader_events input = stream_events input @ [shutdown_in]"
proof -
  have "fold (\<lambda>e es. es @ [e]) es acc = acc @ es" for es acc :: "input_event_t list"
    by (induction es arbitrary: acc) simp_all
  then show ?thesis by (simp add: reader_events_def parse_stream_fold)
qed

lemma stream_plain: "engine.plain (stream_events input)"
  using stream_events_ok [of input] by (auto simp: list_all_iff)

lemma pipe_ok_init:
  assumes "valid_capacity capacity"
  shows "engine.relay_ok capacity (stream_events input) (pipeline_init capacity input)"
proof -
  note rings = ring_init [OF assms, of input_event_init] ring_init [OF assms, of "trade_event 0 0 0"]
  from engine.relay_ok_init [OF stream_plain [of input] _ rings, of clob_init] show ?thesis
    by (simp add: pipeline_init_def reader_events_stream book_rep_init)
qed

lemma pipe_reachable:
  assumes "valid_capacity capacity" "(pipeline_step capacity)\<^sup>*\<^sup>* (pipeline_init capacity input) s"
  shows "engine.relay_ok capacity (stream_events input) s"
  using engine.steps_ok [OF assms(2) [unfolded pipeline_step_def] pipe_ok_init [OF assms(1)] stream_plain] .

text \<open>Every state of the engine is that of a run with whole operations, up to the operations under way.\<close>

lemma engine_refines:
  assumes "valid_capacity capacity" "(engine_step capacity)\<^sup>*\<^sup>* (engine_init capacity input) f"
  obtains s where "engine.relay_ok capacity (stream_events input) s" "access_rel capacity f s" "s = coarse f (order_queue s) (output_queue s)"
    "(pipeline_step capacity)\<^sup>*\<^sup>* (pipeline_init capacity input) s"
proof -
  have "access_rel capacity (engine_init capacity input) (pipeline_init capacity input)"
    using access_init(1) [OF assms(1)] by (simp add: engine_init_def pipeline_init_def)
  from access_steps_sim [OF assms(2) [unfolded engine_step_access] this] obtain s where
    s: "(pipeline_step capacity)\<^sup>*\<^sup>* (pipeline_init capacity input) s" "access_rel capacity f s" by (auto simp: pipeline_step_def)
  then have "s = coarse f (order_queue s) (output_queue s)" by (simp add: access_rel_def)
  with that pipe_reachable [OF assms(1) s(1)] s show thesis by blast
qed

text \<open>The sequential engine always has a result, and its output is that of the abstract book.\<close>

lemma sequential_engine_spec:
  "sequential_engine input =
     Some (format_all (run_output (stream_events input @ [shutdown_in])), stream_diagnostics input)"
proof -
  have "list_all input_event_int64 (stream_events input)"
    using stream_events_ok [of input] by (simp add: list_all_iff)
  then obtain c where c: "clob_run clob_init (stream_events input) = Some c"
    "emitter c = fst (spec_run empty_book (stream_events input))" by (rule clob_run_init)
  have "format_all [shutdown_out] = []" by (simp add: output_formatter_def)
  then show ?thesis
    by (simp add: sequential_engine_def c run_output_def spec_run_snoc del: format_all_simps(2))
qed

section \<open>Properties of the pipeline\<close>

lemma valid_capacity_main: "valid_capacity 65536"
  by code_simp

lemma pipeline_init_running [simp]: "\<not> stop_requested (pipeline_init capacity input)"
  by (simp add: pipeline_init_def relay_init_def)

lemma engine_joins:
  assumes "valid_capacity capacity" "(engine_step capacity)\<^sup>*\<^sup>* (engine_init capacity input) f"
  shows "\<exists>f'. (engine_step capacity)\<^sup>*\<^sup>* f f' \<and> all_joined f' \<and> stop_requested f' = stop_requested f"
proof -
  from engine_refines [OF assms] obtain s where s: "engine.relay_ok capacity (stream_events input) s" "access_rel capacity f s" by blast
  have "polls (engine_init capacity input)" by (simp add: engine_init_def)
  then have "polls f" by (rule access_steps_polls [OF assms(2) [unfolded engine_step_access]])
  from engine.access_joins [OF s(2) this s(1) stream_plain] access_moves_stop show ?thesis unfolding engine_step_access by blast
qed

lemma engine_init_running [simp]: "\<not> stop_requested (engine_init capacity input)"
  by (simp add: engine_init_def relay_init_def)

lemma engine_can_join:
  assumes "valid_capacity capacity"
  shows "\<exists>f. (engine_step capacity)\<^sup>*\<^sup>* (engine_init capacity input) f \<and> all_joined f \<and> \<not> stop_requested f"
  using engine_joins [OF assms rtranclp.rtrancl_refl, of input] by simp

lemma engine_token:
  assumes "valid_capacity capacity" "(engine_step capacity)\<^sup>*\<^sup>* (engine_init capacity input) f"
  shows "writer_stop f \<longrightarrow> stop_requested f"
proof -
  from engine_refines [OF assms] obtain s where
    s: "engine.relay_ok capacity (stream_events input) s" "s = coarse f (order_queue s) (output_queue s)" by blast
  have "writer_stop s \<longrightarrow> stop_requested s" using s(1) by (auto simp: engine.relay_ok_def engine.relay_inv_def)
  then show ?thesis by (subst (asm) (1 2) s(2)) simp
qed

lemma sample_finishes:
  "\<exists>f. (engine_step 65536)\<^sup>*\<^sup>* (engine_init 65536 input) f \<and> writer_done f \<and> \<not> writer_stop f"
  using engine_can_join [OF valid_capacity_main, of input] engine_token [OF valid_capacity_main, of input]
  by (auto simp: all_joined_def)

lemma engine_prefix_output:
  assumes "valid_capacity capacity" "(engine_step capacity)\<^sup>*\<^sup>* (engine_init capacity input) f"
  shows "\<exists>rest. sequential_engine input = Some (sink f @ rest, stream_diagnostics input)"
proof -
  from engine_refines [OF assms] obtain s where
    s: "engine.relay_ok capacity (stream_events input) s" "s = coarse f (order_queue s) (output_queue s)" by blast
  have "sink s = sink f" by (subst s(2)) simp
  with engine.sink_prefix [OF s(1) stream_plain] show ?thesis
    by (auto simp: sequential_engine_spec)
qed

lemma engine_final_output:
  assumes "valid_capacity capacity" "(engine_step capacity)\<^sup>*\<^sup>* (engine_init capacity input) f" "writer_done f" "\<not> writer_stop f"
  shows "sequential_engine input = Some (sink f, stream_diagnostics input)"
proof -
  from engine_refines [OF assms(1,2)] obtain s where
    s: "engine.relay_ok capacity (stream_events input) s" "s = coarse f (order_queue s) (output_queue s)" by blast
  have "sink s = sink f" "writer_done s" "\<not> writer_stop s" using assms(3,4) by (subst s(2), simp)+
  with engine.final_sink [OF s(1) _ _ stream_plain] show ?thesis
    by (simp add: sequential_engine_spec)
qed

text \<open>
  C23: safety of the concurrent engine. In every state that any interleaving of the atomic accesses of the three
  agents can reach, with loads that lag behind and even when a stop request drops events, what has been written is a prefix
  of the output of the sequential engine.
\<close>

theorem pipeline_output_prefix:
  assumes "valid_capacity capacity" "(engine_step capacity)\<^sup>*\<^sup>* (engine_init capacity input) f"
  shows "\<exists>rest err. sequential_engine input = Some (sink f @ rest, err)"
  using engine_prefix_output [OF assms] by blast

theorem pipeline_output_prefix_witness:
  "\<exists>f rest err. (engine_step 65536)\<^sup>*\<^sup>* (engine_init 65536 ''CXL,7'') f \<and> writer_done f \<and>
     sequential_engine ''CXL,7'' = Some (sink f @ rest, err)"
  using sample_finishes [of "''CXL,7''"] pipeline_output_prefix [OF valid_capacity_main] by blast

text \<open>
  C2: determinism. When the writer has left its loop without having seen a stop, the output
  is exactly that of the sequential engine, whatever the interleaving of the atomic accesses was and however far
  the loads lagged behind.
\<close>

theorem pipeline_deterministic:
  assumes "valid_capacity capacity" "(engine_step capacity)\<^sup>*\<^sup>* (engine_init capacity input) f"
    and "writer_done f" "\<not> writer_stop f"
  shows "sequential_engine input = Some (sink f, stream_diagnostics input)"
  by (rule engine_final_output [OF assms])

theorem pipeline_deterministic_witness:
  "\<exists>f. (engine_step 65536)\<^sup>*\<^sup>* (engine_init 65536 ''ADD,1,BUY,5,100,GTC'') f \<and>
     sequential_engine ''ADD,1,BUY,5,100,GTC'' = Some (sink f, stream_diagnostics ''ADD,1,BUY,5,100,GTC'')"
  using sample_finishes [of "''ADD,1,BUY,5,100,GTC''"] pipeline_deterministic [OF valid_capacity_main] by blast

text \<open>
  C24: no deadlock. From every state that the atomic accesses can reach, in the middle of any operation, before or
  after a stop request, some schedule of the agents leads to a state in which all three have returned.
\<close>

theorem pipeline_can_complete:
  assumes "valid_capacity capacity" "(engine_step capacity)\<^sup>*\<^sup>* (engine_init capacity input) f"
  shows "\<exists>f'. (engine_step capacity)\<^sup>*\<^sup>* f f' \<and> all_joined f' \<and> stop_requested f' = stop_requested f"
  by (rule engine_joins [OF assms])

theorem pipeline_can_complete_witness:
  "\<exists>f'. (engine_step 65536)\<^sup>*\<^sup>* ((engine_init 65536 ''CXL,7'')\<lparr>stop_requested := True\<rparr>) f' \<and> all_joined f' \<and> stop_requested f'"
proof -
  have "(engine_step 65536)\<^sup>*\<^sup>* (engine_init 65536 ''CXL,7'') ((engine_init 65536 ''CXL,7'')\<lparr>stop_requested := True\<rparr>)"
    by (simp add: r_into_rtranclp stop_step)
  from pipeline_can_complete [OF valid_capacity_main this] show ?thesis by simp
qed

text \<open>
  C25: the atomic accesses implement whole operations. Every state that the agents reach access by access, in the middle of any push
  or pop, has a counterpart that turns with whole operations reach, which agrees with it on the tokens, the phases, the book
  and the sink, and whose rings hold, in order, the events that the pushes have published and the pops have not yet taken.
\<close>

theorem engine_implements_turns:
  assumes "valid_capacity capacity" "(engine_step capacity)\<^sup>*\<^sup>* (engine_init capacity input) f"
  shows "\<exists>orders outputs. (pipeline_step capacity)\<^sup>*\<^sup>* (pipeline_init capacity input) (coarse f orders outputs) \<and>
    ring_contents capacity orders = in_flight (order_queue f) \<and>
    ring_contents capacity outputs = in_flight (output_queue f)"
proof -
  from engine_refines [OF assms] obtain s where s: "access_rel capacity f s" "s = coarse f (order_queue s) (output_queue s)"
    "(pipeline_step capacity)\<^sup>*\<^sup>* (pipeline_init capacity input) s" by blast
  from s(1) have "ring_contents capacity (order_queue s) = in_flight (order_queue f)"
    "ring_contents capacity (output_queue s) = in_flight (output_queue f)"
    by (auto simp: access_rel_def ring_abs_def)
  with s(2,3) show ?thesis by metis
qed

theorem engine_implements_turns_witness:
  "\<exists>f orders outputs. all_joined f \<and> (engine_step 65536)\<^sup>*\<^sup>* (engine_init 65536 ''CXL,7'') f \<and>
     (pipeline_step 65536)\<^sup>*\<^sup>* (pipeline_init 65536 ''CXL,7'') (coarse f orders outputs)"
  using engine_can_join [OF valid_capacity_main, of "''CXL,7''"] engine_implements_turns [OF valid_capacity_main] by blast

text \<open>
  C10: termination. In every infinite run in which each agent gets its turn again and again and each token eventually
  catches up with the stop source, all three agents return, whether and whenever a stop is requested;
  and when none was, everything has been written.
\<close>

theorem pipeline_fair_termination:
  assumes "valid_capacity capacity" "run 0 = pipeline_init capacity input"
    and "fair_run (pipeline_act capacity) (pipeline_step capacity) run"
  shows "\<exists>n. all_joined (run n) \<and>
    (\<not> stop_requested (run n) \<longrightarrow> sequential_engine input = Some (sink (run n), stream_diagnostics input))"
proof -
  have ok: "engine.plain (stream_events input) \<and> engine.relay_ok capacity (stream_events input) (run 0)"
    using pipe_ok_init [OF assms(1)] stream_plain [of input] by (simp add: assms(2))
  note fair = assms(3) [unfolded pipeline_act_def pipeline_step_def]
  from engine.agents.fair_finishes [OF ok fair] obtain n where n: "all_joined (run n)" by blast
  have r: "engine.relay_ok capacity (stream_events input) (run n)" using engine.agents.run_inv [OF ok fair, of n] by simp
  then have "writer_stop (run n) \<longrightarrow> stop_requested (run n)" by (auto simp: engine.relay_ok_def engine.relay_inv_def)
  with engine.final_sink [OF r _ _ stream_plain] n show ?thesis
    by (auto simp: all_joined_def sequential_engine_spec)
qed

theorem pipeline_fair_termination_witness:
  "\<exists>n. all_joined (scheduled (pipeline_act 65536) relay_round (pipeline_init 65536 ''CXL,7'') n)"
proof -
  have "engine.plain (stream_events ''CXL,7'') \<and> engine.relay_ok 65536 (stream_events ''CXL,7'') (pipeline_init 65536 ''CXL,7'')"
    using pipe_ok_init [OF valid_capacity_main] stream_plain by blast
  then have "fair_run (pipeline_act 65536) (pipeline_step 65536) (scheduled (pipeline_act 65536) relay_round (pipeline_init 65536 ''CXL,7''))"
    unfolding pipeline_act_def pipeline_step_def by (rule engine.agents.scheduled_fair [OF _ relay_round_recurring])
  from pipeline_fair_termination [OF valid_capacity_main _ this] show ?thesis by auto
qed

end
