(* ===== verification/Signal_Guard.thy ===== *)
theory Signal_Guard
  imports Main
begin

text \<open>
  The scoped signal handlers of \<^verbatim>\<open>signal_handler.hpp\<close>: a guard installs a handler with
  \<^verbatim>\<open>std::signal\<close>, remembers the previous one and puts it back when it is released; ownership
  moves with the guard. The process state is the table of installed handlers and the stop flag
  of the global stop source.
\<close>

section \<open>The process\<close>

datatype handler_t = SIG_DFL | SIG_IGN | request_stop_signal_handler | other_handler nat

record process_t =
  handlers :: "int \<Rightarrow> handler_t"
  stop_flag :: bool

text \<open>
  \<^verbatim>\<open>std::signal\<close>: \<open>accepts\<close> tells which signal numbers the system lets a program handle; for
  the others the result is \<^verbatim>\<open>SIG_ERR\<close>, here \<open>None\<close>, and nothing changes.
\<close>

definition std_signal ::
    "(int \<Rightarrow> bool) \<Rightarrow> int \<Rightarrow> handler_t \<Rightarrow> process_t \<Rightarrow> handler_t option \<times> process_t" where
  "std_signal accepts signum h p =
     (if accepts signum then (Some (handlers p signum), p\<lparr>handlers := (handlers p)(signum := h)\<rparr>)
      else (None, p))"

text \<open>Delivery of a signal: only the engine's own handler acts on the modelled state.\<close>

definition deliver :: "int \<Rightarrow> process_t \<Rightarrow> process_t" where
  "deliver signum p =
     (if handlers p signum = request_stop_signal_handler then p\<lparr>stop_flag := True\<rparr> else p)"

section \<open>The guard\<close>

record signal_guard =
  guard_signum :: int
  guard_previous :: handler_t
  guard_active :: bool

definition signal_guard_default :: signal_guard where
  "signal_guard_default = \<lparr>guard_signum = - 1, guard_previous = SIG_DFL, guard_active = False\<rparr>"

definition guard_install ::
    "(int \<Rightarrow> bool) \<Rightarrow> int \<Rightarrow> handler_t \<Rightarrow> process_t \<Rightarrow> signal_guard \<times> process_t" where
  "guard_install accepts signum h p =
     (case std_signal accepts signum h p of
        (None, p') \<Rightarrow> (signal_guard_default, p')
      | (Some prev, p') \<Rightarrow> (\<lparr>guard_signum = signum, guard_previous = prev, guard_active = True\<rparr>, p'))"

definition guard_release ::
    "(int \<Rightarrow> bool) \<Rightarrow> signal_guard \<Rightarrow> process_t \<Rightarrow> signal_guard \<times> process_t" where
  "guard_release accepts g p =
     (if \<not> guard_active g then (g, p)
      else (case std_signal accepts (guard_signum g) (guard_previous g) p of
              (_, p') \<Rightarrow> (g\<lparr>guard_active := False, guard_signum := - 1\<rparr>, p')))"

text \<open>Move assignment from another guard: the new target, the emptied source and the process.\<close>

definition guard_move_assign ::
    "(int \<Rightarrow> bool) \<Rightarrow> signal_guard \<Rightarrow> signal_guard \<Rightarrow> process_t \<Rightarrow> signal_guard \<times> signal_guard \<times> process_t" where
  "guard_move_assign accepts target source p =
     (case guard_release accepts target p of
        (t, p') \<Rightarrow>
          (t\<lparr>guard_signum := guard_signum source, guard_previous := guard_previous source,
             guard_active := guard_active source\<rparr>,
           source\<lparr>guard_active := False, guard_signum := - 1\<rparr>, p'))"

definition guard_move_construct ::
    "(int \<Rightarrow> bool) \<Rightarrow> signal_guard \<Rightarrow> process_t \<Rightarrow> signal_guard \<times> signal_guard \<times> process_t" where
  "guard_move_construct accepts source p = guard_move_assign accepts signal_guard_default source p"

text \<open>\<^verbatim>\<open>make_stop_source_signal_guards\<close>: SIGINT is 2 and SIGTERM is 15.\<close>

definition make_stop_source_signal_guards ::
    "(int \<Rightarrow> bool) \<Rightarrow> process_t \<Rightarrow> (signal_guard \<times> signal_guard) \<times> process_t" where
  "make_stop_source_signal_guards accepts p =
     (case guard_install accepts 2 request_stop_signal_handler p of
        (sigint, p1) \<Rightarrow>
          (case guard_install accepts 15 request_stop_signal_handler p1 of
             (sigterm, p2) \<Rightarrow> ((sigint, sigterm), p2)))"

text \<open>Members are destroyed in reverse order of declaration.\<close>

definition destroy_guards ::
    "(int \<Rightarrow> bool) \<Rightarrow> signal_guard \<times> signal_guard \<Rightarrow> process_t \<Rightarrow> process_t" where
  "destroy_guards accepts gs p =
     snd (guard_release accepts (fst gs) (snd (guard_release accepts (snd gs) p)))"

lemmas guard_defs = guard_install_def guard_release_def guard_move_assign_def guard_move_construct_def
  std_signal_def signal_guard_default_def

section \<open>Properties of the guards\<close>

text \<open>
  C31: the engine's guards restore the process. While they live, SIGINT and SIGTERM request a
  stop (where the system lets them be handled), and destroying them, also after deliveries,
  leaves every handler as it was before.
\<close>

theorem stop_guards_restore:
  "\<exists>gs p'. make_stop_source_signal_guards accepts p = (gs, p') \<and>
    (accepts 2 \<longrightarrow> stop_flag (deliver 2 p')) \<and> (accepts 15 \<longrightarrow> stop_flag (deliver 15 p')) \<and>
    (\<forall>signum. handlers (destroy_guards accepts gs (deliver signum p')) = handlers p)"
  by (cases "accepts 2"; cases "accepts 15")
    (simp_all add: make_stop_source_signal_guards_def destroy_guards_def guard_defs deliver_def fun_upd_twist [of 2 15])

theorem stop_guards_restore_witness:
  "\<exists>gs p'. make_stop_source_signal_guards (\<lambda>_. True) \<lparr>handlers = \<lambda>_. SIG_DFL, stop_flag = False\<rparr> = (gs, p') \<and>
     stop_flag (deliver 2 p') \<and> stop_flag (deliver 15 p') \<and>
     handlers (destroy_guards (\<lambda>_. True) gs (deliver 2 p')) 2 = SIG_DFL"
  using stop_guards_restore [of "\<lambda>_. True" "\<lparr>handlers = \<lambda>_. SIG_DFL, stop_flag = False\<rparr>"] by fastforce

text \<open>
  Ownership moves. After moving a guard, releasing the source does nothing, releasing the
  target restores the handler the guard had saved, and releasing it a second time does nothing.
\<close>

lemma guard_move_transfers:
  assumes "guard_install accepts signum h p = (g, p')"
  shows "\<exists>target source. guard_move_construct accepts g p' = (target, source, p') \<and>
    guard_release accepts source p' = (source, p') \<and>
    (\<exists>t. guard_release accepts target p' = (t, p) \<and> guard_release accepts t p = (t, p))"
  using assms by (cases "accepts signum") (auto simp: guard_defs)

end
