(* ===== verification/Engine_Config.thy ===== *)
theory Engine_Config
  imports Wire_Text
begin

text \<open>
  The command line of the engine (\<^verbatim>\<open>matching_engine_config.hpp\<close>). The option parser is the
  library cxxopts, which is not part of the sources: its result is a parameter, the number of
  occurrences of each flag and the values of its arguments, or the error it throws. What is
  modelled is what the engine does with it.
\<close>

section \<open>The parsed arguments\<close>

text \<open>
  \<open>count_of\<close>, \<open>size_value\<close> and \<open>int_value\<close> stand for \<^verbatim>\<open>parsed.count(flag)\<close>,
  \<^verbatim>\<open>parsed[flag].as<std::size_t>()\<close> and \<^verbatim>\<open>parsed[flag].as<int>()\<close>.
\<close>

record parse_result_t =
  count_of :: "string \<Rightarrow> nat"
  size_value :: "string \<Rightarrow> 64 word"
  int_value :: "string \<Rightarrow> int"

section \<open>The configuration\<close>

record config_t =
  capacity :: "64 word"
  reader_cpu :: "int option"
  matcher_cpu :: "int option"
  writer_cpu :: "int option"

definition default_capacity_v :: "64 word" where
  "default_capacity_v = 2000000"

definition config_init :: config_t where
  "config_init = \<lparr>capacity = default_capacity_v, reader_cpu = None, matcher_cpu = None, writer_cpu = None\<rparr>"

text \<open>
  The help text, line by line; the characters outside ASCII are written as their UTF-8 bytes.
  \<^verbatim>\<open>std::println\<close> ends the text with one more line feed.
\<close>

definition write_help :: string where
  "write_help = concat (map (\<lambda>l. l @ [CHR 0x0A])
     [''matching_engine '' @ [CHR 0xE2, CHR 0x80, CHR 0x94] @ '' single-symbol limit-order matching engine'',
      [],
      ''Reads CSV-encoded event lines from stdin, drives the order book through an'',
      ''event-driven runtime (reader '' @ [CHR 0xE2, CHR 0x86, CHR 0x92] @ '' matcher '' @ [CHR 0xE2, CHR 0x86, CHR 0x92] @ '' writer agents joined by SPSC queues),'',
      ''writes trade and fill events to stdout, and reports parse errors on stderr.'',
      [],
      ''Input grammar (one message per line):'',
      ''  ADD,<orderid>,<side>,<quantity>,<price>,<tif>   add order (side: BUY | SLL; tif: GTC | IOC | FOK)'',
      ''  CXL,<orderid>                                    cancel order'',
      [],
      ''Output grammar:'',
      ''  TRD,<aggressive-id>,<resting-id>,<quantity>                 TradeEvent'',
      ''  RST,<orderid>,<filled>,<resting>                           order accepted, residue rests'',
      ''  FIL,<orderid>,<filled>                                     order fully filled'',
      ''  CAN,<orderid>,<filled>,<cancelled>,<cause>                   order cancelled; cause: USR | IOC | FOK'',
      ''  REJ,<orderid>,<code>                                       order rejected; code: DUP | UNK | IQT | IPR | IID'',
      ''Flags:'',
      ''  --capacity <N>     Maximum number of resting orders the book can allocate (default: '' @ format_int (uint default_capacity_v) @ '').'',
      ''  --reader-cpu <N>   Pin the stdin reader agent to CPU N.'',
      ''  --matcher-cpu <N>  Pin the matcher agent to CPU N.'',
      ''  --writer-cpu <N>   Pin the output writer agent to CPU N.'',
      ''  --help, -h         Print this message and exit.'']) @ [CHR 0x0A]"

text \<open>The two exceptions; the message on the standard error comes with the second.\<close>

datatype config_exit = help_requested | parse_error string

definition parse_capacity :: "parse_result_t \<Rightarrow> config_t \<Rightarrow> config_exit + config_t" where
  "parse_capacity parsed cfg =
     (if count_of parsed ''capacity'' \<noteq> 0
      then (let cfg1 = cfg\<lparr>capacity := size_value parsed ''capacity''\<rparr>
            in if capacity cfg1 = 0
               then Inl (parse_error (''matching_engine: invalid --capacity value '' @ quoted ''0''))
               else Inr cfg1)
      else Inr cfg)"

text \<open>One turn of the loop over the three CPU flags; \<open>store\<close> writes through the holder.\<close>

definition parse_cpu ::
    "parse_result_t \<Rightarrow> string \<times> (int option \<Rightarrow> config_t \<Rightarrow> config_t) \<Rightarrow> config_t \<Rightarrow>
     config_exit + config_t" where
  "parse_cpu parsed entry cfg =
     (case entry of (flag, store) \<Rightarrow>
        if count_of parsed flag \<noteq> 0
        then (let v = int_value parsed flag
              in if v < 0
                 then Inl (parse_error (''matching_engine: invalid --'' @ flag @ '' value '' @ quoted (format_int v)))
                 else Inr (store (Some v) cfg))
        else Inr cfg)"

fun parse_cpus ::
    "parse_result_t \<Rightarrow> (string \<times> (int option \<Rightarrow> config_t \<Rightarrow> config_t)) list \<Rightarrow> config_t \<Rightarrow>
     config_exit + config_t" where
  "parse_cpus parsed [] cfg = Inr cfg"
| "parse_cpus parsed (entry # entries) cfg =
     (case parse_cpu parsed entry cfg of
        Inl e \<Rightarrow> Inl e
      | Inr cfg1 \<Rightarrow> parse_cpus parsed entries cfg1)"

definition cpu_flags :: "(string \<times> (int option \<Rightarrow> config_t \<Rightarrow> config_t)) list" where
  "cpu_flags =
     [(''reader-cpu'', \<lambda>v cfg. cfg\<lparr>reader_cpu := v\<rparr>), (''matcher-cpu'', \<lambda>v cfg. cfg\<lparr>matcher_cpu := v\<rparr>),
      (''writer-cpu'', \<lambda>v cfg. cfg\<lparr>writer_cpu := v\<rparr>)]"

text \<open>\<open>parse_options\<close> stands for \<^verbatim>\<open>options.parse(argc, argv)\<close>; \<open>Inl\<close> is the text of its exception.\<close>

definition parse_config ::
    "(string list \<Rightarrow> string + parse_result_t) \<Rightarrow> string list \<Rightarrow> config_exit + config_t" where
  "parse_config parse_options argv =
     (case parse_options argv of
        Inl what \<Rightarrow> Inl (parse_error (''matching_engine: '' @ what))
      | Inr parsed \<Rightarrow>
          if count_of parsed ''help'' \<noteq> 0 then Inl help_requested
          else (case parse_capacity parsed config_init of
                  Inl e \<Rightarrow> Inl e
                | Inr cfg \<Rightarrow> parse_cpus parsed cpu_flags cfg))"

text \<open>The exit status of \<^verbatim>\<open>main\<close>: both exceptions end the program before any agent starts.\<close>

definition exit_status :: "config_exit + config_t \<Rightarrow> int" where
  "exit_status r = (case r of Inl (parse_error _) \<Rightarrow> 1 | Inl help_requested \<Rightarrow> 0 | Inr _ \<Rightarrow> 0)"

lemma parse_capacity_Inr:
  "parse_capacity parsed cfg = Inr cfg' \<longleftrightarrow>
     (if count_of parsed ''capacity'' = 0 then cfg' = cfg
      else size_value parsed ''capacity'' \<noteq> 0 \<and> cfg' = cfg\<lparr>capacity := size_value parsed ''capacity''\<rparr>)"
  by (auto simp: parse_capacity_def Let_def)

lemma parse_cpu_Inr:
  "parse_cpu parsed (flag, store) cfg = Inr cfg' \<longleftrightarrow>
     (if count_of parsed flag = 0 then cfg' = cfg
      else 0 \<le> int_value parsed flag \<and> cfg' = store (Some (int_value parsed flag)) cfg)"
  by (auto simp: parse_cpu_def Let_def)

lemma parse_cpus_Cons:
  "parse_cpus parsed (entry # entries) cfg = Inr cfg' \<longleftrightarrow>
     (\<exists>cfg1. parse_cpu parsed entry cfg = Inr cfg1 \<and> parse_cpus parsed entries cfg1 = Inr cfg')"
  by (simp split: sum.split)

lemma parse_cpus_Inr:
  assumes "parse_cpus parsed cpu_flags cfg = Inr cfg'" "reader_cpu cfg = None" "matcher_cpu cfg = None" "writer_cpu cfg = None"
  shows "capacity cfg' = capacity cfg"
    "reader_cpu cfg' = (if count_of parsed ''reader-cpu'' = 0 then None else Some (int_value parsed ''reader-cpu''))"
    "matcher_cpu cfg' = (if count_of parsed ''matcher-cpu'' = 0 then None else Some (int_value parsed ''matcher-cpu''))"
    "writer_cpu cfg' = (if count_of parsed ''writer-cpu'' = 0 then None else Some (int_value parsed ''writer-cpu''))"
    "list_all (\<lambda>cpu. case cpu of None \<Rightarrow> True | Some v \<Rightarrow> 0 \<le> v) [reader_cpu cfg', matcher_cpu cfg', writer_cpu cfg']"
proof -
  let ?flag = "\<lambda>f. count_of parsed f = 0" and ?v = "int_value parsed"
  from assms(1) obtain c1 c2 where
    c1: "parse_cpu parsed (''reader-cpu'', \<lambda>v cfg. cfg\<lparr>reader_cpu := v\<rparr>) cfg = Inr c1" and
    c2: "parse_cpu parsed (''matcher-cpu'', \<lambda>v cfg. cfg\<lparr>matcher_cpu := v\<rparr>) c1 = Inr c2" and
    c3: "parse_cpu parsed (''writer-cpu'', \<lambda>v cfg. cfg\<lparr>writer_cpu := v\<rparr>) c2 = Inr cfg'"
    unfolding cpu_flags_def parse_cpus_Cons by auto
  note c = c1 [unfolded parse_cpu_Inr] c2 [unfolded parse_cpu_Inr] c3 [unfolded parse_cpu_Inr]
  show "capacity cfg' = capacity cfg" using c by (simp split: if_splits)
  show r: "reader_cpu cfg' = (if ?flag ''reader-cpu'' then None else Some (?v ''reader-cpu''))"
    using c assms(2) by (simp split: if_splits)
  show m: "matcher_cpu cfg' = (if ?flag ''matcher-cpu'' then None else Some (?v ''matcher-cpu''))"
    using c assms(3) by (simp split: if_splits)
  show w: "writer_cpu cfg' = (if ?flag ''writer-cpu'' then None else Some (?v ''writer-cpu''))"
    using c assms(4) by (simp split: if_splits)
  show "list_all (\<lambda>cpu. case cpu of None \<Rightarrow> True | Some v \<Rightarrow> 0 \<le> v) [reader_cpu cfg', matcher_cpu cfg', writer_cpu cfg']"
    unfolding r m w using c by (simp split: if_splits)
qed

section \<open>Properties of the configuration\<close>

text \<open>
  A configuration that the engine accepts is usable and is what the command line says:
  the capacity is positive, every pinned CPU is not negative, a flag that is present gives its
  value and a flag that is absent leaves the default.
\<close>

lemma accepted_config_valid:
  assumes "parse_config parse_options argv = Inr cfg"
  shows "\<exists>parsed. parse_options argv = Inr parsed \<and> count_of parsed ''help'' = 0 \<and>
    capacity cfg = (if count_of parsed ''capacity'' = 0 then 2000000 else size_value parsed ''capacity'') \<and>
    capacity cfg \<noteq> 0 \<and>
    reader_cpu cfg = (if count_of parsed ''reader-cpu'' = 0 then None else Some (int_value parsed ''reader-cpu'')) \<and>
    matcher_cpu cfg = (if count_of parsed ''matcher-cpu'' = 0 then None else Some (int_value parsed ''matcher-cpu'')) \<and>
    writer_cpu cfg = (if count_of parsed ''writer-cpu'' = 0 then None else Some (int_value parsed ''writer-cpu'')) \<and>
    list_all (\<lambda>cpu. case cpu of None \<Rightarrow> True | Some v \<Rightarrow> 0 \<le> v) [reader_cpu cfg, matcher_cpu cfg, writer_cpu cfg]"
proof -
  from assms obtain parsed cfg1 where p: "parse_options argv = Inr parsed" "count_of parsed ''help'' = 0"
    "parse_capacity parsed config_init = Inr cfg1" "parse_cpus parsed cpu_flags cfg1 = Inr cfg"
    by (auto simp: parse_config_def split: sum.splits if_splits)
  have c: "capacity cfg1 = (if count_of parsed ''capacity'' = 0 then 2000000 else size_value parsed ''capacity'')"
    "capacity cfg1 \<noteq> 0" "reader_cpu cfg1 = None" "matcher_cpu cfg1 = None" "writer_cpu cfg1 = None"
    using p(3) unfolding parse_capacity_Inr by (simp_all add: config_init_def default_capacity_v_def split: if_splits)
  from parse_cpus_Inr [OF p(4) c(3-5)] p(1,2) c(1,2) show ?thesis by (intro exI [of _ parsed]) simp
qed

end
