(* ===== verification/Agent_System.thy ===== *)
theory Agent_System
  imports Main
begin

text \<open>
  Lifecycle of the worker threads (\<^verbatim>\<open>agent.hpp\<close>, \<^verbatim>\<open>agent_system.hpp\<close>): an agent owns one loop and
  at most one thread, the system starts its agents in declaration order and joins them in
  reverse. The loops themselves are the agents of the theory \<^verbatim>\<open>Pipeline\<close>; here a loop is an
  opaque value and what happens is the list of thread actions.
\<close>

section \<open>One agent\<close>

datatype thread_t = no_thread | running_thread | joined_thread

record 'l agent_t =
  agent_loop :: 'l
  cpu_id :: "int option"
  agent_thread :: thread_t

datatype 'l thread_op = Pin int | Run 'l

datatype 'l action = Spawn "'l thread_op list" | Await 'l

definition make_agent :: "'l \<Rightarrow> int option \<Rightarrow> 'l agent_t" where
  "make_agent loop cpu = \<lparr>agent_loop = loop, cpu_id = cpu, agent_thread = no_thread\<rparr>"

text \<open>What the new thread does: it pins itself, best effort, and runs the loop.\<close>

definition thread_body :: "'l agent_t \<Rightarrow> 'l thread_op list" where
  "thread_body a = (case cpu_id a of None \<Rightarrow> [] | Some cpu \<Rightarrow> [Pin cpu]) @ [Run (agent_loop a)]"

text \<open>
  \<^verbatim>\<open>start\<close> spawns the thread and moves it into the thread variable; the move assignment of
  \<^verbatim>\<open>std::jthread\<close> first waits for a thread the variable still owns.
\<close>

definition agent_start :: "'l agent_t \<Rightarrow> 'l agent_t \<times> 'l action list" where
  "agent_start a =
     (a\<lparr>agent_thread := running_thread\<rparr>,
      Spawn (thread_body a) # (if agent_thread a = running_thread then [Await (agent_loop a)] else []))"

text \<open>\<^verbatim>\<open>join\<close>: waits if the thread is joinable, otherwise returns at once.\<close>

definition agent_join :: "'l agent_t \<Rightarrow> 'l agent_t \<times> 'l action list" where
  "agent_join a =
     (if agent_thread a = running_thread
      then (a\<lparr>agent_thread := joined_thread\<rparr>, [Await (agent_loop a)])
      else (a, []))"

section \<open>The system\<close>

record 'l agent_system_t =
  system_stop :: bool
  agents :: "'l agent_t list"
  actions :: "'l action list"

definition make_agent_system :: "'l agent_t list \<Rightarrow> 'l agent_system_t" where
  "make_agent_system as = \<lparr>system_stop = False, agents = as, actions = []\<rparr>"

definition on_agent ::
    "('l agent_t \<Rightarrow> 'l agent_t \<times> 'l action list) \<Rightarrow> nat \<Rightarrow> 'l agent_system_t \<Rightarrow> 'l agent_system_t" where
  "on_agent f i s =
     (case f (agents s ! i) of (a, acts) \<Rightarrow> s\<lparr>agents := (agents s)[i := a], actions := actions s @ acts\<rparr>)"

definition start_impl :: "nat list \<Rightarrow> 'l agent_system_t \<Rightarrow> 'l agent_system_t" where
  "start_impl indices s = fold (on_agent agent_start) indices s"

definition join_impl :: "nat list \<Rightarrow> 'l agent_system_t \<Rightarrow> 'l agent_system_t" where
  "join_impl indices s =
     (let n = length indices in fold (\<lambda>i. on_agent agent_join (n - 1 - i)) indices s)"

definition system_start :: "'l agent_system_t \<Rightarrow> 'l agent_system_t" where
  "system_start s = start_impl [0..<length (agents s)] s"

definition system_join :: "'l agent_system_t \<Rightarrow> 'l agent_system_t" where
  "system_join s = join_impl [0..<length (agents s)] s"

definition request_stop :: "'l agent_system_t \<Rightarrow> 'l agent_system_t" where
  "request_stop s = s\<lparr>system_stop := True\<rparr>"

section \<open>Sequences of agent operations\<close>

lemma on_agent_agents [simp]: "agents (on_agent f i s) = (agents s)[i := fst (f (agents s ! i))]"
  by (simp add: on_agent_def split: prod.split)

lemma on_agent_actions [simp]: "actions (on_agent f i s) = actions s @ snd (f (agents s ! i))"
  by (simp add: on_agent_def split: prod.split)

lemma fold_on_agent_length [simp]: "length (agents (fold (on_agent f) js s)) = length (agents s)"
  by (induction js arbitrary: s) simp_all

lemma fold_on_agent_nth:
  "distinct js \<Longrightarrow> \<forall>i \<in> set js. i < length (agents s) \<Longrightarrow>
   agents (fold (on_agent f) js s) ! k = (if k \<in> set js then fst (f (agents s ! k)) else agents s ! k)"
proof (induction js arbitrary: s)
  case (Cons i js)
  then show ?case using Cons.IH [of "on_agent f i s"] by (auto simp: nth_list_update)
qed simp

lemma fold_on_agent_actions:
  "distinct js \<Longrightarrow> \<forall>i \<in> set js. i < length (agents s) \<Longrightarrow>
   actions (fold (on_agent f) js s) = actions s @ concat (map (\<lambda>i. snd (f (agents s ! i))) js)"
proof (induction js arbitrary: s)
  case (Cons i js)
  have "concat (map (\<lambda>j. snd (f (agents (on_agent f i s) ! j))) js) = concat (map (\<lambda>j. snd (f (agents s ! j))) js)"
    using Cons.prems(1)
    by (intro arg_cong [where f = concat] map_cong refl) (metis distinct.simps(2) nth_list_update_neq on_agent_agents)
  then show ?case using Cons.IH [of "on_agent f i s"] Cons.prems by simp
qed simp

lemma join_impl_reverse: "join_impl [0..<n] s = fold (on_agent agent_join) (rev [0..<n]) s"
proof -
  have "rev [0..<n] = map (\<lambda>i. n - 1 - i) [0..<n]"
    by (rule nth_equalityI) (simp_all add: rev_nth)
  then show ?thesis by (simp add: join_impl_def fold_map comp_def)
qed

lemma concat_map_single: "concat (map (\<lambda>x. [f x]) xs) = map f xs"
  by (induction xs) simp_all

text \<open>Starting fresh agents and joining running ones, as whole-system facts.\<close>

lemma system_start_fresh:
  assumes "list_all (\<lambda>a. agent_thread a = no_thread) (agents s)"
  shows "agents (system_start s) = map (\<lambda>a. a\<lparr>agent_thread := running_thread\<rparr>) (agents s)"
    and "actions (system_start s) = actions s @ map (\<lambda>a. Spawn (thread_body a)) (agents s)"
proof -
  let ?n = "length (agents s)"
  show "agents (system_start s) = map (\<lambda>a. a\<lparr>agent_thread := running_thread\<rparr>) (agents s)"
    by (rule nth_equalityI) (simp_all add: system_start_def start_impl_def fold_on_agent_nth agent_start_def)
  have "map (\<lambda>i. snd (agent_start (agents s ! i))) [0..<?n] = map (\<lambda>a. [Spawn (thread_body a)]) (agents s)"
    using assms by (intro nth_equalityI) (simp_all add: agent_start_def list_all_length)
  then show "actions (system_start s) = actions s @ map (\<lambda>a. Spawn (thread_body a)) (agents s)"
    by (simp add: system_start_def start_impl_def fold_on_agent_actions concat_map_single)
qed

lemma system_join_running:
  assumes "list_all (\<lambda>a. agent_thread a = running_thread) (agents s)"
  shows "agents (system_join s) = map (\<lambda>a. a\<lparr>agent_thread := joined_thread\<rparr>) (agents s)"
    and "actions (system_join s) = actions s @ rev (map (\<lambda>a. Await (agent_loop a)) (agents s))"
proof -
  let ?n = "length (agents s)"
  show "agents (system_join s) = map (\<lambda>a. a\<lparr>agent_thread := joined_thread\<rparr>) (agents s)"
    using assms by (intro nth_equalityI)
      (simp_all add: system_join_def join_impl_reverse fold_on_agent_nth agent_join_def list_all_length)
  have "map (\<lambda>i. snd (agent_join (agents s ! i))) [0..<?n] = map (\<lambda>a. [Await (agent_loop a)]) (agents s)"
    using assms by (intro nth_equalityI) (simp_all add: agent_join_def list_all_length)
  then have "map (\<lambda>i. snd (agent_join (agents s ! i))) (rev [0..<?n]) =
      map (\<lambda>a. [Await (agent_loop a)]) (rev (agents s))"
    by (simp add: rev_map [symmetric])
  then show "actions (system_join s) = actions s @ rev (map (\<lambda>a. Await (agent_loop a)) (agents s))"
    by (simp add: system_join_def join_impl_reverse fold_on_agent_actions concat_map_single rev_map)
qed

lemma system_join_joined:
  assumes "list_all (\<lambda>a. agent_thread a \<noteq> running_thread) (agents s)"
  shows "actions (system_join s) = actions s"
proof -
  let ?n = "length (agents s)"
  have "map (\<lambda>i. snd (agent_join (agents s ! i))) (rev [0..<?n]) = map (\<lambda>i. []) (rev [0..<?n])"
    using assms by (intro map_cong refl) (simp add: agent_join_def list_all_length)
  then show ?thesis by (simp add: system_join_def join_impl_reverse fold_on_agent_actions)
qed

section \<open>Properties of the lifecycle\<close>

text \<open>
  Starting and joining a system of fresh agents spawns one thread per agent, in declaration
  order, each pinning itself where the agent has a CPU and then running its loop, and then waits
  for every loop once, in reverse order; a second join does nothing.
\<close>

lemma system_lifecycle:
  assumes "list_all (\<lambda>a. agent_thread a = no_thread) as"
  shows "let s = system_join (system_start (make_agent_system as))
    in actions s = map (\<lambda>a. Spawn (thread_body a)) as @ rev (map (\<lambda>a. Await (agent_loop a)) as) \<and>
       list_all (\<lambda>a. agent_thread a = joined_thread) (agents s) \<and> actions (system_join s) = actions s"
proof -
  define s1 where "s1 = system_start (make_agent_system as)"
  have "agents s1 = map (\<lambda>a. a\<lparr>agent_thread := running_thread\<rparr>) as"
    "actions s1 = map (\<lambda>a. Spawn (thread_body a)) as"
    using system_start_fresh [of "make_agent_system as"] assms by (simp_all add: s1_def make_agent_system_def)
  with system_join_running [of s1] system_join_joined [of "system_join s1"]
  show ?thesis by (simp add: s1_def [symmetric] Let_def list_all_length comp_def)
qed

end
