(* ===== verification/Engine_Main.thy ===== *)
theory Engine_Main
  imports Pipeline Clob_Memory Signal_Guard Engine_Config Agent_System
begin

text \<open>
  The program \<^verbatim>\<open>matching_engine\<close> (\<^verbatim>\<open>src/matching_engine.cpp\<close>): its command line, the signal guards,
  the book from the factory, the two queues, the three agents and the exit status. The threads
  run as the interleavings of atomic accesses of the theory \<^verbatim>\<open>Pipeline\<close>, so a run of the program is a relation
  between what it is given and what it leaves behind.
\<close>

section \<open>Wiring\<close>

definition queue_capacity_v :: "64 word" where
  "queue_capacity_v = push_bit 16 1"

datatype loop_t = reader_loop | matcher_loop | writer_loop

definition engine_agents :: "Engine_Config.config_t \<Rightarrow> loop_t agent_t list" where
  "engine_agents config =
     [make_agent reader_loop (reader_cpu config), make_agent matcher_loop (matcher_cpu config),
      make_agent writer_loop (writer_cpu config)]"

record result_t =
  exit_code :: int
  std_out :: string
  std_err :: string
  final_process :: process_t
  thread_actions :: "loop_t action list"
  book_memory :: "clob_memory_t option"

text \<open>
  \<^verbatim>\<open>main\<close>. \<open>parse_options\<close> stands for the option parser and \<open>accepts\<close> for the signals the system
  lets a program handle. The two exceptions of the configuration end the program before anything
  is built. Otherwise the agents start, run in some interleaving, during which the signals
  \<open>signums\<close> arrive, and are joined; the reader reads its whole input also after a stop, so
  all its diagnostics are written. The stop state of the pipeline is that of the global
  stop source.
\<close>

inductive engine_main ::
    "(string list \<Rightarrow> string + parse_result_t) \<Rightarrow> (int \<Rightarrow> bool) \<Rightarrow> string list \<Rightarrow> string \<Rightarrow> process_t \<Rightarrow>
     result_t \<Rightarrow> bool"
  for parse_options accepts argv input p where
  engine_help:
    "parse_config parse_options argv = Inl help_requested \<Longrightarrow>
     engine_main parse_options accepts argv input p
       \<lparr>exit_code = exit_status (parse_config parse_options argv), std_out = write_help, std_err = [],
        final_process = p, thread_actions = [], book_memory = None\<rparr>"
| engine_refused:
    "parse_config parse_options argv = Inl (Engine_Config.parse_error message) \<Longrightarrow>
     engine_main parse_options accepts argv input p
       \<lparr>exit_code = exit_status (parse_config parse_options argv), std_out = [], std_err = println message,
        final_process = p, thread_actions = [], book_memory = None\<rparr>"
| engine_run:
    "parse_config parse_options argv = Inr config \<Longrightarrow>
     make_stop_source_signal_guards accepts p = (guards, p1) \<Longrightarrow>
     clob_factory_create (capacity config) = (memory, book) \<Longrightarrow>
     (engine_step queue_capacity_v)\<^sup>*\<^sup>* ((engine_init queue_capacity_v input)\<lparr>matcher_book := book\<rparr>) s \<Longrightarrow>
     all_joined s \<Longrightarrow>
     p2 = fold deliver signums p1 \<Longrightarrow> stop_requested s = stop_flag p2 \<Longrightarrow>
     system = system_join (system_start (make_agent_system (engine_agents config))) \<Longrightarrow>
     engine_main parse_options accepts argv input p
       \<lparr>exit_code = exit_status (parse_config parse_options argv), std_out = sink s,
        std_err = stream_diagnostics input, final_process = destroy_guards accepts guards p2,
        thread_actions = actions system, book_memory = Some memory\<rparr>"

section \<open>Helpers\<close>

lemma queue_capacity_valid: "valid_capacity queue_capacity_v"
  by code_simp

lemma book_of_factory: "clob_factory_create n = (memory, book) \<Longrightarrow> (engine_init k input)\<lparr>matcher_book := book\<rparr> = engine_init k input"
  by (simp add: clob_factory_create_def engine_init_def relay_init_def)

text \<open>Any number of signals leaves the handlers alone, and the guards put them back.\<close>

lemma deliver_handlers [simp]: "handlers (fold deliver signums p) = handlers p"
  by (induction signums arbitrary: p) (simp_all add: deliver_def)

lemma guards_restore:
  assumes "make_stop_source_signal_guards accepts p = (guards, p1)" "handlers q = handlers p1"
  shows "handlers (destroy_guards accepts guards q) = handlers p"
  using assms by (cases "accepts 2"; cases "accepts 15")
    (auto simp: make_stop_source_signal_guards_def destroy_guards_def guard_defs fun_upd_twist [of 2 15])

lemma engine_threads:
  "actions (system_join (system_start (make_agent_system (engine_agents config)))) =
   [Spawn (thread_body (make_agent reader_loop (reader_cpu config))),
    Spawn (thread_body (make_agent matcher_loop (matcher_cpu config))),
    Spawn (thread_body (make_agent writer_loop (writer_cpu config))),
    Await writer_loop, Await matcher_loop, Await reader_loop]"
  using system_lifecycle [of "engine_agents config"] by (simp add: Let_def engine_agents_def make_agent_def)

section \<open>Properties of the program\<close>

text \<open>
  C3: the whole program. Whatever the schedule and the signals, a run ends with exit code 0 unless
  the command line is refused, which gives exit code 1, a message and no output. A run that was
  accepted spawns the reader, the matcher and the writer in this order and waits for them in
  reverse, writes every diagnostic of its input, writes a prefix of what the sequential engine
  writes and all of it when no stop was requested, and leaves the signal handlers as it found them.
\<close>

theorem engine_main_correct:
  assumes "engine_main parse_options accepts argv input p r"
  shows "handlers (final_process r) = handlers p \<and>
    (case parse_config parse_options argv of
       Inl help_requested \<Rightarrow> exit_code r = 0 \<and> std_out r = write_help \<and> std_err r = [] \<and> thread_actions r = []
     | Inl (Engine_Config.parse_error message) \<Rightarrow>
         exit_code r = 1 \<and> std_out r = [] \<and> std_err r = println message \<and> thread_actions r = []
     | Inr config \<Rightarrow>
         exit_code r = 0 \<and> book_memory r = Some (clob_memory_init (capacity config)) \<and>
         (\<exists>rest. sequential_engine input = Some (std_out r @ rest, std_err r) \<and>
           (stop_flag (final_process r) \<or> rest = [])) \<and>
         thread_actions r =
           [Spawn (thread_body (make_agent reader_loop (reader_cpu config))),
            Spawn (thread_body (make_agent matcher_loop (matcher_cpu config))),
            Spawn (thread_body (make_agent writer_loop (writer_cpu config))),
            Await writer_loop, Await matcher_loop, Await reader_loop])"
  using assms
proof cases
  case (engine_run config guards p1 memory book s p2 signums system)
  note run = engine_run(5) [unfolded book_of_factory [OF engine_run(4)]]
  have "handlers (destroy_guards accepts guards p2) = handlers p"
    by (rule guards_restore [OF engine_run(3)]) (simp add: engine_run(7))
  moreover have "stop_flag (destroy_guards accepts guards p2) = stop_flag p2"
    by (simp add: destroy_guards_def guard_release_def std_signal_def)
  moreover have "\<exists>rest. sequential_engine input = Some (sink s @ rest, stream_diagnostics input) \<and>
      (stop_flag p2 \<or> rest = [])"
    using engine_prefix_output [OF queue_capacity_valid run] engine_final_output [OF queue_capacity_valid run]
      engine_token [OF queue_capacity_valid run] engine_run(6,8) by (auto simp: all_joined_def)
  moreover have "memory = clob_memory_init (capacity config)" using engine_run(4) by (simp add: clob_factory_create_def)
  ultimately show ?thesis using engine_run(1,2,9) engine_threads [of config] by (simp add: exit_status_def)
qed (simp_all add: exit_status_def)

theorem engine_main_correct_witness:
  "\<exists>r. engine_main (\<lambda>_. Inr \<lparr>count_of = \<lambda>_. 0, size_value = \<lambda>_. 0, int_value = \<lambda>_. 0\<rparr>) (\<lambda>_. True)
       [''matching_engine''] ''CXL,7'' \<lparr>handlers = \<lambda>_. SIG_DFL, stop_flag = False\<rparr> r \<and>
     exit_code r = 0 \<and> sequential_engine ''CXL,7'' = Some (std_out r, std_err r) \<and>
     handlers (final_process r) = (\<lambda>_. SIG_DFL)"
proof -
  let ?parse = "\<lambda>_ :: string list. Inr \<lparr>count_of = \<lambda>_. 0, size_value = \<lambda>_. 0, int_value = \<lambda>_. 0\<rparr> :: string + parse_result_t"
  let ?p = "\<lparr>handlers = \<lambda>_. SIG_DFL, stop_flag = False\<rparr>"
  have cfg: "parse_config ?parse [''matching_engine''] = Inr config_init"
    by (simp add: parse_config_def parse_capacity_def parse_cpu_def cpu_flags_def)
  obtain s where s: "(engine_step queue_capacity_v)\<^sup>*\<^sup>* (engine_init queue_capacity_v ''CXL,7'') s"
    "all_joined s" "\<not> stop_requested s" using engine_can_join [OF queue_capacity_valid] by blast
  obtain guards p1 where g: "make_stop_source_signal_guards (\<lambda>_. True) ?p = (guards, p1)" by fastforce
  then have f: "\<not> stop_flag p1" by (auto simp: make_stop_source_signal_guards_def guard_defs)
  obtain memory book where m: "clob_factory_create (capacity config_init) = (memory, book)" by fastforce
  from s(1) book_of_factory [OF m] have s1: "(engine_step queue_capacity_v)\<^sup>*\<^sup>* ((engine_init queue_capacity_v ''CXL,7'')\<lparr>matcher_book := book\<rparr>) s"
    by simp
  from engine_run [OF cfg g m s1 s(2), where signums = "[]"] f s(3)
  obtain r where r: "engine_main ?parse (\<lambda>_. True) [''matching_engine''] ''CXL,7'' ?p r"
    "\<not> stop_flag (final_process r)"
    by (fastforce simp: destroy_guards_def guard_release_def std_signal_def)
  from engine_main_correct [OF r(1)] r cfg show ?thesis by (intro exI [of _ r]) auto
qed

end
