(* ===== verification/Market_Profile.thy ===== *)
theory Market_Profile
  imports Complex_Main Prelude
begin

text \<open>
  The five market presets of the benchmark (\<^verbatim>\<open>market_profile.hpp\<close>). The floating-point members
  are only stored and copied, so their type is a parameter \<open>'d\<close>; \<open>lit\<close> stands for the
  compiler's conversion of a decimal literal to the nearest double.
\<close>

record 'd market_profile_t =
  profile_name :: string
  profile_seed :: "64 word"
  num_orders :: "64 word"
  cancel_ratio :: 'd
  aggressive_ratio :: 'd
  aggression_spread_k :: 'd
  buy_bias :: 'd
  mu :: 'd
  sigma :: 'd
  initial_mid :: int
  tick_size :: int
  place_decay :: 'd
  qty_log_mean :: 'd
  qty_log_stddev :: 'd
  qty_min :: int
  qty_max :: int
  side_autocorr :: 'd
  cancel_depth_lambda :: 'd
  heat_mean :: 'd
  heat_kappa :: 'd
  heat_sigma :: 'd
  hot_cancel_mul :: 'd
  hot_aggressive_mul :: 'd
  hot_sigma_mul :: 'd
  hot_half_spread_extra_ticks :: int
  base_half_spread_ticks :: int
  spread_asym_ticks :: int

definition profile_quiet_build :: "(rat \<Rightarrow> 'd) \<Rightarrow> 'd market_profile_t" where
  "profile_quiet_build lit =
     \<lparr>profile_name = ''quiet'', profile_seed = 42, num_orders = 1000000,
      cancel_ratio = lit (84 / 100), aggressive_ratio = lit (14 / 1000),
      aggression_spread_k = lit (45 / 1000), buy_bias = lit (5 / 10), mu = lit 0,
      sigma = lit (4 / 100000), initial_mid = 10000, tick_size = 1, place_decay = lit (6 / 10),
      qty_log_mean = lit 2, qty_log_stddev = lit (6 / 10), qty_min = 1, qty_max = 1000,
      side_autocorr = lit (6 / 10), cancel_depth_lambda = lit (18 / 10),
      heat_mean = lit (18 / 100), heat_kappa = lit (38 / 1000), heat_sigma = lit (25 / 1000),
      hot_cancel_mul = lit (112 / 100), hot_aggressive_mul = lit (145 / 100),
      hot_sigma_mul = lit (28 / 10), hot_half_spread_extra_ticks = 1,
      base_half_spread_ticks = 1, spread_asym_ticks = 0\<rparr>"

definition profile_active_match :: "(rat \<Rightarrow> 'd) \<Rightarrow> 'd market_profile_t" where
  "profile_active_match lit =
     \<lparr>profile_name = ''active'', profile_seed = 42, num_orders = 1000000,
      cancel_ratio = lit (8 / 10), aggressive_ratio = lit (18 / 100),
      aggression_spread_k = lit (76 / 1000), buy_bias = lit (5 / 10), mu = lit 0,
      sigma = lit (18 / 100000), initial_mid = 10000, tick_size = 1,
      place_decay = lit (55 / 100), qty_log_mean = lit (25 / 10), qty_log_stddev = lit (8 / 10),
      qty_min = 1, qty_max = 1000, side_autocorr = lit (64 / 100), cancel_depth_lambda = lit 2,
      heat_mean = lit (34 / 100), heat_kappa = lit (6 / 100), heat_sigma = lit (58 / 1000),
      hot_cancel_mul = lit (108 / 100), hot_aggressive_mul = lit (138 / 100),
      hot_sigma_mul = lit (22 / 10), hot_half_spread_extra_ticks = 1,
      base_half_spread_ticks = 1, spread_asym_ticks = 0\<rparr>"

definition profile_cancel_heavy :: "(rat \<Rightarrow> 'd) \<Rightarrow> 'd market_profile_t" where
  "profile_cancel_heavy lit =
     \<lparr>profile_name = ''cancel'', profile_seed = 42, num_orders = 1000000,
      cancel_ratio = lit (95 / 100), aggressive_ratio = lit (12 / 1000),
      aggression_spread_k = lit (6 / 100), buy_bias = lit (5 / 10), mu = lit 0,
      sigma = lit (9 / 100000), initial_mid = 10000, tick_size = 1,
      place_decay = lit (55 / 100), qty_log_mean = lit 2, qty_log_stddev = lit (5 / 10),
      qty_min = 1, qty_max = 500, side_autocorr = lit (52 / 100),
      cancel_depth_lambda = lit (24 / 10), heat_mean = lit (12 / 100),
      heat_kappa = lit (32 / 1000), heat_sigma = lit (42 / 1000),
      hot_cancel_mul = lit (105 / 100), hot_aggressive_mul = lit (125 / 100),
      hot_sigma_mul = lit (19 / 10), hot_half_spread_extra_ticks = 1,
      base_half_spread_ticks = 1, spread_asym_ticks = 0\<rparr>"

definition profile_volatile :: "(rat \<Rightarrow> 'd) \<Rightarrow> 'd market_profile_t" where
  "profile_volatile lit =
     \<lparr>profile_name = ''volatile'', profile_seed = 42, num_orders = 1000000,
      cancel_ratio = lit (82 / 100), aggressive_ratio = lit (24 / 100),
      aggression_spread_k = lit (55 / 1000), buy_bias = lit (5 / 10), mu = lit 0,
      sigma = lit (2 / 1000), initial_mid = 10000, tick_size = 1, place_decay = lit (25 / 100),
      qty_log_mean = lit (25 / 10), qty_log_stddev = lit (8 / 10), qty_min = 1, qty_max = 1000,
      side_autocorr = lit (74 / 100), cancel_depth_lambda = lit (185 / 100),
      heat_mean = lit (55 / 100), heat_kappa = lit (26 / 1000), heat_sigma = lit (18 / 100),
      hot_cancel_mul = lit (122 / 100), hot_aggressive_mul = lit (155 / 100),
      hot_sigma_mul = lit 2, hot_half_spread_extra_ticks = 3, base_half_spread_ticks = 1,
      spread_asym_ticks = 2\<rparr>"

definition profile_sweep :: "(rat \<Rightarrow> 'd) \<Rightarrow> 'd market_profile_t" where
  "profile_sweep lit =
     \<lparr>profile_name = ''sweep'', profile_seed = 42, num_orders = 1000000,
      cancel_ratio = lit (62 / 100), aggressive_ratio = lit (72 / 100),
      aggression_spread_k = lit 0, buy_bias = lit (5 / 10), mu = lit 0,
      sigma = lit (12 / 10000), initial_mid = 10000, tick_size = 1, place_decay = lit (2 / 10),
      qty_log_mean = lit 5, qty_log_stddev = lit 1, qty_min = 1, qty_max = 10000,
      side_autocorr = lit (85 / 100), cancel_depth_lambda = lit (9 / 10),
      heat_mean = lit (6 / 10), heat_kappa = lit (38 / 1000), heat_sigma = lit (68 / 1000),
      hot_cancel_mul = lit (118 / 100), hot_aggressive_mul = lit (128 / 100),
      hot_sigma_mul = lit 2, hot_half_spread_extra_ticks = 3, base_half_spread_ticks = 1,
      spread_asym_ticks = 2\<rparr>"

text \<open>The table \<^verbatim>\<open>all\<close> of \<^verbatim>\<open>resolve_presets\<close>, in its order.\<close>

definition all_presets :: "(rat \<Rightarrow> 'd) \<Rightarrow> 'd market_profile_t list" where
  "all_presets lit =
     [profile_quiet_build lit, profile_active_match lit, profile_cancel_heavy lit, profile_volatile lit,
      profile_sweep lit]"

lemmas preset_defs = profile_quiet_build_def profile_active_match_def profile_cancel_heavy_def
  profile_volatile_def profile_sweep_def

lemma all_presets_names:
  "map profile_name (all_presets lit) = [''quiet'', ''active'', ''cancel'', ''volatile'', ''sweep'']"
  by (simp add: all_presets_def preset_defs)

end
