(* ===== verification/Numeric_Library.thy ===== *)
theory Numeric_Library
  imports Market_Profile "HOL-Library.Signed_Division" "HOL-Library.Multiset"
begin

text \<open>
  What the benchmark uses of floating point and of the header \<^verbatim>\<open>random\<close>. The C++ standard leaves the results of
  floating-point operations and of the distributions to the implementation, so they are
  parameters: a record of the operations on doubles and a record of the random draws. The theorems
  of the benchmark hold for every such operations; of the draws they use one documented law, that
  \<^verbatim>\<open>std::uniform_int_distribution\<close> stays between its bounds.
\<close>

section \<open>Doubles\<close>

text \<open>\<open>fp_lround\<close> and \<open>fp_to_size\<close> give a \<^verbatim>\<open>long\<close> and a \<^verbatim>\<open>std::size_t\<close>, both 64 bits wide.\<close>

record 'd double_ops =
  fp_add :: "'d \<Rightarrow> 'd \<Rightarrow> 'd"
  fp_sub :: "'d \<Rightarrow> 'd \<Rightarrow> 'd"
  fp_mul :: "'d \<Rightarrow> 'd \<Rightarrow> 'd"
  fp_div :: "'d \<Rightarrow> 'd \<Rightarrow> 'd"
  fp_neg :: "'d \<Rightarrow> 'd"
  fp_less :: "'d \<Rightarrow> 'd \<Rightarrow> bool"
  fp_le :: "'d \<Rightarrow> 'd \<Rightarrow> bool"
  fp_eq :: "'d \<Rightarrow> 'd \<Rightarrow> bool"
  fp_exp :: "'d \<Rightarrow> 'd"
  fp_log :: "'d \<Rightarrow> 'd"
  fp_sqrt :: "'d \<Rightarrow> 'd"
  fp_ceil :: "'d \<Rightarrow> 'd"
  fp_floor :: "'d \<Rightarrow> 'd"
  fp_lround :: "'d \<Rightarrow> 64 word"
  fp_to_size :: "'d \<Rightarrow> 64 word"
  fp_of_int :: "int \<Rightarrow> 'd"
  fp_lit :: "rat \<Rightarrow> 'd"
  fp_largest :: 'd
  fp_lowest :: 'd

text \<open>\<^verbatim>\<open>std::clamp\<close>, \<^verbatim>\<open>std::max\<close> and \<^verbatim>\<open>std::min\<close> on doubles, with the order of their comparisons.\<close>

definition fp_clamp :: "'d double_ops \<Rightarrow> 'd \<Rightarrow> 'd \<Rightarrow> 'd \<Rightarrow> 'd" where
  "fp_clamp F v lo hi = (if fp_less F v lo then lo else if fp_less F hi v then hi else v)"

definition fp_max :: "'d double_ops \<Rightarrow> 'd \<Rightarrow> 'd \<Rightarrow> 'd" where
  "fp_max F a b = (if fp_less F a b then b else a)"

definition fp_min :: "'d double_ops \<Rightarrow> 'd \<Rightarrow> 'd \<Rightarrow> 'd" where
  "fp_min F a b = (if fp_less F b a then b else a)"

text \<open>\<^verbatim>\<open>std::clamp\<close> on integers; its behaviour is undefined, here \<open>None\<close>, when the bounds are swapped.\<close>

definition int_clamp :: "int \<Rightarrow> int \<Rightarrow> int \<Rightarrow> int option" where
  "int_clamp v lo hi = (if hi < lo then None else Some (if v < lo then lo else if hi < v then hi else v))"

lemma int_clamp_Some:
  "lo \<le> hi \<Longrightarrow> \<exists>r. int_clamp v lo hi = Some r \<and> lo \<le> r \<and> r \<le> hi"
  by (simp add: int_clamp_def)

section \<open>Random draws\<close>

text \<open>
  \<open>'g\<close> is the state of the engine \<^verbatim>\<open>std::mt19937_64\<close> together with that of the distributions that
  draw from it.
\<close>

record ('d, 'g) random_ops =
  rng_seed :: "64 word \<Rightarrow> 'g"
  draw_uniform :: "'g \<Rightarrow> 'd \<times> 'g"
  draw_normal :: "'g \<Rightarrow> 'd \<times> 'g"
  draw_index :: "64 word \<Rightarrow> 64 word \<Rightarrow> 'g \<Rightarrow> 64 word \<times> 'g"

definition draws_in_range :: "('d, 'g) random_ops \<Rightarrow> bool" where
  "draws_in_range R \<longleftrightarrow>
     (\<forall>lo hi g. lo \<le> hi \<longrightarrow> lo \<le> fst (draw_index R lo hi g) \<and> fst (draw_index R lo hi g) \<le> hi)"

text \<open>The size of a vector, and that the last index computed from it is one of the vector.\<close>

definition vector_size :: "'a list \<Rightarrow> 64 word" where
  "vector_size xs = of_nat (length xs)"

lemma unat_word_le: "(a::64 word) \<le> b \<Longrightarrow> unat a \<le> unat b"
  by (simp add: word_le_nat_alt)

lemma last_index_less:
  assumes "xs \<noteq> []"
  shows "unat (vector_size xs - 1) < length xs"
proof -
  have "unat (vector_size xs - 1) = unat (of_nat (length xs - 1) :: 64 word)"
    using assms by (simp add: vector_size_def of_nat_diff Suc_leI)
  also have "\<dots> \<le> length xs - 1" by (simp add: unat_of_nat)
  finally show ?thesis using assms by (cases xs) auto
qed

lemma draw_last_index:
  assumes "draws_in_range R" "xs \<noteq> []"
  shows "unat (fst (draw_index R 0 (vector_size xs - 1) g)) < length xs"
  using assms(1) last_index_less [OF assms(2)] unat_word_le [of "fst (draw_index R 0 (vector_size xs - 1) g)" "vector_size xs - 1"]
  by (fastforce simp: draws_in_range_def)

text \<open>Removal from a vector by moving the last element into the hole.\<close>

lemma mset_swap_and_pop:
  assumes "i < length xs"
  shows "mset (butlast (xs[i := last xs])) = mset xs - {#xs ! i#}"
proof -
  obtain ys z where xs: "xs = ys @ [z]" using assms by (cases xs rule: rev_cases) auto
  show ?thesis
  proof (cases "i < length ys")
    case True
    then show ?thesis by (simp add: xs list_update_append1 mset_update nth_append)
  next
    case False
    with assms show ?thesis by (simp add: xs less_Suc_eq)
  qed
qed

lemma swap_and_pop_distinct:
  assumes "i < length xs" "distinct (map f xs)"
  shows "distinct (map f (butlast (xs[i := last xs])))"
    "f ` set (butlast (xs[i := last xs])) = f ` set xs - {f (xs ! i)}"
proof -
  let ?ys = "butlast (xs[i := last xs])"
  have m: "mset xs = add_mset (xs ! i) (mset ?ys)"
    using mset_swap_and_pop [OF assms(1)] assms(1) by simp
  then have "mset (map f xs) = mset (f (xs ! i) # map f ?ys)" by simp
  then have d: "distinct (f (xs ! i) # map f ?ys)" "set (map f xs) = set (f (xs ! i) # map f ?ys)"
    using assms(2) mset_eq_imp_distinct_iff mset_eq_setD by blast+
  then show "distinct (map f ?ys)" "f ` set ?ys = f ` set xs - {f (xs ! i)}" by auto
qed

section \<open>A concrete instance\<close>

text \<open>
  A concrete arithmetic for the witnesses: exact fractions, with the transcendental functions
  replaced by simple ones, and draws that are always the same.
\<close>

definition rat_ops :: "rat double_ops" where
  "rat_ops =
     \<lparr>fp_add = (+), fp_sub = (-), fp_mul = (*), fp_div = (/), fp_neg = uminus, fp_less = (<), fp_le = (\<le>), fp_eq = (=),
      fp_exp = (\<lambda>x. x), fp_log = (\<lambda>x. x), fp_sqrt = (\<lambda>x. x), fp_ceil = (\<lambda>x. of_int \<lceil>x\<rceil>), fp_floor = (\<lambda>x. of_int \<lfloor>x\<rfloor>),
      fp_lround = (\<lambda>x. of_int (round x)), fp_to_size = (\<lambda>x. of_int \<lfloor>x\<rfloor>), fp_of_int = of_int, fp_lit = (\<lambda>x. x),
      fp_largest = 2 ^ 1023, fp_lowest = - (2 ^ 1023)\<rparr>"

definition middle_draws :: "(rat, unit) random_ops" where
  "middle_draws =
     \<lparr>rng_seed = (\<lambda>_. ()), draw_uniform = (\<lambda>_. (1 / 2, ())), draw_normal = (\<lambda>_. (0, ())),
      draw_index = (\<lambda>lo hi _. (lo, ()))\<rparr>"

lemma middle_draws_in_range: "draws_in_range middle_draws"
  by (simp add: draws_in_range_def middle_draws_def)

end
