(* ===== verification/Double_Rounding.thy ===== *)
theory Double_Rounding
  imports Numeric_Library Complex_Main
begin

text \<open>
  What IEEE 754 says of the operations on doubles that the statistics use: the finite doubles are the multiples of powers of two with a
  significand of 53 bits, and the result of an operation whose exact value is in range is a finite double nearest to it.
  Ties may go either way, so nothing here depends on the rounding of ties. The laws are a
  predicate on the record of operations; a rounding arithmetic on the reals shows that they can hold.
\<close>

section \<open>The finite doubles\<close>

text \<open>The smallest positive double, two to the minus 1074.\<close>

definition grain :: real where
  "grain = 1 / 2 ^ 1074"

definition doubles :: "real set" where
  "doubles = {x. \<exists>m k. x = of_int m * 2 ^ k * grain \<and> \<bar>m\<bar> < 2 ^ 53 \<and> k \<le> (2045 :: nat)}"

lemma grain_pos [simp]: "0 < grain"
  by (simp add: grain_def)

lemma doublesI: "\<bar>m\<bar> < 2 ^ 53 \<Longrightarrow> k \<le> 2045 \<Longrightarrow> of_int m * 2 ^ k * grain \<in> doubles"
  by (auto simp: doubles_def)

lemma double_0 [simp]: "0 \<in> doubles"
  using doublesI [of 0 0] by simp

lemma double_uminus [simp]: "- x \<in> doubles \<longleftrightarrow> x \<in> doubles"
proof -
  have "- x \<in> doubles" if x: "x \<in> doubles" for x
  proof -
    from x obtain m k where "x = of_int m * 2 ^ k * grain" "\<bar>m\<bar> < 2 ^ 53" "k \<le> 2045" by (auto simp: doubles_def)
    with doublesI [of "- m" k] show ?thesis by simp
  qed
  from this [of x] this [of "- x"] show ?thesis by auto
qed

lemma double_scaled:
  assumes "\<bar>m\<bar> < 2 ^ 53" "k \<le> 971"
  shows "of_int m * 2 ^ k \<in> doubles"
proof -
  have "(2 :: real) ^ (k + 1074) * grain = 2 ^ k" by (simp add: grain_def power_add)
  then have eq: "of_int m * 2 ^ k = of_int m * 2 ^ (k + 1074) * grain" by (metis mult.assoc)
  show ?thesis unfolding eq using assms by (intro doublesI) simp_all
qed

lemma double_power: "k \<le> 1023 \<Longrightarrow> 2 ^ k \<in> doubles"
proof (cases "k \<le> 971")
  case True
  then show ?thesis using double_scaled [of 1 k] by simp
next
  case False
  assume "k \<le> 1023"
  with False have k: "k = 52 + (k - 52)" "k - 52 \<le> 971" by simp_all
  have "of_int (2 ^ 52) * 2 ^ (k - 52) \<in> doubles" by (rule double_scaled) (use k in simp_all)
  moreover have "of_int (2 ^ 52) * 2 ^ (k - 52) = (2 ^ k :: real)" by (metis k(1) of_int_numeral of_int_power power_add)
  ultimately show ?thesis by simp
qed

lemma double_half:
  assumes "x \<in> doubles"
  shows "x / 2 \<in> doubles \<or> (\<exists>m. x = of_int m * grain \<and> \<bar>m\<bar> < 2 ^ 53)"
proof -
  from assms obtain m k where x: "x = of_int m * 2 ^ k * grain" "\<bar>m\<bar> < 2 ^ 53" "k \<le> 2045" by (auto simp: doubles_def)
  show ?thesis
  proof (cases k)
    case (Suc j)
    then have "x / 2 = of_int m * 2 ^ j * grain" using x(1) by simp
    with doublesI [of m j] x(2,3) Suc show ?thesis by simp
  qed (use x in auto)
qed

lemma double_multiple: "x \<in> doubles \<Longrightarrow> \<exists>j. x = of_int j * grain"
proof -
  assume "x \<in> doubles"
  then obtain m k where "x = of_int m * 2 ^ k * grain" by (auto simp: doubles_def)
  then have "x = of_int (m * 2 ^ k) * grain" by simp
  then show ?thesis by blast
qed

lemma finite_doubles: "finite doubles"
proof -
  have "doubles \<subseteq> (\<lambda>(m, k). of_int m * 2 ^ k * grain) ` ({- (2 ^ 53) .. 2 ^ 53} \<times> {.. 2045})"
  proof
    fix x assume "x \<in> doubles"
    then obtain m k where "x = of_int m * 2 ^ k * grain" "\<bar>m\<bar> < 2 ^ 53" "k \<le> 2045" by (auto simp: doubles_def)
    then show "x \<in> (\<lambda>(m, k). of_int m * 2 ^ k * grain) ` ({- (2 ^ 53) .. 2 ^ 53} \<times> {.. 2045})"
      by (intro image_eqI [of _ _ "(m, k)"]) auto
  qed
  then show ?thesis by (rule finite_subset) simp
qed

section \<open>Rounding\<close>

definition nearest :: "real \<Rightarrow> real \<Rightarrow> bool" where
  "nearest x y \<longleftrightarrow> y \<in> doubles \<and> (\<forall>z \<in> doubles. \<bar>x - y\<bar> \<le> \<bar>x - z\<bar>)"

lemma nearest_double: "nearest x y \<Longrightarrow> y \<in> doubles"
  by (simp add: nearest_def)

lemma nearest_ge:
  assumes "nearest x y" "z \<in> doubles" "z \<le> x"
  shows "z \<le> y"
proof (rule ccontr)
  assume "\<not> z \<le> y"
  moreover have "\<bar>x - y\<bar> \<le> \<bar>x - z\<bar>" using assms(1,2) by (simp add: nearest_def)
  ultimately show False using assms(3) by simp
qed

lemma nearest_uminus:
  assumes "nearest x y"
  shows "nearest (- x) (- y)"
  unfolding nearest_def
proof (intro conjI ballI)
  show "- y \<in> doubles" using assms by (simp add: nearest_def)
  show "\<bar>- x - - y\<bar> \<le> \<bar>- x - z\<bar>" if "z \<in> doubles" for z
  proof -
    have "\<bar>x - y\<bar> \<le> \<bar>x - - z\<bar>" using assms that by (simp add: nearest_def del: diff_minus_eq_add)
    then show ?thesis by linarith
  qed
qed

lemma nearest_le:
  assumes "nearest x y" "z \<in> doubles" "x \<le> z"
  shows "y \<le> z"
  using nearest_ge [OF nearest_uminus [OF assms(1)], of "- z"] assms(2,3) by simp

lemma nearest_exact: "nearest x y \<Longrightarrow> x \<in> doubles \<Longrightarrow> y = x"
  using nearest_ge [of x y x] nearest_le [of x y x] by simp

lemma nearest_bound:
  assumes "nearest x y" "\<bar>x\<bar> \<le> 2 ^ k" "k \<le> 1023"
  shows "\<bar>y\<bar> \<le> 2 ^ k"
proof -
  have k: "2 ^ k \<in> doubles" "- (2 ^ k) \<in> doubles" using double_power [OF assms(3)] by simp_all
  have "x \<le> 2 ^ k" "- (2 ^ k) \<le> x" using assms(2) unfolding abs_le_iff by linarith+
  with nearest_le [OF assms(1) k(1)] nearest_ge [OF assms(1) k(2)] show ?thesis unfolding abs_le_iff by linarith
qed

text \<open>
  Half of a rounded difference is never more than the difference, even after it is rounded again: below twice the difference there
  is a double, or the difference is small enough to be exact.
\<close>

lemma nearest_half_difference:
  assumes "x \<in> doubles" "m \<in> doubles" "m \<le> x" "nearest (x - m) d"
  shows "\<exists>z \<in> doubles. d / 2 \<le> z \<and> z \<le> x - m"
proof (cases "d \<le> x - m")
  case True
  have "0 \<le> d" using nearest_ge [OF assms(4), of 0] assms(3) by simp
  with True nearest_double [OF assms(4)] show ?thesis by (intro bexI [of _ d]) auto
next
  case False
  have "\<bar>x - m - d\<bar> \<le> \<bar>x - m - 0\<bar>" using assms(4) double_0 unfolding nearest_def by blast
  then have le: "d / 2 \<le> x - m" using False assms(3) by simp
  have "\<nexists>j. d = of_int j * grain \<and> \<bar>j\<bar> < 2 ^ 53"
  proof
    assume "\<exists>j. d = of_int j * grain \<and> \<bar>j\<bar> < 2 ^ 53"
    then obtain j where j: "d = of_int j * grain" "\<bar>j\<bar> < 2 ^ 53" by blast
    obtain u v where "x = of_int u * grain" "m = of_int v * grain" using double_multiple assms(1,2) by blast
    then have uv: "x - m = of_int (u - v) * grain" by (simp add: left_diff_distrib)
    have "0 \<le> of_int (u - v) * grain" "of_int (u - v) * grain < of_int j * grain" using uv assms(3) False j(1) by linarith+
    then have "0 \<le> u - v" "u - v < j" by (simp_all add: zero_le_mult_iff del: of_int_diff) (meson grain_pos not_less)
    then have "\<bar>u - v\<bar> < 2 ^ 53" using j(2) by linarith
    then have "x - m \<in> doubles" using doublesI [of "u - v" 0] uv by simp
    with nearest_exact [OF assms(4)] False show False by simp
  qed
  with double_half [OF nearest_double [OF assms(4)]] le show ?thesis by blast
qed

text \<open>One step of a running mean in doubles stays between the old mean and the reading.\<close>

lemma mean_step_up:
  assumes "x \<in> doubles" "m \<in> doubles" "m \<le> x" "2 \<le> k"
    and "nearest (x - m) d" "nearest (d / k) q" "nearest (m + q) m'"
  shows "m \<le> m'" "m' \<le> x"
proof -
  obtain z where z: "z \<in> doubles" "d / 2 \<le> z" "z \<le> x - m" using nearest_half_difference [OF assms(1-3,5)] by blast
  have d: "0 \<le> d" using nearest_ge [OF assms(5), of 0] assms(3) by simp
  then have "d / k \<le> d / 2" using assms(4) by (intro divide_left_mono) auto
  with nearest_le [OF assms(6) z(1)] z(2,3) have q: "q \<le> x - m" by linarith
  have "0 \<le> q" using nearest_ge [OF assms(6), of 0] d assms(4) by simp
  with q show "m \<le> m'" "m' \<le> x" using nearest_ge [OF assms(7,2)] nearest_le [OF assms(7,1)] by simp_all
qed

lemma mean_step:
  assumes "x \<in> doubles" "m \<in> doubles" "2 \<le> k \<or> k = 1 \<and> m = 0"
    and "nearest (x - m) d" "nearest (d / k) q" "nearest (m + q) m'"
  shows "min m x \<le> m'" "m' \<le> max m x" "k = 1 \<Longrightarrow> m' = x"
proof -
  have "min m x \<le> m' \<and> m' \<le> max m x \<and> (k = 1 \<longrightarrow> m' = x)"
  proof (cases "2 \<le> k")
    case True
    show ?thesis
    proof (cases "m \<le> x")
      case le: True
      from mean_step_up [OF assms(1,2) le True assms(4-6)] True le show ?thesis by auto
    next
      case False
      have "nearest (- x - - m) (- d)" "nearest (- d / k) (- q)" "nearest (- m + - q) (- m')"
        using nearest_uminus [OF assms(4)] nearest_uminus [OF assms(5)] nearest_uminus [OF assms(6)] by simp_all
      from mean_step_up [OF _ _ _ True this] False assms(1,2) True show ?thesis by auto
    qed
  next
    case False
    with assms(3) have k: "k = 1" "m = 0" by auto
    then have "d = x" using nearest_exact [OF assms(4)] assms(1) by simp
    then have "q = x" using nearest_exact [OF assms(5)] assms(1) k(1) by simp
    then have "m' = x" using nearest_exact [OF assms(6)] assms(1) k(2) by simp
    with k show ?thesis by simp
  qed
  then show "min m x \<le> m'" "m' \<le> max m x" "k = 1 \<Longrightarrow> m' = x" by blast+
qed

section \<open>The operations\<close>

text \<open>
  \<open>finite_d\<close> says which doubles are finite and \<open>val\<close> what they stand for. Below two to the 1023, and so below overflow, the four operations round to
  nearest; integers of up to 53 bits are exact; finite doubles compare as their values.
\<close>

definition rounds :: "('d \<Rightarrow> bool) \<Rightarrow> ('d \<Rightarrow> real) \<Rightarrow> real \<Rightarrow> 'd \<Rightarrow> bool" where
  "rounds finite_d val x r \<longleftrightarrow> (\<bar>x\<bar> \<le> 2 ^ 1023 \<longrightarrow> finite_d r \<and> nearest x (val r))"

definition ieee_ops :: "('d \<Rightarrow> bool) \<Rightarrow> ('d \<Rightarrow> real) \<Rightarrow> 'd double_ops \<Rightarrow> bool" where
  "ieee_ops finite_d val F \<longleftrightarrow>
     (\<forall>a. finite_d a \<longrightarrow> val a \<in> doubles \<and> val (fp_lowest F) \<le> val a \<and> val a \<le> val (fp_largest F)) \<and>
     (\<forall>a b. finite_d a \<and> finite_d b \<longrightarrow>
        rounds finite_d val (val a + val b) (fp_add F a b) \<and> rounds finite_d val (val a - val b) (fp_sub F a b) \<and>
        rounds finite_d val (val a * val b) (fp_mul F a b) \<and>
        (val b \<noteq> 0 \<longrightarrow> rounds finite_d val (val a / val b) (fp_div F a b)) \<and>
        (fp_less F a b \<longleftrightarrow> val a < val b)) \<and>
     (\<forall>n. \<bar>n\<bar> \<le> 2 ^ 53 \<longrightarrow> finite_d (fp_of_int F n) \<and> val (fp_of_int F n) = of_int n) \<and>
     finite_d (fp_lit F 0) \<and> val (fp_lit F 0) = 0 \<and> finite_d (fp_largest F) \<and> finite_d (fp_lowest F)"

lemma ieee_op:
  assumes "ieee_ops finite_d val F" "finite_d a" "finite_d b"
  shows "\<bar>val a + val b\<bar> \<le> 2 ^ 1023 \<Longrightarrow> finite_d (fp_add F a b) \<and> nearest (val a + val b) (val (fp_add F a b))"
    "\<bar>val a - val b\<bar> \<le> 2 ^ 1023 \<Longrightarrow> finite_d (fp_sub F a b) \<and> nearest (val a - val b) (val (fp_sub F a b))"
    "\<bar>val a * val b\<bar> \<le> 2 ^ 1023 \<Longrightarrow> finite_d (fp_mul F a b) \<and> nearest (val a * val b) (val (fp_mul F a b))"
    "val b \<noteq> 0 \<Longrightarrow> \<bar>val a / val b\<bar> \<le> 2 ^ 1023 \<Longrightarrow> finite_d (fp_div F a b) \<and> nearest (val a / val b) (val (fp_div F a b))"
    "fp_less F a b \<longleftrightarrow> val a < val b"
  using assms unfolding ieee_ops_def rounds_def by blast+

lemma ieee_const:
  assumes "ieee_ops finite_d val F"
  shows "finite_d (fp_lit F 0)" "val (fp_lit F 0) = 0" "finite_d (fp_largest F)" "finite_d (fp_lowest F)"
    "finite_d a \<Longrightarrow> val a \<in> doubles" "finite_d a \<Longrightarrow> val (fp_lowest F) \<le> val a" "finite_d a \<Longrightarrow> val a \<le> val (fp_largest F)"
    "\<bar>n\<bar> \<le> 2 ^ 53 \<Longrightarrow> finite_d (fp_of_int F n)" "\<bar>n\<bar> \<le> 2 ^ 53 \<Longrightarrow> val (fp_of_int F n) = of_int n"
  using assms unfolding ieee_ops_def by blast+

text \<open>Minimum and maximum of a sequence of finite doubles.\<close>

lemma Min_insert_min: "finite S \<Longrightarrow> Min (insert (min a b) S) = Min (insert a (insert b S))" for a :: real
  by (cases "S = {}") (simp_all add: min.assoc)

lemma Max_insert_max: "finite S \<Longrightarrow> Max (insert (max a b) S) = Max (insert a (insert b S))" for a :: real
  by (cases "S = {}") (simp_all add: max.assoc)

lemma fp_min_all:
  assumes "ieee_ops finite_d val F" "finite_d m" "\<forall>v \<in> set vs. finite_d v"
  shows "finite_d (foldl (fp_min F) m vs) \<and> val (foldl (fp_min F) m vs) = Min (insert (val m) (val ` set vs))"
  using assms(2,3)
proof (induction vs arbitrary: m)
  case (Cons v vs)
  have "finite_d (fp_min F m v)" "val (fp_min F m v) = min (val m) (val v)"
    using Cons.prems ieee_op(5) [OF assms(1), of v m] by (auto simp: fp_min_def min_def)
  with Cons.IH [of "fp_min F m v"] Cons.prems show ?case by (simp add: Min_insert_min)
qed simp

lemma fp_max_all:
  assumes "ieee_ops finite_d val F" "finite_d m" "\<forall>v \<in> set vs. finite_d v"
  shows "finite_d (foldl (fp_max F) m vs) \<and> val (foldl (fp_max F) m vs) = Max (insert (val m) (val ` set vs))"
  using assms(2,3)
proof (induction vs arbitrary: m)
  case (Cons v vs)
  have "finite_d (fp_max F m v)" "val (fp_max F m v) = max (val m) (val v)"
    using Cons.prems ieee_op(5) [OF assms(1), of m v] by (auto simp: fp_max_def max_def)
  with Cons.IH [of "fp_max F m v"] Cons.prems show ?case by (simp add: Max_insert_max)
qed simp

section \<open>A rounding arithmetic\<close>

text \<open>Between the largest double below and the smallest above, the closer one, and the lower one of a tie.\<close>

definition round_double :: "real \<Rightarrow> real" where
  "round_double x =
     (let lo = Max {z \<in> doubles. z \<le> x}; hi = Min {z \<in> doubles. x \<le> z} in if x - lo \<le> hi - x then lo else hi)"

lemma round_double_nearest:
  assumes "\<bar>x\<bar> \<le> 2 ^ 1023"
  shows "nearest x (round_double x)"
proof -
  let ?L = "{z \<in> doubles. z \<le> x}" and ?H = "{z \<in> doubles. x \<le> z}"
  have "2 ^ 1023 \<in> doubles" "- (2 ^ 1023) \<in> doubles" using double_power [of 1023] by simp_all
  moreover have "x \<le> 2 ^ 1023" "- (2 ^ 1023) \<le> x" using assms unfolding abs_le_iff by linarith+
  ultimately have "- (2 ^ 1023) \<in> ?L" "2 ^ 1023 \<in> ?H" by blast+
  then have ne: "finite ?L" "finite ?H" "?L \<noteq> {}" "?H \<noteq> {}" using finite_doubles by (simp, simp, blast+)
  have lo: "Max ?L \<in> doubles" "Max ?L \<le> x" using Max_in [OF ne(1,3)] by simp_all
  have hi: "Min ?H \<in> doubles" "x \<le> Min ?H" using Min_in [OF ne(2,4)] by simp_all
  have "z \<le> Max ?L \<or> Min ?H \<le> z" if "z \<in> doubles" for z
    using that Max_ge [OF ne(1), of z] Min_le [OF ne(2), of z] by (cases "z \<le> x") auto
  then have "min (x - Max ?L) (Min ?H - x) \<le> \<bar>x - z\<bar>" if "z \<in> doubles" for z using that lo(2) hi(2) by fastforce
  with lo hi show ?thesis by (auto simp: nearest_def round_double_def Let_def min_def split: if_splits)
qed

definition rounded_ops :: "real double_ops" where
  "rounded_ops =
     \<lparr>fp_add = (\<lambda>a b. round_double (a + b)), fp_sub = (\<lambda>a b. round_double (a - b)), fp_mul = (\<lambda>a b. round_double (a * b)),
      fp_div = (\<lambda>a b. round_double (a / b)), fp_neg = uminus, fp_less = (<), fp_le = (\<le>), fp_eq = (=),
      fp_exp = (\<lambda>x. round_double (exp x)), fp_log = (\<lambda>x. round_double (ln x)), fp_sqrt = (\<lambda>x. round_double (sqrt x)),
      fp_ceil = (\<lambda>x. of_int \<lceil>x\<rceil>), fp_floor = (\<lambda>x. of_int \<lfloor>x\<rfloor>), fp_lround = (\<lambda>x. of_int (round x)),
      fp_to_size = (\<lambda>x. of_int \<lfloor>x\<rfloor>), fp_of_int = (\<lambda>n. round_double (of_int n)), fp_lit = (\<lambda>x. round_double (of_rat x)),
      fp_largest = Max doubles, fp_lowest = Min doubles\<rparr>"

lemma double_int: "\<bar>n\<bar> \<le> 2 ^ 53 \<Longrightarrow> of_int n \<in> doubles"
proof (cases "\<bar>n\<bar> = 2 ^ 53")
  case True
  then have "of_int n = (2 ^ 53 :: real) \<or> of_int n = - (2 ^ 53 :: real)" by (auto simp: abs_if split: if_splits)
  then show ?thesis using double_power [of 53] double_uminus [of "2 ^ 53"] by auto
next
  case False
  assume "\<bar>n\<bar> \<le> 2 ^ 53"
  with False have "\<bar>n\<bar> < 2 ^ 53" by simp
  from double_scaled [OF this, of 0] show ?thesis by simp
qed

lemma round_double_exact:
  assumes "x \<in> doubles" "\<bar>x\<bar> \<le> 2 ^ 1023"
  shows "round_double x = x"
  using nearest_exact [OF round_double_nearest [OF assms(2)] assms(1)] .

lemma rounded_ops_ieee: "ieee_ops (\<lambda>x. x \<in> doubles) (\<lambda>x. x) rounded_ops"
proof -
  have r: "rounds (\<lambda>x. x \<in> doubles) (\<lambda>x. x) x (round_double x)" for x
    using round_double_nearest [of x] by (auto simp: rounds_def nearest_def)
  have i: "round_double (of_int n) = of_int n" if "\<bar>n\<bar> \<le> 2 ^ 53" for n
  proof -
    have "\<bar>of_int n\<bar> \<le> (2 ^ 53 :: real)" using that by (metis of_int_abs of_int_le_iff of_int_numeral of_int_power)
    also have "\<dots> \<le> 2 ^ 1023" by (rule power_increasing) simp_all
    finally show ?thesis using round_double_exact double_int [OF that] by blast
  qed
  have m: "Max doubles \<in> doubles" "Min doubles \<in> doubles" using finite_doubles double_0 by (metis Max_in Min_in empty_iff)+
  show ?thesis unfolding ieee_ops_def
    using r i i [of 0] double_int m finite_doubles by (simp add: rounded_ops_def)
qed

end
