(* ===== verification/Latency_Stats.thy ===== *)
theory Latency_Stats
  imports Double_Rounding
begin

text \<open>
  The latency statistics of the benchmark (\<^verbatim>\<open>statistics.hpp\<close>): an accumulator that keeps running moments by
  Welford's method and a bounded reservoir of samples, and a snapshot that reads quantiles
  off the sorted reservoir. Shown here: the reservoir is bounded, complete below its bound and
  never holds anything but added values; in rounded double arithmetic the mean stays between the smallest and
  the largest reading and the second moment is not negative; the recurrence is that of the textbook when
  arithmetic is exact; a snapshot never reads outside the reservoir.
\<close>

section \<open>Snapshot\<close>

record 'd latency_stats_t =
  mean_ns :: 'd
  stddev_ns :: 'd
  min_ns :: 'd
  max_ns :: 'd
  p10_ns :: 'd
  p50_ns :: 'd
  p95_ns :: 'd
  p99_ns :: 'd
  p99_9_ns :: 'd
  sample_count :: "64 word"

definition latency_stats_init :: "'d double_ops \<Rightarrow> 'd latency_stats_t" where
  "latency_stats_init F =
     \<lparr>mean_ns = fp_lit F 0, stddev_ns = fp_lit F 0, min_ns = fp_lit F 0, max_ns = fp_lit F 0, p10_ns = fp_lit F 0,
      p50_ns = fp_lit F 0, p95_ns = fp_lit F 0, p99_ns = fp_lit F 0, p99_9_ns = fp_lit F 0, sample_count = 0\<rparr>"

text \<open>Element access; \<open>None\<close> outside the vector.\<close>

definition vector_at :: "'a list \<Rightarrow> 64 word \<Rightarrow> 'a option" where
  "vector_at xs i = (if unat i < length xs then Some (xs ! unat i) else None)"

definition linear_quantile :: "'d double_ops \<Rightarrow> 'd list \<Rightarrow> 'd \<Rightarrow> 'd option" where
  "linear_quantile F sorted_samples q0 =
     (if sorted_samples = [] then Some (fp_lit F 0)
      else
        (let q = fp_clamp F q0 (fp_lit F 0) (fp_lit F 1)
         in if vector_size sorted_samples = 1 then Some (hd sorted_samples)
            else
              (let pos = fp_mul F (fp_of_int F (uint (vector_size sorted_samples - 1))) q;
                   lo = fp_to_size F (fp_floor F pos);
                   hi = min (lo + 1) (vector_size sorted_samples - 1);
                   frac = fp_sub F pos (fp_of_int F (uint lo))
               in Option.bind (vector_at sorted_samples lo) (\<lambda>a.
                    map_option (\<lambda>b. fp_add F a (fp_mul F frac (fp_sub F b a))) (vector_at sorted_samples hi)))))"

text \<open>\<^verbatim>\<open>std::sort\<close> with the comparison of doubles.\<close>

fun fp_insert :: "'d double_ops \<Rightarrow> 'd \<Rightarrow> 'd list \<Rightarrow> 'd list" where
  "fp_insert F x [] = [x]"
| "fp_insert F x (y # ys) = (if fp_less F y x then y # fp_insert F x ys else x # y # ys)"

definition fp_sort :: "'d double_ops \<Rightarrow> 'd list \<Rightarrow> 'd list" where
  "fp_sort F xs = foldr (fp_insert F) xs []"

section \<open>The accumulator\<close>

abbreviation max_samples_v :: "64 word" where
  "max_samples_v \<equiv> 1000000"

record ('d, 'g) latency_accumulator_t =
  acc_count :: "64 word"
  acc_mean :: 'd
  acc_m2 :: 'd
  acc_min :: 'd
  acc_max :: 'd
  acc_samples :: "'d list"
  acc_rng :: 'g

definition latency_accumulator_init ::
    "'d double_ops \<Rightarrow> ('d, 'g) random_ops \<Rightarrow> 64 word \<Rightarrow> ('d, 'g) latency_accumulator_t" where
  "latency_accumulator_init F R reservoir_seed =
     \<lparr>acc_count = 0, acc_mean = fp_lit F 0, acc_m2 = fp_lit F 0, acc_min = fp_largest F, acc_max = fp_lowest F,
      acc_samples = [], acc_rng = rng_seed R reservoir_seed\<rparr>"

text \<open>
  \<^verbatim>\<open>add\<close>; \<open>None\<close> when the bounds of the distribution are swapped or the drawn slot is outside the
  reservoir.
\<close>

definition acc_add ::
    "'d double_ops \<Rightarrow> ('d, 'g) random_ops \<Rightarrow> 'd \<Rightarrow> ('d, 'g) latency_accumulator_t \<Rightarrow>
     ('d, 'g) latency_accumulator_t option" where
  "acc_add F R value_ns a =
     (let n = acc_count a + 1;
          delta = fp_sub F value_ns (acc_mean a);
          mean = fp_add F (acc_mean a) (fp_div F delta (fp_of_int F (uint n)));
          delta2 = fp_sub F value_ns mean;
          a1 = a\<lparr>acc_count := n, acc_mean := mean, acc_m2 := fp_add F (acc_m2 a) (fp_mul F delta delta2),
                 acc_min := fp_min F (acc_min a) value_ns, acc_max := fp_max F (acc_max a) value_ns\<rparr>
      in if vector_size (acc_samples a1) < max_samples_v
         then Some (a1\<lparr>acc_samples := acc_samples a1 @ [value_ns]\<rparr>)
         else if n < 1 then None
         else
           (let (j, r) = draw_index R 1 n (acc_rng a1); a2 = a1\<lparr>acc_rng := r\<rparr>
            in if j \<le> max_samples_v
               then (if unat (j - 1) < length (acc_samples a2)
                     then Some (a2\<lparr>acc_samples := (acc_samples a2)[unat (j - 1) := value_ns]\<rparr>)
                     else None)
               else Some a2))"

fun acc_add_all ::
    "'d double_ops \<Rightarrow> ('d, 'g) random_ops \<Rightarrow> 'd list \<Rightarrow> ('d, 'g) latency_accumulator_t \<Rightarrow>
     ('d, 'g) latency_accumulator_t option" where
  "acc_add_all F R [] a = Some a"
| "acc_add_all F R (v # vs) a = Option.bind (acc_add F R v a) (acc_add_all F R vs)"

text \<open>\<^verbatim>\<open>snapshot\<close>; \<open>None\<close> when a quantile would be read outside the reservoir.\<close>

definition snapshot :: "'d double_ops \<Rightarrow> ('d, 'g) latency_accumulator_t \<Rightarrow> 'd latency_stats_t option" where
  "snapshot F a =
     (let s0 = (latency_stats_init F)\<lparr>sample_count := acc_count a\<rparr>
      in if acc_count a = 0 then Some s0
         else
           (let s = s0\<lparr>mean_ns := acc_mean a,
                  stddev_ns := (if acc_count a > 1
                    then fp_sqrt F (fp_div F (acc_m2 a) (fp_of_int F (uint (acc_count a - 1)))) else fp_lit F 0),
                  min_ns := (if fp_eq F (acc_min a) (fp_largest F) then fp_lit F 0 else acc_min a),
                  max_ns := (if fp_eq F (acc_max a) (fp_lowest F) then fp_lit F 0 else acc_max a)\<rparr>
            in if acc_samples a = [] then Some s
               else
                 (let xs = fp_sort F (acc_samples a)
                  in Option.bind (linear_quantile F xs (fp_lit F (1 / 10))) (\<lambda>p10.
                     Option.bind (linear_quantile F xs (fp_lit F (1 / 2))) (\<lambda>p50.
                     Option.bind (linear_quantile F xs (fp_lit F (95 / 100))) (\<lambda>p95.
                     Option.bind (linear_quantile F xs (fp_lit F (99 / 100))) (\<lambda>p99.
                     map_option (\<lambda>p99_9. s\<lparr>p10_ns := p10, p50_ns := p50, p95_ns := p95, p99_ns := p99, p99_9_ns := p99_9\<rparr>)
                       (linear_quantile F xs (fp_lit F (999 / 1000))))))))))"

section \<open>The reservoir\<close>

lemma acc_add_all_append:
  "acc_add_all F R (us @ vs) a = Option.bind (acc_add_all F R us a) (acc_add_all F R vs)"
  by (induction us arbitrary: a) (auto split: Option.bind_split)

definition reservoir_inv :: "'d double_ops \<Rightarrow> 'd list \<Rightarrow> ('d, 'g) latency_accumulator_t \<Rightarrow> bool" where
  "reservoir_inv F vs a \<longleftrightarrow>
     unat (acc_count a) = length vs \<and> length (acc_samples a) = min (length vs) 1000000 \<and>
     set (acc_samples a) \<subseteq> set vs \<and> (length vs \<le> 1000000 \<longrightarrow> acc_samples a = vs) \<and>
     acc_min a = foldl (fp_min F) (fp_largest F) vs \<and> acc_max a = foldl (fp_max F) (fp_lowest F) vs"

lemma vector_size_less:
  "length xs \<le> 1000000 \<Longrightarrow> vector_size xs < max_samples_v \<longleftrightarrow> length xs < 1000000"
  by (simp add: vector_size_def word_less_nat_alt unat_of_nat)

lemma acc_add_reservoir:
  assumes "draws_in_range R" "reservoir_inv F vs a" "length vs + 1 < 2 ^ 64"
  shows "\<exists>a'. acc_add F R v a = Some a' \<and> reservoir_inv F (vs @ [v]) a'"
proof -
  have n: "unat (acc_count a + 1) = length vs + 1"
    using assms(2,3) by (simp add: reservoir_inv_def unat_word_ariths)
  have l: "length (acc_samples a) = min (length vs) 1000000" using assms(2) by (simp add: reservoir_inv_def)
  have vs: "vector_size (acc_samples a) < max_samples_v \<longleftrightarrow> length vs < 1000000"
    using vector_size_less [of "acc_samples a"] l by auto
  show ?thesis
  proof (cases "length vs < 1000000")
    case True
    then show ?thesis using assms(2) n l vs by (auto simp: acc_add_def Let_def reservoir_inv_def)
  next
    case False
    let ?j = "fst (draw_index R 1 (acc_count a + 1) (acc_rng a))"
    have one: "1 \<le> acc_count a + 1" using n by (simp add: word_le_nat_alt)
    with assms(1) have j: "1 \<le> ?j" by (simp add: draws_in_range_def)
    have idx: "unat (?j - 1) < length (acc_samples a)" if "?j \<le> max_samples_v"
    proof -
      have "unat (?j - 1) = unat ?j - 1" using j by (simp add: unat_sub word_le_nat_alt)
      moreover have "1 \<le> unat ?j" "unat ?j \<le> 1000000" using j that by (simp_all add: word_le_nat_alt)
      ultimately show ?thesis using False l by simp
    qed
    have sub: "set ((acc_samples a)[i := v]) \<subseteq> set (vs @ [v])" for i
      using set_update_subset_insert [of "acc_samples a" i v] assms(2) by (auto simp: reservoir_inv_def)
    show ?thesis using False assms(2) n l vs one idx sub
      by (auto simp: acc_add_def Let_def reservoir_inv_def case_prod_beta not_less)
  qed
qed

lemma acc_add_all_reservoir_from:
  assumes "draws_in_range R" "reservoir_inv F us a" "length us + length vs < 2 ^ 64"
  shows "\<exists>a'. acc_add_all F R vs a = Some a' \<and> reservoir_inv F (us @ vs) a'"
  using assms(2,3)
proof (induction vs arbitrary: us a)
  case (Cons v vs)
  from acc_add_reservoir [OF assms(1) Cons.prems(1), of v] Cons.prems(2) obtain a1 where
    a1: "acc_add F R v a = Some a1" "reservoir_inv F (us @ [v]) a1" by auto
  with Cons.IH [OF a1(2)] Cons.prems(2) show ?case by auto
qed simp

lemma reservoir_inv_init: "reservoir_inv F [] (latency_accumulator_init F R seed)"
  by (simp add: latency_accumulator_init_def reservoir_inv_def)

lemma acc_add_all_reservoir:
  assumes "draws_in_range R" "length vs < 2 ^ 64"
  shows "\<exists>a. acc_add_all F R vs (latency_accumulator_init F R seed) = Some a \<and> reservoir_inv F vs a"
  using acc_add_all_reservoir_from [OF assms(1) reservoir_inv_init [of F R seed], of vs] assms(2) by simp

text \<open>The count goes up by one per reading, wrap-around included.\<close>

lemma acc_add_count: "acc_add F R v a = Some a' \<Longrightarrow> acc_count a' = acc_count a + 1"
  by (auto simp: acc_add_def Let_def case_prod_beta split: if_splits)

lemma acc_add_all_count: "acc_add_all F R vs a = Some a' \<Longrightarrow> acc_count a' = acc_count a + of_nat (length vs)"
  by (induction vs arbitrary: a) (auto simp: bind_eq_Some_conv acc_add_count algebra_simps)

section \<open>Welford's recurrence\<close>

text \<open>Exact arithmetic: the operations of a field.\<close>

definition exact_ops :: "'d :: field_char_0 double_ops \<Rightarrow> bool" where
  "exact_ops F \<longleftrightarrow>
     fp_add F = (+) \<and> fp_sub F = (-) \<and> fp_mul F = (*) \<and> fp_div F = (/) \<and> fp_of_int F = of_int \<and> fp_lit F = of_rat"

definition mean_of :: "'d :: field_char_0 list \<Rightarrow> 'd" where
  "mean_of vs = sum_list vs / of_nat (length vs)"

definition squares_about :: "'d :: field_char_0 \<Rightarrow> 'd list \<Rightarrow> 'd" where
  "squares_about m vs = sum_list (map (\<lambda>v. (v - m)\<^sup>2) vs)"

text \<open>The sum of squares about one point, from that about another.\<close>

lemma squares_about_shift:
  "squares_about (m + d) vs = squares_about m vs - 2 * d * (sum_list vs - of_nat (length vs) * m) + of_nat (length vs) * d\<^sup>2"
  by (induction vs) (simp_all add: squares_about_def power2_eq_square algebra_simps)

lemma of_nat_add_one_neq_0: "(of_nat n :: 'd :: field_char_0) + 1 \<noteq> 0"
proof -
  have "(of_nat (n + 1) :: 'd) \<noteq> 0" unfolding of_nat_eq_0_iff by simp
  then show ?thesis by (simp add: add.commute)
qed

lemma mean_of_total: "sum_list vs = of_nat (length vs) * mean_of vs"
  by (cases "vs = []") (simp_all add: mean_of_def)

lemma mean_of_snoc:
  fixes v :: "'d :: field_char_0"
  shows "mean_of (vs @ [v]) = mean_of vs + (v - mean_of vs) / (of_nat (length vs) + 1)"
proof -
  define n and m where "n = (of_nat (length vs) :: 'd)" and "m = mean_of vs"
  have p: "n + 1 \<noteq> 0" unfolding n_def by (rule of_nat_add_one_neq_0)
  have "mean_of (vs @ [v]) = (n * m + v) / (n + 1)"
    by (simp add: mean_of_def [of "vs @ [v]"] mean_of_total [of vs] n_def m_def add.commute)
  also have "\<dots> = m + (v - m) / (n + 1)" using p by (simp add: field_simps)
  finally show ?thesis by (simp add: n_def m_def)
qed

lemma squares_snoc:
  fixes v :: "'d :: field_char_0"
  shows "squares_about (mean_of (vs @ [v])) (vs @ [v]) =
    squares_about (mean_of vs) vs + (v - mean_of vs) * (v - mean_of (vs @ [v]))"
proof -
  define n m d where "n = (of_nat (length vs) :: 'd)" and "m = mean_of vs" and "d = (v - mean_of vs) / (of_nat (length vs) + 1)"
  have p: "n + 1 \<noteq> 0" unfolding n_def by (rule of_nat_add_one_neq_0)
  have v: "v = m + (n + 1) * d" using p by (simp add: d_def m_def n_def)
  have m': "mean_of (vs @ [v]) = m + d" by (simp add: mean_of_snoc d_def m_def)
  have "squares_about (m + d) vs = squares_about m vs + n * d\<^sup>2"
    by (simp add: squares_about_shift mean_of_total [of vs] m_def n_def)
  then have "squares_about (m + d) (vs @ [v]) = squares_about m vs + (n * d\<^sup>2 + (v - (m + d))\<^sup>2)"
    by (simp add: squares_about_def)
  also have "n * d\<^sup>2 + (v - (m + d))\<^sup>2 = (v - m) * (v - (m + d))"
    by (simp add: v power2_eq_square algebra_simps)
  finally show ?thesis by (simp add: m' flip: m_def)
qed

lemma acc_add_moments:
  assumes "exact_ops F" "acc_add F R v a = Some a'" "unat (acc_count a) = length vs" "length vs + 1 < 2 ^ 64"
    and "acc_mean a = mean_of vs" "acc_m2 a = squares_about (mean_of vs) vs"
  shows "acc_mean a' = mean_of (vs @ [v])" "acc_m2 a' = squares_about (mean_of (vs @ [v])) (vs @ [v])"
proof -
  have "unat (acc_count a + 1) = length vs + 1" using assms(3,4) by (simp add: unat_word_ariths)
  then have n: "uint (acc_count a + 1) = int (length vs) + 1" by (metis int_plus of_nat_1 uint_nat)
  have "acc_mean a' = acc_mean a + (v - acc_mean a) / of_int (uint (acc_count a + 1))"
    "acc_m2 a' = acc_m2 a + (v - acc_mean a) * (v - acc_mean a')"
    using assms(1,2) by (auto simp: acc_add_def exact_ops_def Let_def case_prod_beta split: if_splits)
  then show "acc_mean a' = mean_of (vs @ [v])" "acc_m2 a' = squares_about (mean_of (vs @ [v])) (vs @ [v])"
    unfolding squares_snoc by (simp_all add: assms(5,6) n mean_of_snoc)
qed

section \<open>Reading the quantiles\<close>

text \<open>
  What the quantiles rely on: decimal literals keep their order, the comparisons agree, a sample position
  scaled by a factor between zero and one stays between zero and itself, and the floor of a
  value between zero and a position is one of its indices. All hold of IEEE doubles, where
  positions up to a million are exact.
\<close>

definition fp_index_laws :: "'d double_ops \<Rightarrow> bool" where
  "fp_index_laws F \<longleftrightarrow>
     (\<forall>a b. a \<le> b \<longrightarrow> fp_le F (fp_lit F a) (fp_lit F b)) \<and> (\<forall>x y. fp_le F x y \<longrightarrow> \<not> fp_less F y x) \<and>
     (\<forall>n q. 0 \<le> n \<and> n < 1000000 \<and> fp_le F (fp_lit F 0) q \<and> fp_le F q (fp_lit F 1) \<longrightarrow>
        fp_le F (fp_lit F 0) (fp_mul F (fp_of_int F n) q) \<and> fp_le F (fp_mul F (fp_of_int F n) q) (fp_of_int F n)) \<and>
     (\<forall>n y. 0 \<le> n \<and> n < 1000000 \<and> fp_le F (fp_lit F 0) y \<and> fp_le F y (fp_of_int F n) \<longrightarrow>
        uint (fp_to_size F (fp_floor F y)) \<le> n)"

lemma fp_insert_length [simp]: "length (fp_insert F x ys) = Suc (length ys)"
  by (induction F x ys rule: fp_insert.induct) simp_all

lemma fp_sort_length [simp]: "length (fp_sort F xs) = length xs"
  unfolding fp_sort_def by (induction xs) simp_all

lemma linear_quantile_total:
  assumes "fp_index_laws F" "length xs \<le> 1000000" "0 \<le> q" "q \<le> 1"
  shows "\<exists>r. linear_quantile F xs (fp_lit F q) = Some r"
proof (cases "length xs \<le> 1")
  case True
  then show ?thesis by (cases xs) (auto simp: linear_quantile_def vector_size_def)
next
  case False
  let ?n = "vector_size xs - 1"
  have v: "unat (vector_size xs) = length xs" using assms(2) by (simp add: vector_size_def unat_of_nat)
  have n: "unat ?n = length xs - 1" using False v by (simp add: unat_sub word_le_nat_alt)
  have le: "fp_le F (fp_lit F 0) (fp_lit F q)" "fp_le F (fp_lit F q) (fp_lit F 1)"
    using assms(1,3,4) by (simp_all add: fp_index_laws_def)
  then have c: "fp_clamp F (fp_lit F q) (fp_lit F 0) (fp_lit F 1) = fp_lit F q"
    using assms(1) by (auto simp: fp_clamp_def fp_index_laws_def)
  let ?lo = "fp_to_size F (fp_floor F (fp_mul F (fp_of_int F (uint ?n)) (fp_lit F q)))"
  have ui: "uint ?n = int (length xs - 1)" unfolding uint_nat n by (rule refl)
  then have u: "0 \<le> uint ?n" "uint ?n < 1000000" using False assms(2) by linarith+
  then have "uint ?lo \<le> uint ?n" using assms(1) le unfolding fp_index_laws_def by blast
  then have lo: "unat ?lo < length xs" using False uint_nat [of ?lo] ui by linarith
  have hi: "unat (min (?lo + 1) ?n) < length xs"
    using n False unat_word_le [OF min.cobounded2 [of "?lo + 1" ?n]] by linarith
  have "xs \<noteq> []" "vector_size xs \<noteq> 1" using False v by auto
  then show ?thesis using lo hi by (simp add: linear_quantile_def c Let_def vector_at_def)
qed

lemma snapshot_total:
  assumes "fp_index_laws F" "length (acc_samples a) \<le> 1000000"
  shows "\<exists>s. snapshot F a = Some s \<and> sample_count s = acc_count a"
proof -
  have q: "\<exists>r. linear_quantile F (fp_sort F (acc_samples a)) (fp_lit F q) = Some r" if "0 \<le> q" "q \<le> 1" for q
    using linear_quantile_total [OF assms(1) _ that] assms(2) by simp
  from q [of "1 / 10"] q [of "1 / 2"] q [of "95 / 100"] q [of "99 / 100"] q [of "999 / 1000"]
  show ?thesis by (auto simp: snapshot_def Let_def)
qed

section \<open>Properties of the statistics\<close>

text \<open>
  C37: the accumulator takes any number of readings below two to the 64 without leaving its reservoir.
  It then counts them exactly, holds min of their number and one million samples, all of them
  readings and, up to a million, all readings in order; minimum and maximum are those of the
  whole sequence; and the snapshot of it never reads outside the reservoir.
\<close>

theorem latency_reservoir:
  assumes "draws_in_range R" "fp_index_laws F" "length vs < 2 ^ 64"
  shows "\<exists>a s. acc_add_all F R vs (latency_accumulator_init F R seed) = Some a \<and> unat (acc_count a) = length vs \<and>
    length (acc_samples a) = min (length vs) 1000000 \<and> set (acc_samples a) \<subseteq> set vs \<and>
    (length vs \<le> 1000000 \<longrightarrow> acc_samples a = vs) \<and>
    acc_min a = foldl (fp_min F) (fp_largest F) vs \<and> acc_max a = foldl (fp_max F) (fp_lowest F) vs \<and>
    snapshot F a = Some s \<and> sample_count s = acc_count a"
proof -
  from acc_add_all_reservoir [OF assms(1,3), of F seed] obtain a where
    a: "acc_add_all F R vs (latency_accumulator_init F R seed) = Some a" "reservoir_inv F vs a" by blast
  moreover have "length (acc_samples a) \<le> 1000000" using a(2) by (simp add: reservoir_inv_def)
  ultimately show ?thesis using snapshot_total [OF assms(2), of a] by (auto simp: reservoir_inv_def)
qed

lemma rat_ops_index_laws: "fp_index_laws rat_ops"
proof -
  have "uint (word_of_int \<lfloor>y\<rfloor> :: 64 word) \<le> n" if "0 \<le> n" "n < 1000000" "0 \<le> y" "y \<le> of_int n" for n and y :: rat
  proof -
    have "0 \<le> \<lfloor>y\<rfloor>" "\<lfloor>y\<rfloor> \<le> n" using that(3,4) by (simp_all add: floor_le_iff)
    moreover have "take_bit 64 \<lfloor>y\<rfloor> \<le> \<lfloor>y\<rfloor>" using calculation(1) by (simp add: take_bit_int_less_eq_self_iff)
    ultimately show ?thesis by (simp add: uint_word_of_int_eq)
  qed
  then show ?thesis by (auto simp: fp_index_laws_def rat_ops_def mult_left_le)
qed

theorem latency_reservoir_witness:
  "\<exists>a. acc_add_all rat_ops middle_draws [3, 1, 2] (latency_accumulator_init rat_ops middle_draws 42) = Some a \<and>
     unat (acc_count a) = 3 \<and> acc_samples a = [3, 1, 2]"
  using latency_reservoir [OF middle_draws_in_range rat_ops_index_laws, of "[3, 1, 2]" 42] by auto

text \<open>
  The recurrence is the right one: in exact arithmetic the mean of the accumulator is the sum of the readings over their number and its
  second moment the sum of the squared deviations from that mean.
\<close>

lemma welford_exact:
  assumes "exact_ops F" "draws_in_range R" "length vs < 2 ^ 64"
  shows "\<exists>a. acc_add_all F R vs (latency_accumulator_init F R seed) = Some a \<and>
    acc_mean a = mean_of vs \<and> acc_m2 a = squares_about (mean_of vs) vs"
  using assms(3)
proof (induction vs rule: rev_induct)
  case Nil
  then show ?case using assms(1) by (simp add: latency_accumulator_init_def exact_ops_def mean_of_def squares_about_def)
next
  case (snoc v vs)
  then obtain a where a: "acc_add_all F R vs (latency_accumulator_init F R seed) = Some a"
    "acc_mean a = mean_of vs" "acc_m2 a = squares_about (mean_of vs) vs" by auto
  from acc_add_all_reservoir [OF assms(2), of vs F seed] a(1) snoc.prems have r: "reservoir_inv F vs a" by auto
  with acc_add_reservoir [OF assms(2) r, of v] snoc.prems obtain a' where a': "acc_add F R v a = Some a'" by auto
  have "unat (acc_count a) = length vs" using r by (simp add: reservoir_inv_def)
  from acc_add_moments [OF assms(1) a' this _ a(2,3)] a(1) a' snoc.prems show ?case by (simp add: acc_add_all_append)
qed

section \<open>The moments in doubles\<close>

text \<open>Readings are finite doubles of moderate size: the square of a difference is far from overflow.\<close>

definition reading_ok :: "('d \<Rightarrow> bool) \<Rightarrow> ('d \<Rightarrow> real) \<Rightarrow> 'd \<Rightarrow> bool" where
  "reading_ok finite_d val v \<longleftrightarrow> finite_d v \<and> \<bar>val v\<bar> \<le> 2 ^ 400"

definition moments_inv :: "('d \<Rightarrow> bool) \<Rightarrow> ('d \<Rightarrow> real) \<Rightarrow> 'd list \<Rightarrow> 'd \<Rightarrow> 'd \<Rightarrow> bool" where
  "moments_inv finite_d val vs mean m2 \<longleftrightarrow> finite_d mean \<and> finite_d m2 \<and>
     (if vs = [] then val mean = 0 else Min (val ` set vs) \<le> val mean \<and> val mean \<le> Max (val ` set vs)) \<and>
     0 \<le> val m2 \<and> val m2 \<le> of_nat (length vs) * 2 ^ 802"

lemma below_overflow: "x \<le> 2 ^ k \<Longrightarrow> k \<le> 1023 \<Longrightarrow> x \<le> (2 ^ 1023 :: real)"
  by (meson one_le_numeral order_trans power_increasing)

lemma moments_mean_bound:
  assumes "moments_inv finite_d val vs mean m2" "\<forall>v \<in> set vs. reading_ok finite_d val v"
  shows "\<bar>val mean\<bar> \<le> 2 ^ 400"
proof (cases "vs = []")
  case False
  then have "Min (val ` set vs) \<in> val ` set vs" "Max (val ` set vs) \<in> val ` set vs" by (simp_all add: Min_in Max_in)
  with assms(2) have "\<bar>Min (val ` set vs)\<bar> \<le> 2 ^ 400" "\<bar>Max (val ` set vs)\<bar> \<le> 2 ^ 400" by (auto simp: reading_ok_def)
  with assms(1) False show ?thesis by (simp only: moments_inv_def if_False abs_le_iff) linarith
qed (use assms(1) in \<open>simp add: moments_inv_def\<close>)

text \<open>The mean after one more reading.\<close>

lemma mean_in_doubles:
  assumes F: "ieee_ops finite_d val F" and "moments_inv finite_d val vs mean m2"
    and "\<forall>v \<in> set (vs @ [x]). reading_ok finite_d val v" "length vs < 2 ^ 53"
    and mean': "mean' = fp_add F mean (fp_div F (fp_sub F x mean) (fp_of_int F (int (length vs) + 1)))"
  shows "finite_d mean'" "min (val mean) (val x) \<le> val mean'" "val mean' \<le> max (val mean) (val x)"
    "vs = [] \<Longrightarrow> val mean' = val x"
proof -
  let ?n = "fp_of_int F (int (length vs) + 1)" and ?d = "fp_sub F x mean" let ?q = "fp_div F ?d ?n"
  have x: "finite_d x" "\<bar>val x\<bar> \<le> 2 ^ 400" "finite_d mean" using assms(2,3) by (simp_all add: reading_ok_def moments_inv_def)
  have m: "\<bar>val mean\<bar> \<le> 2 ^ 400" using moments_mean_bound [OF assms(2)] assms(3) by simp
  have n: "finite_d ?n" "val ?n = of_nat (length vs) + 1"
    using ieee_const(8,9) [OF F, of "int (length vs) + 1"] assms(4) by simp_all
  have dm: "\<bar>val x - val mean\<bar> \<le> 2 ^ 401" using x(2) m unfolding abs_le_iff by simp
  then have d: "finite_d ?d" "nearest (val x - val mean) (val ?d)"
    using ieee_op(2) [OF F x(1,3)] below_overflow [of _ 401] by simp_all
  have "\<bar>val ?d\<bar> \<le> 2 ^ 401" by (rule nearest_bound [OF d(2) dm]) simp
  moreover have "\<bar>val ?d / val ?n\<bar> \<le> \<bar>val ?d\<bar>" unfolding n(2) abs_divide by (simp add: divide_le_eq distrib_left)
  ultimately have dn: "\<bar>val ?d / val ?n\<bar> \<le> 2 ^ 401" by (rule order_trans [rotated])
  then have q: "finite_d ?q" "nearest (val ?d / val ?n) (val ?q)"
    using ieee_op(4) [OF F d(1) n(1)] n(2) below_overflow [of _ 401] by simp_all
  have k: "2 \<le> val ?n \<or> val ?n = 1 \<and> val mean = 0"
    using assms(2) n(2) by (cases vs) (auto simp: moments_inv_def)
  have D: "val x \<in> doubles" "val mean \<in> doubles" using ieee_const(5) [OF F] x by blast+
  have "\<bar>val ?q\<bar> \<le> 2 ^ 401" by (rule nearest_bound [OF q(2) dn]) simp
  then have "\<bar>val mean + val ?q\<bar> \<le> 2 ^ 402" using m unfolding abs_le_iff by simp
  then have m': "finite_d mean'" "nearest (val mean + val ?q) (val mean')"
    using ieee_op(1) [OF F x(3) q(1)] below_overflow [of _ 402] unfolding mean' by simp_all
  note step = mean_step [OF D k d(2) q(2) m'(2)]
  show "finite_d mean'" "min (val mean) (val x) \<le> val mean'" "val mean' \<le> max (val mean) (val x)" by (rule m'(1) step(1,2))+
  show "val mean' = val x" if "vs = []" using step(3) n(2) that by simp
qed

text \<open>The second moment after one more reading: both differences have the same sign, and their product is bounded.\<close>

lemma m2_in_doubles:
  assumes F: "ieee_ops finite_d val F" and fin: "finite_d mean" "finite_d mean'" "finite_d x" "finite_d m2"
    and bounds: "\<bar>val mean\<bar> \<le> 2 ^ 400" "\<bar>val mean'\<bar> \<le> 2 ^ 400" "\<bar>val x\<bar> \<le> 2 ^ 400"
    and between: "min (val mean) (val x) \<le> val mean'" "val mean' \<le> max (val mean) (val x)"
    and m2: "0 \<le> val m2" "val m2 \<le> of_nat n * 2 ^ 802" "n + 1 < 2 ^ 53"
    and m2': "m2' = fp_add F m2 (fp_mul F (fp_sub F x mean) (fp_sub F x mean'))"
  shows "finite_d m2'" "0 \<le> val m2'" "val m2' \<le> of_nat (n + 1) * 2 ^ 802"
proof -
  let ?d = "fp_sub F x mean" and ?d2 = "fp_sub F x mean'" let ?p = "fp_mul F ?d ?d2"
  have le: "\<bar>val x - val mean\<bar> \<le> 2 ^ 401" "\<bar>val x - val mean'\<bar> \<le> 2 ^ 401" using bounds unfolding abs_le_iff by simp_all
  then have d: "finite_d ?d" "nearest (val x - val mean) (val ?d)" "finite_d ?d2" "nearest (val x - val mean') (val ?d2)"
    using ieee_op(2) [OF F fin(3,1)] ieee_op(2) [OF F fin(3,2)] below_overflow [of _ 401] by simp_all
  have "\<bar>val ?d\<bar> \<le> 2 ^ 401" "\<bar>val ?d2\<bar> \<le> 2 ^ 401" using nearest_bound [OF d(2) le(1)] nearest_bound [OF d(4) le(2)] by simp_all
  then have "\<bar>val ?d * val ?d2\<bar> \<le> 2 ^ 401 * 2 ^ 401" unfolding abs_mult by (intro mult_mono) simp_all
  then have pb: "\<bar>val ?d * val ?d2\<bar> \<le> 2 ^ 802" by (simp flip: power_add)
  then have p: "finite_d ?p" "nearest (val ?d * val ?d2) (val ?p)"
    using ieee_op(3) [OF F d(1,3)] below_overflow [of _ 802] by simp_all
  have "0 \<le> val ?d \<and> 0 \<le> val ?d2 \<or> val ?d \<le> 0 \<and> val ?d2 \<le> 0"
  proof (cases "val mean \<le> val x")
    case True
    then show ?thesis using between(2) nearest_ge [OF d(2), of 0] nearest_ge [OF d(4), of 0] by simp
  next
    case False
    then show ?thesis using between(1) nearest_le [OF d(2), of 0] nearest_le [OF d(4), of 0] by simp
  qed
  then have "0 \<le> val ?d * val ?d2" by (auto intro: mult_nonneg_nonneg mult_nonpos_nonpos)
  then have p0: "0 \<le> val ?p" using nearest_ge [OF p(2), of 0] by simp
  have p1: "val ?p \<le> 2 ^ 802" using nearest_bound [OF p(2) pb] unfolding abs_le_iff by simp
  have top: "of_nat (n + 1) * 2 ^ 802 \<in> doubles" using double_scaled [of "int (n + 1)" 802] m2(3) by simp
  have sum: "0 \<le> val m2 + val ?p" "val m2 + val ?p \<le> of_nat (n + 1) * 2 ^ 802" using m2(1,2) p0 p1 by (simp_all add: distrib_right)
  have "of_nat (n + 1) \<le> (2 ^ 53 :: real)" using m2(3) by (simp flip: of_nat_Suc)
  then have "of_nat (n + 1) * 2 ^ 802 \<le> (2 ^ 53 * 2 ^ 802 :: real)" by (intro mult_right_mono) simp_all
  then have "val m2 + val ?p \<le> 2 ^ 855" using sum(2) by (simp flip: power_add)
  then have m: "finite_d m2'" "nearest (val m2 + val ?p) (val m2')"
    using ieee_op(1) [OF F fin(4) p(1)] sum(1) below_overflow [of _ 855] unfolding m2' by simp_all
  show "finite_d m2'" "0 \<le> val m2'" "val m2' \<le> of_nat (n + 1) * 2 ^ 802"
    using m(1) nearest_ge [OF m(2), of 0] nearest_le [OF m(2) top] sum by simp_all
qed

lemma acc_add_values:
  assumes "acc_add F R v a = Some a'"
  shows "acc_mean a' = fp_add F (acc_mean a) (fp_div F (fp_sub F v (acc_mean a)) (fp_of_int F (uint (acc_count a + 1))))"
    "acc_m2 a' = fp_add F (acc_m2 a) (fp_mul F (fp_sub F v (acc_mean a)) (fp_sub F v (acc_mean a')))"
  using assms by (auto simp: acc_add_def Let_def case_prod_beta split: if_splits)

lemma moments_step:
  assumes F: "ieee_ops finite_d val F" and inv: "moments_inv finite_d val vs (acc_mean a) (acc_m2 a)"
    and a': "acc_add F R x a = Some a'" and n: "unat (acc_count a) = length vs" "length vs + 1 < 2 ^ 53"
    and ok: "\<forall>v \<in> set (vs @ [x]). reading_ok finite_d val v"
  shows "moments_inv finite_d val (vs @ [x]) (acc_mean a') (acc_m2 a')"
proof -
  have "unat (acc_count a + 1) = length vs + 1" using n by (simp add: unat_word_ariths)
  then have u: "uint (acc_count a + 1) = int (length vs) + 1" by (metis int_plus of_nat_1 uint_nat)
  have "length vs < 2 ^ 53" using n(2) by simp
  note m = mean_in_doubles [OF F inv ok this acc_add_values(1) [OF a', unfolded u]]
  have x: "finite_d x" "\<bar>val x\<bar> \<le> 2 ^ 400" "finite_d (acc_mean a)" "finite_d (acc_m2 a)"
    using ok inv by (simp_all add: reading_ok_def moments_inv_def)
  have old: "\<bar>val (acc_mean a)\<bar> \<le> 2 ^ 400" using moments_mean_bound [OF inv] ok by simp
  have new: "\<bar>val (acc_mean a')\<bar> \<le> 2 ^ 400"
    using m(2,3) old x(2) unfolding abs_le_iff min_def max_def by (simp split: if_splits)
  have "0 \<le> val (acc_m2 a)" "val (acc_m2 a) \<le> of_nat (length vs) * 2 ^ 802" using inv by (simp_all add: moments_inv_def)
  note m2 = m2_in_doubles [OF F x(3) m(1) x(1,4) old new x(2) m(2,3) this n(2) acc_add_values(2) [OF a']]
  have "Min (val ` set (vs @ [x])) \<le> val (acc_mean a') \<and> val (acc_mean a') \<le> Max (val ` set (vs @ [x]))"
  proof (cases "vs = []")
    case False
    then have "Min (val ` set vs) \<le> val (acc_mean a)" "val (acc_mean a) \<le> Max (val ` set vs)" using inv by (simp_all add: moments_inv_def)
    moreover have "Min (val ` set (vs @ [x])) = min (val x) (Min (val ` set vs))" "Max (val ` set (vs @ [x])) = max (val x) (Max (val ` set vs))"
      using False by simp_all
    ultimately show ?thesis using m(2,3) by (auto simp: min_def max_def split: if_splits)
  qed (use m(4) in simp)
  with m(1) m2 show ?thesis by (simp add: moments_inv_def)
qed

lemma moments_reach:
  assumes F: "ieee_ops finite_d val F" and "draws_in_range R" "length vs < 2 ^ 53" "\<forall>v \<in> set vs. reading_ok finite_d val v"
  shows "\<exists>a. acc_add_all F R vs (latency_accumulator_init F R seed) = Some a \<and> reservoir_inv F vs a \<and>
    moments_inv finite_d val vs (acc_mean a) (acc_m2 a)"
  using assms(3,4)
proof (induction vs rule: rev_induct)
  case Nil
  then show ?case using ieee_const(1,2) [OF F] reservoir_inv_init [of F R seed]
    by (simp add: latency_accumulator_init_def moments_inv_def)
next
  case (snoc v vs)
  then obtain a where a: "acc_add_all F R vs (latency_accumulator_init F R seed) = Some a" "reservoir_inv F vs a"
    "moments_inv finite_d val vs (acc_mean a) (acc_m2 a)" by auto
  with acc_add_reservoir [OF assms(2) a(2), of v] snoc.prems(1) obtain a' where
    a': "acc_add F R v a = Some a'" "reservoir_inv F (vs @ [v]) a'" by auto
  have "unat (acc_count a) = length vs" using a(2) by (simp add: reservoir_inv_def)
  from moments_step [OF F a(3) a'(1) this _ snoc.prems(2)] snoc.prems(1) a(1) a' show ?case by (simp add: acc_add_all_append)
qed

text \<open>The quotient under the square root of the snapshot, and the extremes.\<close>

lemma variance_in_doubles:
  assumes F: "ieee_ops finite_d val F" and "finite_d m2" "0 \<le> val m2" "val m2 \<le> of_nat n * 2 ^ 802" "1 < n" "n < 2 ^ 53"
  shows "finite_d (fp_div F m2 (fp_of_int F (int (n - 1))))" "0 \<le> val (fp_div F m2 (fp_of_int F (int (n - 1))))"
proof -
  let ?n = "fp_of_int F (int (n - 1))"
  have n: "finite_d ?n" "val ?n = of_nat (n - 1)" using ieee_const(8,9) [OF F, of "int (n - 1)"] assms(6) by simp_all
  have ge: "1 \<le> val ?n" using assms(5) unfolding n(2) by simp
  have "val m2 / val ?n \<le> val m2" using ge assms(3) by (simp add: divide_le_eq mult_le_cancel_left1)
  also have "\<dots> \<le> 2 ^ 53 * 2 ^ 802"
  proof (rule order_trans [OF assms(4)], rule mult_right_mono)
    have "real n \<le> real (2 ^ 53)" unfolding of_nat_le_iff using assms(6) by simp
    then show "real n \<le> 2 ^ 53" by simp
  qed simp
  also have "\<dots> = (2 ^ 855 :: real)" by (simp flip: power_add)
  finally have "\<bar>val m2 / val ?n\<bar> \<le> 2 ^ 1023" using assms(3) ge below_overflow [of _ 855] by simp
  from ieee_op(4) [OF F assms(2) n(1) _ this] ge have
    d: "finite_d (fp_div F m2 ?n)" "nearest (val m2 / val ?n) (val (fp_div F m2 ?n))" by auto
  with nearest_ge [OF d(2), of 0] assms(3) ge show "finite_d (fp_div F m2 ?n)" "0 \<le> val (fp_div F m2 ?n)" by simp_all
qed

lemma extremes_of_readings:
  assumes F: "ieee_ops finite_d val F" and "vs \<noteq> []" "\<forall>v \<in> set vs. finite_d v"
  shows "val (foldl (fp_min F) (fp_largest F) vs) = Min (val ` set vs)" "val (foldl (fp_max F) (fp_lowest F) vs) = Max (val ` set vs)"
proof -
  note const = ieee_const [OF F]
  have "Min (val ` set vs) \<in> val ` set vs" "Max (val ` set vs) \<in> val ` set vs" using assms(2) by (simp_all add: Min_in Max_in)
  then have le: "Min (val ` set vs) \<le> val (fp_largest F)" "val (fp_lowest F) \<le> Max (val ` set vs)" using const(6,7) assms(3) by (elim imageE; simp)+
  have S: "finite (val ` set vs)" "val ` set vs \<noteq> {}" using assms(2) by simp_all
  show "val (foldl (fp_min F) (fp_largest F) vs) = Min (val ` set vs)"
    using fp_min_all [OF F const(3) assms(3)] unfolding Min_insert [OF S] min_absorb2 [OF le(1)] by blast
  show "val (foldl (fp_max F) (fp_lowest F) vs) = Max (val ` set vs)"
    using fp_max_all [OF F const(4) assms(3)] unfolding Max_insert [OF S] max_absorb2 [OF le(2)] by blast
qed

text \<open>
  C15: the reported moments make sense in the double arithmetic of the machine. When the operations on doubles round to nearest as IEEE 754
  says, then after any number of finite readings of moderate size (up to two to the 400 in magnitude, fewer than two to the 53 of them) the
  minimum and maximum are those of the readings, the running mean lies between them, and the second moment is not
  negative, nor is its quotient by the number of readings less one, of which the snapshot takes the square root: rounding never
  pushes the mean out of the range of the readings and the standard deviation is never that of a negative number.
\<close>

theorem latency_moments_sound:
  assumes "ieee_ops finite_d val F" "draws_in_range R" "vs \<noteq> []" "length vs < 2 ^ 53" "\<forall>v \<in> set vs. reading_ok finite_d val v"
  shows "\<exists>a. acc_add_all F R vs (latency_accumulator_init F R seed) = Some a \<and>
    val (acc_min a) = Min (val ` set vs) \<and> val (acc_max a) = Max (val ` set vs) \<and>
    finite_d (acc_mean a) \<and> val (acc_min a) \<le> val (acc_mean a) \<and> val (acc_mean a) \<le> val (acc_max a) \<and>
    finite_d (acc_m2 a) \<and> 0 \<le> val (acc_m2 a) \<and>
    (acc_count a > 1 \<longrightarrow> (let v = fp_div F (acc_m2 a) (fp_of_int F (uint (acc_count a - 1))) in finite_d v \<and> 0 \<le> val v))"
proof -
  obtain a where a: "acc_add_all F R vs (latency_accumulator_init F R seed) = Some a" "reservoir_inv F vs a"
    "moments_inv finite_d val vs (acc_mean a) (acc_m2 a)" using moments_reach [OF assms(1,2,4,5)] by blast
  have "\<forall>v \<in> set vs. finite_d v" using assms(5) by (simp add: reading_ok_def)
  with extremes_of_readings [OF assms(1,3)] a(2) have mm: "val (acc_min a) = Min (val ` set vs)" "val (acc_max a) = Max (val ` set vs)"
    by (simp_all add: reservoir_inv_def)
  have m2: "finite_d (acc_m2 a)" "0 \<le> val (acc_m2 a)" "val (acc_m2 a) \<le> of_nat (length vs) * 2 ^ 802"
    using a(3) by (simp_all add: moments_inv_def)
  have u: "unat (acc_count a) = length vs" using a(2) by (simp add: reservoir_inv_def)
  have "1 < length vs \<and> uint (acc_count a - 1) = int (length vs - 1)" if "acc_count a > 1"
    using that u by (simp add: uint_nat unat_sub word_less_nat_alt word_le_nat_alt)
  with variance_in_doubles [OF assms(1) m2 _ assms(4)] a mm m2(1,2) assms(3) show ?thesis by (auto simp: moments_inv_def Let_def)
qed

definition same_draws :: "(real, unit) random_ops" where
  "same_draws =
     \<lparr>rng_seed = (\<lambda>_. ()), draw_uniform = (\<lambda>_. (1 / 2, ())), draw_normal = (\<lambda>_. (0, ())), draw_index = (\<lambda>lo hi _. (lo, ()))\<rparr>"

theorem latency_moments_sound_witness:
  "\<exists>a. acc_add_all rounded_ops same_draws [3, 1, 7] (latency_accumulator_init rounded_ops same_draws 42) = Some a \<and>
     acc_min a = 1 \<and> acc_max a = 7 \<and> 1 \<le> acc_mean a \<and> acc_mean a \<le> 7 \<and> 0 \<le> acc_m2 a"
proof -
  have r: "draws_in_range same_draws" by (simp add: draws_in_range_def same_draws_def)
  have ok: "\<forall>v \<in> set [3, 1, 7]. reading_ok (\<lambda>x. x \<in> doubles) (\<lambda>x. x) v"
    using double_int [of 3] double_int [of 1] double_int [of 7] by (simp add: reading_ok_def)
  from latency_moments_sound [OF rounded_ops_ieee r _ _ ok, of 42] show ?thesis by auto
qed

end
