(* ===== verification/Bench_Timer.thy ===== *)
theory Bench_Timer
  imports Numeric_Library
begin

text \<open>
  The timers of the benchmark (\<^verbatim>\<open>tsc_timer.hpp\<close>, \<^verbatim>\<open>benchmark_timer.hpp\<close>). What the hardware and the kernel
  answer is a parameter: the successive readings of the time stamp counter and of the clocks, and
  the frequency file. Shown here: the calibration returns as soon as the clock has advanced by its
  window and happens once, and elapsed cycles are exact even when the counter wraps.
\<close>

section \<open>Readings\<close>

text \<open>
  \<open>tsc_at n\<close>, \<open>gettime_at n\<close> and \<open>steady_at n\<close> are the answers to the n-th query of a thread;
  \<open>gettime_at\<close> gives seconds and nanoseconds, or \<open>None\<close> when \<^verbatim>\<open>clock_gettime\<close> fails.
\<close>

record clock_env =
  sysfs_khz :: "64 word option"
  tsc_at :: "nat \<Rightarrow> 64 word"
  gettime_at :: "nat \<Rightarrow> (int \<times> int) option"
  steady_at :: "nat \<Rightarrow> int"

text \<open>\<open>ns_per_cycle\<close> is the static variable behind \<^verbatim>\<open>ns_per_tsc_cycle_storage\<close>, \<open>calibrated\<close> the once flag.\<close>

record 'd bench_timer_t =
  tsc_reads :: nat
  wall_reads :: nat
  ns_per_cycle :: 'd
  calibrated :: bool

definition bench_timer_init :: "'d double_ops \<Rightarrow> 'd bench_timer_t" where
  "bench_timer_init F = \<lparr>tsc_reads = 0, wall_reads = 0, ns_per_cycle = fp_lit F 0, calibrated = False\<rparr>"

definition monotonic_now_ns :: "clock_env \<Rightarrow> 'd bench_timer_t \<Rightarrow> int \<times> 'd bench_timer_t" where
  "monotonic_now_ns E t =
     (let n = wall_reads t
      in (case gettime_at E n of
            Some (tv_sec, tv_nsec) \<Rightarrow> wrap64 (wrap64 (tv_sec * 1000000000) + tv_nsec)
          | None \<Rightarrow> steady_at E n,
          t\<lparr>wall_reads := n + 1\<rparr>))"

definition rdtsc :: "clock_env \<Rightarrow> 'd bench_timer_t \<Rightarrow> 64 word \<times> 'd bench_timer_t" where
  "rdtsc E t = (tsc_at E (tsc_reads t), t\<lparr>tsc_reads := tsc_reads t + 1\<rparr>)"

section \<open>Calibration\<close>

definition read_sysfs_tsc_khz :: "clock_env \<Rightarrow> 32 word option" where
  "read_sysfs_tsc_khz E = (case sysfs_khz E of Some v \<Rightarrow> if v > 0 then Some (ucast v) else None | None \<Rightarrow> None)"

abbreviation min_wall_ns :: int where
  "min_wall_ns \<equiv> 25000000"

text \<open>The spin against the clock; \<open>None\<close> when it never advances by the window.\<close>

partial_function (option) calibrate_spin ::
    "clock_env \<Rightarrow> int \<Rightarrow> 'd bench_timer_t \<Rightarrow> (64 word \<times> int \<times> 'd bench_timer_t) option" where
  "calibrate_spin E w0 t =
     (let (t1, ta) = rdtsc E t; (w1, tb) = monotonic_now_ns E ta
      in if wrap64 (w1 - w0) < min_wall_ns then calibrate_spin E w0 tb else Some (t1, w1, tb))"

definition calibrate_ns_per_tsc_cycle ::
    "'d double_ops \<Rightarrow> clock_env \<Rightarrow> 'd bench_timer_t \<Rightarrow> ('d \<times> 'd bench_timer_t) option" where
  "calibrate_ns_per_tsc_cycle F E t =
     (case read_sysfs_tsc_khz E of
        Some khz \<Rightarrow> Some (fp_div F (fp_lit F 1000000) (fp_of_int F (uint khz)), t)
      | None \<Rightarrow>
          (let (t0, ta) = rdtsc E t; (w0, tb) = monotonic_now_ns E ta
           in map_option (\<lambda>(t1, w1, tc).
                (fp_div F (fp_of_int F (wrap64 (w1 - w0))) (fp_of_int F (uint (t1 - t0))), tc))
              (calibrate_spin E w0 tb)))"

definition init_once :: "'d double_ops \<Rightarrow> clock_env \<Rightarrow> 'd bench_timer_t \<Rightarrow> 'd bench_timer_t option" where
  "init_once F E t =
     (if calibrated t then Some t
      else map_option (\<lambda>(v, t'). t'\<lparr>ns_per_cycle := v, calibrated := True\<rparr>) (calibrate_ns_per_tsc_cycle F E t))"

section \<open>Marks and intervals\<close>

definition tsc_read_serialized :: "clock_env \<Rightarrow> 'd bench_timer_t \<Rightarrow> 64 word \<times> 'd bench_timer_t" where
  "tsc_read_serialized E t = rdtsc E t"

definition benchmark_timer_init :: "'d double_ops \<Rightarrow> clock_env \<Rightarrow> 'd bench_timer_t \<Rightarrow> 'd bench_timer_t option" where
  "benchmark_timer_init F E t = init_once F E t"

definition bench_mark :: "'d double_ops \<Rightarrow> clock_env \<Rightarrow> 'd bench_timer_t \<Rightarrow> (64 word \<times> 'd bench_timer_t) option" where
  "bench_mark F E t = map_option (tsc_read_serialized E) (init_once F E t)"

definition bench_elapsed_cycles ::
    "'d double_ops \<Rightarrow> clock_env \<Rightarrow> 64 word \<Rightarrow> 'd bench_timer_t \<Rightarrow> (64 word \<times> 'd bench_timer_t) option" where
  "bench_elapsed_cycles F E mark t =
     map_option (\<lambda>t'. let (end_tsc, t'') = tsc_read_serialized E t' in (end_tsc - mark, t'')) (init_once F E t)"

definition bench_elapsed_ns ::
    "'d double_ops \<Rightarrow> clock_env \<Rightarrow> 64 word \<Rightarrow> 'd bench_timer_t \<Rightarrow> ('d \<times> 'd bench_timer_t) option" where
  "bench_elapsed_ns F E mark t =
     map_option (\<lambda>(cycles, t'). (fp_mul F (fp_of_int F (uint cycles)) (ns_per_cycle t'), t'))
       (bench_elapsed_cycles F E mark t)"

definition bench_cycles_to_ns ::
    "'d double_ops \<Rightarrow> clock_env \<Rightarrow> 64 word \<Rightarrow> 'd bench_timer_t \<Rightarrow> ('d \<times> 'd bench_timer_t) option" where
  "bench_cycles_to_ns F E cycles t =
     map_option (\<lambda>t'. (fp_mul F (fp_of_int F (uint cycles)) (ns_per_cycle t'), t')) (init_once F E t)"

definition bench_ns_per_cycle ::
    "'d double_ops \<Rightarrow> clock_env \<Rightarrow> 'd bench_timer_t \<Rightarrow> ('d \<times> 'd bench_timer_t) option" where
  "bench_ns_per_cycle F E t = map_option (\<lambda>t'. (ns_per_cycle t', t')) (init_once F E t)"

text \<open>The fallback without a time stamp counter: cycles are nanoseconds of the clock.\<close>

definition fallback_mark :: "clock_env \<Rightarrow> 'd bench_timer_t \<Rightarrow> 64 word \<times> 'd bench_timer_t" where
  "fallback_mark E t = (let (now, t') = monotonic_now_ns E t in (of_int now, t'))"

definition fallback_elapsed_cycles :: "clock_env \<Rightarrow> 64 word \<Rightarrow> 'd bench_timer_t \<Rightarrow> 64 word \<times> 'd bench_timer_t" where
  "fallback_elapsed_cycles E mark t =
     (let (now, t') = monotonic_now_ns E t in (of_int (wrap64 (now - sint mark)), t'))"

definition fallback_elapsed_ns ::
    "'d double_ops \<Rightarrow> clock_env \<Rightarrow> 64 word \<Rightarrow> 'd bench_timer_t \<Rightarrow> 'd \<times> 'd bench_timer_t" where
  "fallback_elapsed_ns F E mark t =
     (let (cycles, t') = fallback_elapsed_cycles E mark t in (fp_of_int F (uint cycles), t'))"

section \<open>The calibration returns\<close>

definition wall_at :: "clock_env \<Rightarrow> nat \<Rightarrow> int" where
  "wall_at E n = (case gettime_at E n of
     Some (tv_sec, tv_nsec) \<Rightarrow> wrap64 (wrap64 (tv_sec * 1000000000) + tv_nsec) | None \<Rightarrow> steady_at E n)"

lemma monotonic_now_ns_at: "monotonic_now_ns E t = (wall_at E (wall_reads t), t\<lparr>wall_reads := wall_reads t + 1\<rparr>)"
  by (simp add: monotonic_now_ns_def wall_at_def Let_def)

text \<open>The loop ends at the first reading that is a window away from the start.\<close>

lemma calibrate_spin_returns:
  assumes "min_wall_ns \<le> wrap64 (wall_at E (wall_reads t + k) - w0)"
    and "\<forall>j < k. wrap64 (wall_at E (wall_reads t + j) - w0) < min_wall_ns"
  shows "calibrate_spin E w0 t =
    Some (tsc_at E (tsc_reads t + k), wall_at E (wall_reads t + k),
      t\<lparr>tsc_reads := tsc_reads t + k + 1, wall_reads := wall_reads t + k + 1\<rparr>)"
  using assms
proof (induction k arbitrary: t)
  case 0
  then show ?case by (subst calibrate_spin.simps) (simp add: monotonic_now_ns_at rdtsc_def)
next
  case (Suc k)
  let ?t = "t\<lparr>tsc_reads := tsc_reads t + 1, wall_reads := wall_reads t + 1\<rparr>"
  have "wrap64 (wall_at E (wall_reads t) - w0) < min_wall_ns" using Suc.prems(2) by (auto dest: spec [of _ 0])
  then have "calibrate_spin E w0 t = calibrate_spin E w0 ?t"
    by (subst calibrate_spin.simps) (simp add: monotonic_now_ns_at rdtsc_def)
  also have "\<dots> = Some (tsc_at E (tsc_reads ?t + k), wall_at E (wall_reads ?t + k),
      ?t\<lparr>tsc_reads := tsc_reads ?t + k + 1, wall_reads := wall_reads ?t + k + 1\<rparr>)"
    using Suc.prems by (intro Suc.IH) (auto dest: spec [of _ "Suc _"])
  finally show ?case by simp
qed

lemma calibrate_returns:
  assumes "read_sysfs_tsc_khz E = None"
    and "min_wall_ns \<le> wrap64 (wall_at E (wall_reads t + 1 + k) - wall_at E (wall_reads t))"
  shows "\<exists>j \<le> k. calibrate_ns_per_tsc_cycle F E t =
    Some (fp_div F (fp_of_int F (wrap64 (wall_at E (wall_reads t + 1 + j) - wall_at E (wall_reads t))))
        (fp_of_int F (uint (tsc_at E (tsc_reads t + 1 + j) - tsc_at E (tsc_reads t)))),
      t\<lparr>tsc_reads := tsc_reads t + j + 2, wall_reads := wall_reads t + j + 2\<rparr>)"
proof -
  let ?w0 = "wall_at E (wall_reads t)" and ?t = "t\<lparr>tsc_reads := tsc_reads t + 1, wall_reads := wall_reads t + 1\<rparr>"
  let ?P = "\<lambda>j. min_wall_ns \<le> wrap64 (wall_at E (wall_reads t + 1 + j) - ?w0)"
  have j: "?P (LEAST j. ?P j)" "\<forall>i < (LEAST j. ?P j). \<not> ?P i" "(LEAST j. ?P j) \<le> k"
    using assms(2) LeastI [of ?P k] not_less_Least [of _ ?P] Least_le [of ?P k] by blast+
  then have "calibrate_spin E ?w0 ?t = Some (tsc_at E (tsc_reads t + 1 + (LEAST j. ?P j)),
      wall_at E (wall_reads t + 1 + (LEAST j. ?P j)),
      t\<lparr>tsc_reads := tsc_reads t + (LEAST j. ?P j) + 2, wall_reads := wall_reads t + (LEAST j. ?P j) + 2\<rparr>)"
    by (subst calibrate_spin_returns [of E ?t "LEAST j. ?P j"]) auto
  with j(3) assms(1) show ?thesis
    by (intro exI [of _ "LEAST j. ?P j"]) (simp add: calibrate_ns_per_tsc_cycle_def monotonic_now_ns_at rdtsc_def)
qed

lemma init_once_calibrated: "calibrated t \<Longrightarrow> init_once F E t = Some t"
  by (simp add: init_once_def)

lemma init_once_sets: "init_once F E t = Some t' \<Longrightarrow> calibrated t'"
  by (auto simp: init_once_def split: if_splits)

section \<open>Properties of the timers\<close>

text \<open>
  Without the frequency file the calibration spins until the clock has advanced by 25 milliseconds
  and, if it ever does, returns: the factor is then the elapsed nanoseconds over the elapsed cycles at some
  reading up to that one, with the window passed, and no later call of the timers calibrates again.
\<close>

lemma timer_calibrates_once:
  assumes "\<not> calibrated t" "read_sysfs_tsc_khz E = None"
    and "min_wall_ns \<le> wrap64 (wall_at E (wall_reads t + 1 + k) - wall_at E (wall_reads t))"
  shows "\<exists>j t'. j \<le> k \<and> benchmark_timer_init F E t = Some t' \<and>
    ns_per_cycle t' = fp_div F (fp_of_int F (wrap64 (wall_at E (wall_reads t + 1 + j) - wall_at E (wall_reads t))))
      (fp_of_int F (uint (tsc_at E (tsc_reads t + 1 + j) - tsc_at E (tsc_reads t)))) \<and>
    benchmark_timer_init F E t' = Some t' \<and> bench_mark F E t' = Some (tsc_read_serialized E t')"
proof -
  from calibrate_returns [OF assms(2,3), of F] obtain j where j: "j \<le> k"
    "calibrate_ns_per_tsc_cycle F E t =
      Some (fp_div F (fp_of_int F (wrap64 (wall_at E (wall_reads t + 1 + j) - wall_at E (wall_reads t))))
        (fp_of_int F (uint (tsc_at E (tsc_reads t + 1 + j) - tsc_at E (tsc_reads t)))),
      t\<lparr>tsc_reads := tsc_reads t + j + 2, wall_reads := wall_reads t + j + 2\<rparr>)" by blast
  then show ?thesis using assms(1) by (auto simp: benchmark_timer_init_def bench_mark_def init_once_def)
qed

definition ticking_clock :: clock_env where
  "ticking_clock =
     \<lparr>sysfs_khz = None, tsc_at = (\<lambda>n. of_nat (30000000 * n)), gettime_at = (\<lambda>n. Some (int n, 0)), steady_at = int\<rparr>"

lemma unat_of_nat_diff:
  assumes "a \<le> b" "b - a < 2 ^ 64"
  shows "unat (of_nat b - of_nat a :: 64 word) = b - a"
proof -
  have "(of_nat b - of_nat a :: 64 word) = of_nat (b - a)" by (simp add: of_nat_diff assms(1))
  with assms(2) show ?thesis by (simp add: unat_of_nat)
qed

text \<open>
  C38: an interval is measured exactly. When the counter shows the number of cycles \<open>c\<close> modulo two to the 64,
  a mark and the elapsed cycles after it give the cycles that passed, also across a wrap of the
  counter, as long as they are fewer than two to the 64; the nanoseconds are that number times the
  calibrated factor.
\<close>

theorem elapsed_cycles_exact:
  assumes "calibrated t" "\<forall>n. tsc_at E n = of_nat (c n)" "c (tsc_reads t) \<le> c (tsc_reads t + 1)"
    and "c (tsc_reads t + 1) - c (tsc_reads t) < 2 ^ 64"
  shows "\<exists>mark t1 cycles t2. bench_mark F E t = Some (mark, t1) \<and> bench_elapsed_cycles F E mark t1 = Some (cycles, t2) \<and>
    unat cycles = c (tsc_reads t + 1) - c (tsc_reads t) \<and>
    bench_elapsed_ns F E mark t1 = Some (fp_mul F (fp_of_int F (uint cycles)) (ns_per_cycle t), t2)"
  using unat_of_nat_diff [OF assms(3,4)] assms(1,2)
  by (simp add: bench_mark_def bench_elapsed_cycles_def bench_elapsed_ns_def init_once_calibrated tsc_read_serialized_def
      rdtsc_def)

theorem elapsed_cycles_exact_witness:
  "\<exists>mark t1 cycles t2.
     bench_mark rat_ops (ticking_clock\<lparr>tsc_at := \<lambda>n. of_nat (18446744073709551610 + 10 * n)\<rparr>)
       \<lparr>tsc_reads = 0, wall_reads = 0, ns_per_cycle = 1 / 3, calibrated = True\<rparr> = Some (mark, t1) \<and>
     bench_elapsed_cycles rat_ops (ticking_clock\<lparr>tsc_at := \<lambda>n. of_nat (18446744073709551610 + 10 * n)\<rparr>) mark t1 =
       Some (cycles, t2) \<and> unat cycles = 10"
proof -
  let ?E = "ticking_clock\<lparr>tsc_at := \<lambda>n. of_nat (18446744073709551610 + 10 * n)\<rparr>"
  have "\<forall>n. tsc_at ?E n = of_nat (18446744073709551610 + 10 * n)" by simp
  from elapsed_cycles_exact [OF _ this, of "\<lparr>tsc_reads = 0, wall_reads = 0, ns_per_cycle = 1 / 3, calibrated = True\<rparr>" rat_ops]
  show ?thesis by auto
qed

end
