(* ===== verification/Benchmark_Config.thy ===== *)
theory Benchmark_Config
  imports Wire_Text Market_Profile
begin

text \<open>
  The command line of the benchmark (\<^verbatim>\<open>benchmark_config.hpp\<close>): the declared options, the staging of
  the values, the choice of the presets and the overrides. The option parser cxxopts is a
  parameter. Its values carry their type, because \<^verbatim>\<open>as<T>()\<close> on an option that was declared with
  another type is a failed cast that nothing catches.
\<close>

section \<open>Options and their values\<close>

datatype opt_type = T_bool | T_string | T_size | T_uint64 | T_int | T_int32 | T_double

datatype 'd opt_value =
    Opt_bool bool
  | Opt_string string
  | Opt_size "64 word"
  | Opt_uint64 "64 word"
  | Opt_int int
  | Opt_int32 int
  | Opt_double 'd

fun opt_type_of :: "'d opt_value \<Rightarrow> opt_type" where
  "opt_type_of (Opt_bool _) = T_bool"
| "opt_type_of (Opt_string _) = T_string"
| "opt_type_of (Opt_size _) = T_size"
| "opt_type_of (Opt_uint64 _) = T_uint64"
| "opt_type_of (Opt_int _) = T_int"
| "opt_type_of (Opt_int32 _) = T_int32"
| "opt_type_of (Opt_double _) = T_double"

fun get_string :: "'d opt_value \<Rightarrow> string option" where
  "get_string (Opt_string v) = Some v"
| "get_string _ = None"

fun get_size :: "'d opt_value \<Rightarrow> 64 word option" where
  "get_size (Opt_size v) = Some v"
| "get_size _ = None"

fun get_uint64 :: "'d opt_value \<Rightarrow> 64 word option" where
  "get_uint64 (Opt_uint64 v) = Some v"
| "get_uint64 _ = None"

fun get_int :: "'d opt_value \<Rightarrow> int option" where
  "get_int (Opt_int v) = Some v"
| "get_int _ = None"

fun get_int32 :: "'d opt_value \<Rightarrow> int option" where
  "get_int32 (Opt_int32 v) = Some v"
| "get_int32 _ = None"

fun get_double :: "'d opt_value \<Rightarrow> 'd option" where
  "get_double (Opt_double v) = Some v"
| "get_double _ = None"

text \<open>\<^verbatim>\<open>build_options\<close>: the declared options with their types.\<close>

definition build_options :: "(string \<times> opt_type) list" where
  "build_options =
     [(''help'', T_bool), (''profile'', T_string), (''orders'', T_size), (''warmup'', T_size),
      (''iterations'', T_size), (''seed'', T_uint64), (''latency-stats'', T_string),
      (''producer-cpu'', T_int), (''matcher-cpu'', T_int), (''stats-cpu'', T_int),
      (''cancel-ratio'', T_double), (''aggressive-ratio'', T_double),
      (''buy-bias'', T_double), (''mu'', T_double), (''sigma'', T_double),
      (''initial-mid'', T_int32), (''tick-size'', T_int32), (''place-decay'', T_double),
      (''qty-log-mean'', T_double), (''qty-log-stddev'', T_double), (''qty-min'', T_int32),
      (''qty-max'', T_int32)]"

text \<open>
  The result of the option parser: \<^verbatim>\<open>count(flag)\<close>, and for \<^verbatim>\<open>parsed[flag]\<close> its value or the text
  of the exception it throws.
\<close>

record 'd options_result_t =
  opt_count :: "string \<Rightarrow> nat"
  opt_value_of :: "string \<Rightarrow> string + 'd opt_value"

text \<open>
  The exceptions: those of the option parser, a failed cast, and the two of the configuration with
  the text they print, \<^verbatim>\<open>help_requested\<close> on the standard output and \<^verbatim>\<open>parse_error\<close> as one line on the
  standard error.
\<close>

datatype bench_exception =
    cxxopts_exception string
  | bad_cast
  | bench_help_requested string
  | bench_parse_error string

section \<open>The configuration\<close>

record benchmark_config_t =
  warmup_events :: "64 word"
  iterations :: "64 word"
  collect_latency :: bool
  producer_cpu :: "int option"
  bench_matcher_cpu :: "int option"
  stats_cpu :: "int option"

definition benchmark_config_init :: benchmark_config_t where
  "benchmark_config_init =
     \<lparr>warmup_events = 10000, iterations = 5, collect_latency = True, producer_cpu = None,
      bench_matcher_cpu = None, stats_cpu = None\<rparr>"

record 'd market_profile_overrides_t =
  o_orders :: "64 word option"
  o_seed :: "64 word option"
  o_cancel_ratio :: "'d option"
  o_aggressive_ratio :: "'d option"
  o_buy_bias :: "'d option"
  o_mu :: "'d option"
  o_sigma :: "'d option"
  o_initial_mid :: "int option"
  o_tick_size :: "int option"
  o_place_decay :: "'d option"
  o_qty_log_mean :: "'d option"
  o_qty_log_stddev :: "'d option"
  o_qty_min :: "int option"
  o_qty_max :: "int option"

record 'd staging_t =
  profile_selection :: string
  staging_benchmark :: benchmark_config_t
  profile_overrides :: "'d market_profile_overrides_t"

definition staging_init :: "'d staging_t" where
  "staging_init =
     \<lparr>profile_selection = ''all'', staging_benchmark = benchmark_config_init,
      profile_overrides = \<lparr>o_orders = None, o_seed = None, o_cancel_ratio = None, o_aggressive_ratio = None, o_buy_bias = None, o_mu = None, o_sigma = None, o_initial_mid = None, o_tick_size = None, o_place_decay = None, o_qty_log_mean = None, o_qty_log_stddev = None, o_qty_min = None, o_qty_max = None\<rparr>\<rparr>"

record 'd bench_config_t =
  config_benchmark :: benchmark_config_t
  config_profiles :: "'d market_profile_t list"

section \<open>Reading the values\<close>

text \<open>\<^verbatim>\<open>result[flag].as<T>()\<close>; the projection \<open>get\<close> is the cast.\<close>

definition option_as ::
    "('d opt_value \<Rightarrow> 'a option) \<Rightarrow> 'd options_result_t \<Rightarrow> string \<Rightarrow> bench_exception + 'a" where
  "option_as get parsed flag =
     (case opt_value_of parsed flag of
        Inl what \<Rightarrow> Inl (cxxopts_exception what)
      | Inr v \<Rightarrow> (case get v of None \<Rightarrow> Inl bad_cast | Some x \<Rightarrow> Inr x))"

text \<open>The reference parameter \<^verbatim>\<open>slot\<close> is the update function of the member it refers to.\<close>

definition assign_if_present ::
    "('d opt_value \<Rightarrow> 'a option) \<Rightarrow> 'd options_result_t \<Rightarrow> string \<Rightarrow> (('a \<Rightarrow> 'a) \<Rightarrow> 'r \<Rightarrow> 'r) \<Rightarrow> 'r \<Rightarrow>
     bench_exception + 'r" where
  "assign_if_present get parsed flag slot r =
     (if opt_count parsed flag = 0 then Inr r
      else (case option_as get parsed flag of Inl e \<Rightarrow> Inl e | Inr v \<Rightarrow> Inr (slot (\<lambda>_. v) r)))"

definition assign_optional_field ::
    "('d opt_value \<Rightarrow> 'a option) \<Rightarrow> 'd options_result_t \<Rightarrow> string \<Rightarrow> (('a option \<Rightarrow> 'a option) \<Rightarrow> 'r \<Rightarrow> 'r) \<Rightarrow> 'r \<Rightarrow>
     bench_exception + 'r" where
  "assign_optional_field get parsed flag slot r =
     (if opt_count parsed flag = 0 then Inr r
      else (case option_as get parsed flag of Inl e \<Rightarrow> Inl e | Inr v \<Rightarrow> Inr (slot (\<lambda>_. Some v) r)))"

text \<open>\<^verbatim>\<open>assign_cpu\<close> with the \<^verbatim>\<open>throw\<close> that its caller makes when it failed.\<close>

definition assign_cpu ::
    "'d options_result_t \<Rightarrow> string \<Rightarrow> ((int option \<Rightarrow> int option) \<Rightarrow> 'r \<Rightarrow> 'r) \<Rightarrow> 'r \<Rightarrow> bench_exception + 'r" where
  "assign_cpu parsed flag slot r =
     (if opt_count parsed flag = 0 then Inr r
      else (case option_as get_int parsed flag of
              Inl (cxxopts_exception what) \<Rightarrow>
                Inl (bench_parse_error (''benchmark: invalid value for --'' @ flag @ '': '' @ what))
            | Inl e \<Rightarrow> Inl e
            | Inr v \<Rightarrow>
                if v < 0
                then Inl (bench_parse_error (''benchmark: invalid value for --'' @ flag @ '': '' @
                       quoted (format_int v) @ '' (expected non-negative integer)''))
                else Inr (slot (\<lambda>_. Some v) r)))"

definition assign_latency ::
    "'d options_result_t \<Rightarrow> ((bool \<Rightarrow> bool) \<Rightarrow> 'r \<Rightarrow> 'r) \<Rightarrow> 'r \<Rightarrow> bench_exception + 'r" where
  "assign_latency parsed slot r =
     (if opt_count parsed ''latency-stats'' = 0 then Inr r
      else (case option_as get_string parsed ''latency-stats'' of
              Inl e \<Rightarrow> Inl e
            | Inr v \<Rightarrow>
                if v = ''on'' \<or> v = ''true'' \<or> v = ''1'' then Inr (slot (\<lambda>_. True) r)
                else if v = ''off'' \<or> v = ''false'' \<or> v = ''0'' then Inr (slot (\<lambda>_. False) r)
                else Inl (bench_parse_error (''benchmark: --latency-stats must be on|off, got '' @ quoted v))))"

fun run_assignments :: "('r \<Rightarrow> 'e + 'r) list \<Rightarrow> 'r \<Rightarrow> 'e + 'r" where
  "run_assignments [] r = Inr r"
| "run_assignments (f # fs) r = (case f r of Inl e \<Rightarrow> Inl e | Inr r1 \<Rightarrow> run_assignments fs r1)"

definition staging_assignments :: "'d options_result_t \<Rightarrow> ('d staging_t \<Rightarrow> bench_exception + 'd staging_t) list" where
  "staging_assignments parsed =
     [assign_if_present get_string parsed ''profile'' profile_selection_update,
      assign_if_present get_size parsed ''warmup'' (\<lambda>f. staging_benchmark_update (warmup_events_update f)),
      assign_if_present get_size parsed ''iterations'' (\<lambda>f. staging_benchmark_update (iterations_update f)),
      assign_cpu parsed ''producer-cpu'' (\<lambda>f. staging_benchmark_update (producer_cpu_update f)),
      assign_cpu parsed ''matcher-cpu'' (\<lambda>f. staging_benchmark_update (bench_matcher_cpu_update f)),
      assign_cpu parsed ''stats-cpu'' (\<lambda>f. staging_benchmark_update (stats_cpu_update f)),
      assign_latency parsed (\<lambda>f. staging_benchmark_update (collect_latency_update f)),
      assign_optional_field get_size parsed ''orders'' (\<lambda>f. profile_overrides_update (o_orders_update f)),
      assign_optional_field get_uint64 parsed ''seed'' (\<lambda>f. profile_overrides_update (o_seed_update f)),
      assign_optional_field get_double parsed ''cancel-ratio'' (\<lambda>f. profile_overrides_update (o_cancel_ratio_update f)),
      assign_optional_field get_double parsed ''aggressive-ratio'' (\<lambda>f. profile_overrides_update (o_aggressive_ratio_update f)),
      assign_optional_field get_double parsed ''buy-bias'' (\<lambda>f. profile_overrides_update (o_buy_bias_update f)),
      assign_optional_field get_double parsed ''mu'' (\<lambda>f. profile_overrides_update (o_mu_update f)),
      assign_optional_field get_double parsed ''sigma'' (\<lambda>f. profile_overrides_update (o_sigma_update f)),
      assign_optional_field get_int32 parsed ''initial-mid'' (\<lambda>f. profile_overrides_update (o_initial_mid_update f)),
      assign_optional_field get_int32 parsed ''tick-size'' (\<lambda>f. profile_overrides_update (o_tick_size_update f)),
      assign_optional_field get_double parsed ''place-decay'' (\<lambda>f. profile_overrides_update (o_place_decay_update f)),
      assign_optional_field get_double parsed ''qty-log-mean'' (\<lambda>f. profile_overrides_update (o_qty_log_mean_update f)),
      assign_optional_field get_double parsed ''qty-log-stddev'' (\<lambda>f. profile_overrides_update (o_qty_log_stddev_update f)),
      assign_optional_field get_int32 parsed ''qty-min'' (\<lambda>f. profile_overrides_update (o_qty_min_update f)),
      assign_optional_field get_int32 parsed ''qty-max'' (\<lambda>f. profile_overrides_update (o_qty_max_update f))]"

text \<open>The \<^verbatim>\<open>catch\<close> clause turns what the option parser throws into a parse error.\<close>

definition fill_staging_from_parse ::
    "'d options_result_t \<Rightarrow> 'd staging_t \<Rightarrow> bench_exception + 'd staging_t" where
  "fill_staging_from_parse parsed out =
     (case run_assignments (staging_assignments parsed) out of
        Inl (cxxopts_exception what) \<Rightarrow> Inl (bench_parse_error (''benchmark: '' @ what))
      | result \<Rightarrow> result)"

section \<open>Presets and overrides\<close>

definition merge_field :: "(('a \<Rightarrow> 'a) \<Rightarrow> 'r \<Rightarrow> 'r) \<Rightarrow> 'a option \<Rightarrow> 'r \<Rightarrow> 'r" where
  "merge_field slot x base = (case x of None \<Rightarrow> base | Some v \<Rightarrow> slot (\<lambda>_. v) base)"

definition merge_staged_overrides ::
    "'d market_profile_t \<Rightarrow> 'd market_profile_overrides_t \<Rightarrow> 'd market_profile_t" where
  "merge_staged_overrides base ov =
     (let
      base = merge_field num_orders_update (o_orders ov) base;
      base = merge_field profile_seed_update (o_seed ov) base;
      base = merge_field cancel_ratio_update (o_cancel_ratio ov) base;
      base = merge_field aggressive_ratio_update (o_aggressive_ratio ov) base;
      base = merge_field buy_bias_update (o_buy_bias ov) base;
      base = merge_field mu_update (o_mu ov) base;
      base = merge_field sigma_update (o_sigma ov) base;
      base = merge_field initial_mid_update (o_initial_mid ov) base;
      base = merge_field tick_size_update (o_tick_size ov) base;
      base = merge_field place_decay_update (o_place_decay ov) base;
      base = merge_field qty_log_mean_update (o_qty_log_mean ov) base;
      base = merge_field qty_log_stddev_update (o_qty_log_stddev ov) base;
      base = merge_field qty_min_update (o_qty_min ov) base;
      base = merge_field qty_max_update (o_qty_max ov) base
      in base)"

definition resolve_presets :: "(rat \<Rightarrow> 'd) \<Rightarrow> string \<Rightarrow> bench_exception + 'd market_profile_t list" where
  "resolve_presets lit pick =
     (if pick = ''all'' then Inr (all_presets lit)
      else (case find (\<lambda>p. profile_name p = pick) (all_presets lit) of
              Some p \<Rightarrow> Inr [p]
            | None \<Rightarrow> Inl (bench_parse_error (''benchmark: unknown --profile '' @ quoted pick @
                         ''. Valid: quiet | active | cancel | volatile | sweep | all''))))"

section \<open>Help\<close>

definition flag_docs :: "(string \<times> string) list" where
  "flag_docs =
     [(''--profile <name>'', ''quiet | active | cancel | volatile | sweep | all (default: all)''),
      (''--orders <N>'', ''override num_orders for the run (default: preset value)''),
      (''--warmup <N>'', ''warmup events before timing (default: 10000)''),
      (''--iterations <N>'', ''number of timed runs to aggregate (default: 5)''),
      (''--seed <N>'', ''RNG seed (default: 42)''),
      (''--latency-stats {on|off}'', ''enable per-event latency sampling (default: on)''),
      (''--producer-cpu <N>'', ''pin the producer agent to CPU N (omit to leave unpinned)''),
      (''--matcher-cpu <N>'', ''pin the matcher agent to CPU N (omit to leave unpinned)''),
      (''--stats-cpu <N>'', ''pin the stats agent to CPU N (omit to leave unpinned)''),
      (''--cancel-ratio <F>'', ''override live-book cancel probability P(Cancel | live set non-empty)''),
      (''--aggressive-ratio <F>'', ''override P(Add crosses opposite touch)''),
      (''--buy-bias <F>'', ''override P(side = Buy)''),
      (''--mu <F>'', ''override mid log-drift per step''),
      (''--sigma <F>'', ''override mid log-volatility per step''),
      (''--initial-mid <N>'', ''override starting mid in ticks''),
      (''--tick-size <N>'', ''override tick size in price units''),
      (''--place-decay <F>'', ''override exponential decay for distance-from-touch on passive adds''),
      (''--qty-log-mean <F>'', ''override log-normal underlying mean for quantity''),
      (''--qty-log-stddev <F>'', ''override log-normal underlying stddev for quantity''),
      (''--qty-min/--qty-max <N>'', ''override clamp bounds for quantity'')]"

text \<open>The format \<^verbatim>\<open>{:<28}\<close>: filled with blanks on the right up to 28 characters.\<close>

definition pad_right :: "nat \<Rightarrow> string \<Rightarrow> string" where
  "pad_right n s = s @ replicate (n - length s) (CHR '' '')"

definition bench_write_help :: "string \<Rightarrow> string" where
  "bench_write_help program_name =
     println (''Usage: '' @ program_name @ '' [flags]'') @ println [] @
     println ''Runs the matching engine through one or all five synthetic-market presets.'' @ println [] @
     println ''Flags:'' @
     concat (map (\<lambda>(flag, help). println (''  '' @ pad_right 28 flag @ '' '' @ help)) flag_docs) @
     println ''  --help, -h                   print this message and exit''"

section \<open>The whole configuration\<close>

definition program_name :: "string list \<Rightarrow> string" where
  "program_name argv = (case argv of [] \<Rightarrow> ''benchmark'' | prog # _ \<Rightarrow> prog)"

definition parse_benchmark_config ::
    "(rat \<Rightarrow> 'd) \<Rightarrow> (string list \<Rightarrow> string + 'd options_result_t) \<Rightarrow> string list \<Rightarrow>
     bench_exception + 'd bench_config_t" where
  "parse_benchmark_config lit parse_options argv =
     (case parse_options argv of
        Inl what \<Rightarrow> Inl (bench_parse_error (''benchmark: '' @ what))
      | Inr parsed \<Rightarrow>
          if opt_count parsed ''help'' \<noteq> 0 then Inl (bench_help_requested (bench_write_help (program_name argv)))
          else (case fill_staging_from_parse parsed staging_init of
                  Inl e \<Rightarrow> Inl e
                | Inr staging \<Rightarrow>
                    (case resolve_presets lit (profile_selection staging) of
                       Inl e \<Rightarrow> Inl e
                     | Inr bases \<Rightarrow>
                         Inr \<lparr>config_benchmark = staging_benchmark staging,
                              config_profiles = map (\<lambda>base. merge_staged_overrides base (profile_overrides staging)) bases\<rparr>)))"

section \<open>Reference\<close>

text \<open>
  What the command line says: \<open>given\<close> is the value of an option that is present, \<open>readable\<close> that
  the option is absent or has a value of the expected type.
\<close>

definition given :: "('d opt_value \<Rightarrow> 'a option) \<Rightarrow> 'd options_result_t \<Rightarrow> string \<Rightarrow> 'a option" where
  "given get parsed flag =
     (if opt_count parsed flag = 0 then None
      else (case opt_value_of parsed flag of Inl _ \<Rightarrow> None | Inr v \<Rightarrow> get v))"

definition or_default :: "'a \<Rightarrow> 'a option \<Rightarrow> 'a" where
  "or_default d x = (case x of None \<Rightarrow> d | Some v \<Rightarrow> v)"

definition well_typed :: "'d options_result_t \<Rightarrow> string \<times> opt_type \<Rightarrow> bool" where
  "well_typed parsed decl =
     (case decl of (flag, ty) \<Rightarrow>
        opt_count parsed flag = 0 \<or>
        (case opt_value_of parsed flag of Inl _ \<Rightarrow> True | Inr v \<Rightarrow> opt_type_of v = ty))"

definition readable :: "'d options_result_t \<Rightarrow> string \<times> opt_type \<Rightarrow> bool" where
  "readable parsed decl =
     (case decl of (flag, ty) \<Rightarrow>
        opt_count parsed flag = 0 \<or>
        (case opt_value_of parsed flag of Inl _ \<Rightarrow> False | Inr v \<Rightarrow> opt_type_of v = ty))"

definition latency_tokens :: "string list" where
  "latency_tokens = [''on'', ''true'', ''1'', ''off'', ''false'', ''0'']"

definition bench_accepts :: "'d options_result_t \<Rightarrow> bool" where
  "bench_accepts parsed \<longleftrightarrow>
     opt_count parsed ''help'' = 0 \<and> list_all (readable parsed) (tl build_options) \<and>
     list_all (\<lambda>flag. 0 \<le> or_default 0 (given get_int parsed flag)) [''producer-cpu'', ''matcher-cpu'', ''stats-cpu''] \<and>
     or_default ''on'' (given get_string parsed ''latency-stats'') \<in> set latency_tokens \<and>
     or_default ''all'' (given get_string parsed ''profile'') \<in>
       {''all'', ''quiet'', ''active'', ''cancel'', ''volatile'', ''sweep''}"

definition bench_settings :: "'d options_result_t \<Rightarrow> benchmark_config_t" where
  "bench_settings parsed =
     \<lparr>warmup_events = or_default 10000 (given get_size parsed ''warmup''),
      iterations = or_default 5 (given get_size parsed ''iterations''),
      collect_latency = (or_default ''on'' (given get_string parsed ''latency-stats'') \<in> {''on'', ''true'', ''1''}),
      producer_cpu = given get_int parsed ''producer-cpu'', bench_matcher_cpu = given get_int parsed ''matcher-cpu'',
      stats_cpu = given get_int parsed ''stats-cpu''\<rparr>"

definition bench_profile :: "'d options_result_t \<Rightarrow> 'd market_profile_t \<Rightarrow> 'd market_profile_t" where
  "bench_profile parsed base =
     base\<lparr>num_orders := or_default (num_orders base) (given get_size parsed ''orders''),
        profile_seed := or_default (profile_seed base) (given get_uint64 parsed ''seed''),
        cancel_ratio := or_default (cancel_ratio base) (given get_double parsed ''cancel-ratio''),
        aggressive_ratio := or_default (aggressive_ratio base) (given get_double parsed ''aggressive-ratio''),
        buy_bias := or_default (buy_bias base) (given get_double parsed ''buy-bias''),
        mu := or_default (mu base) (given get_double parsed ''mu''),
        sigma := or_default (sigma base) (given get_double parsed ''sigma''),
        initial_mid := or_default (initial_mid base) (given get_int32 parsed ''initial-mid''),
        tick_size := or_default (tick_size base) (given get_int32 parsed ''tick-size''),
        place_decay := or_default (place_decay base) (given get_double parsed ''place-decay''),
        qty_log_mean := or_default (qty_log_mean base) (given get_double parsed ''qty-log-mean''),
        qty_log_stddev := or_default (qty_log_stddev base) (given get_double parsed ''qty-log-stddev''),
        qty_min := or_default (qty_min base) (given get_int32 parsed ''qty-min''),
        qty_max := or_default (qty_max base) (given get_int32 parsed ''qty-max'')\<rparr>"

definition bench_reference :: "(rat \<Rightarrow> 'd) \<Rightarrow> 'd options_result_t \<Rightarrow> 'd bench_config_t" where
  "bench_reference lit parsed =
     (let pick = or_default ''all'' (given get_string parsed ''profile'')
      in \<lparr>config_benchmark = bench_settings parsed,
          config_profiles = map (bench_profile parsed)
            (filter (\<lambda>p. pick \<in> {''all'', profile_name p}) (all_presets lit))\<rparr>)"

section \<open>Typed access\<close>

lemma get_type:
  "opt_type_of v = T_string \<longleftrightarrow> get_string v \<noteq> None" "opt_type_of v = T_size \<longleftrightarrow> get_size v \<noteq> None"
  "opt_type_of v = T_uint64 \<longleftrightarrow> get_uint64 v \<noteq> None" "opt_type_of v = T_int \<longleftrightarrow> get_int v \<noteq> None"
  "opt_type_of v = T_int32 \<longleftrightarrow> get_int32 v \<noteq> None" "opt_type_of v = T_double \<longleftrightarrow> get_double v \<noteq> None"
  by (cases v; simp)+

lemma fits:
  "\<forall>v. opt_type_of v = T_string \<longrightarrow> get_string v \<noteq> None" "\<forall>v. opt_type_of v = T_size \<longrightarrow> get_size v \<noteq> None"
  "\<forall>v. opt_type_of v = T_uint64 \<longrightarrow> get_uint64 v \<noteq> None" "\<forall>v. opt_type_of v = T_int \<longrightarrow> get_int v \<noteq> None"
  "\<forall>v. opt_type_of v = T_int32 \<longrightarrow> get_int32 v \<noteq> None" "\<forall>v. opt_type_of v = T_double \<longrightarrow> get_double v \<noteq> None"
  by (simp_all only: get_type simp_thms)

text \<open>
  The exceptions that end in one line on the standard error. A projection that fits the declared type
  never fails, so these are all that the assignments throw.
\<close>

fun reported :: "bench_exception \<Rightarrow> bool" where
  "reported (cxxopts_exception _) = True"
| "reported (bench_parse_error message) = (take 11 message = ''benchmark: '')"
| "reported _ = False"

lemma option_as_typed:
  assumes "well_typed parsed (flag, ty)" "opt_count parsed flag \<noteq> 0" "\<forall>v. opt_type_of v = ty \<longrightarrow> get v \<noteq> None"
    and "option_as get parsed flag = Inl e"
  shows "\<exists>what. e = cxxopts_exception what"
proof (cases "opt_value_of parsed flag")
  case (Inr v)
  with assms(1,2) have "get v \<noteq> None" by (intro assms(3) [rule_format]) (simp add: well_typed_def)
  with Inr assms(4) show ?thesis by (auto simp: option_as_def)
qed (use assms(4) in \<open>auto simp: option_as_def\<close>)

lemma assign_typed:
  assumes "well_typed parsed (flag, ty)" "\<forall>v. opt_type_of v = ty \<longrightarrow> get v \<noteq> None"
  shows "assign_if_present get parsed flag slot r = Inl e \<longrightarrow> reported e"
    and "assign_optional_field get parsed flag slot2 r = Inl e \<longrightarrow> reported e"
  using option_as_typed [OF assms(1) _ assms(2)]
  by (fastforce simp: assign_if_present_def assign_optional_field_def split: sum.splits if_splits)+

lemma assign_cpu_typed:
  assumes "well_typed parsed (flag, T_int)"
  shows "assign_cpu parsed flag slot r = Inl e \<longrightarrow> reported e"
  using option_as_typed [OF assms _ fits(4)]
  by (fastforce simp: assign_cpu_def split: sum.splits if_splits)

lemma assign_latency_typed:
  assumes "well_typed parsed (''latency-stats'', T_string)"
  shows "assign_latency parsed slot r = Inl e \<longrightarrow> reported e"
  using option_as_typed [OF assms _ fits(1)]
  by (fastforce simp: assign_latency_def split: sum.splits if_splits)

lemma run_assignments_typed:
  assumes "list_all (\<lambda>f. \<forall>r e. f r = Inl e \<longrightarrow> reported e) fs" "run_assignments fs r = Inl e"
  shows "reported e"
  using assms by (induction fs arbitrary: r) (auto split: sum.splits)

lemma staging_typed:
  assumes "list_all (well_typed parsed) build_options"
  shows "list_all (\<lambda>f. \<forall>r e. f r = Inl e \<longrightarrow> reported e) (staging_assignments parsed)"
proof -
  note typed = assms [unfolded build_options_def list.pred_inject]
  show ?thesis unfolding staging_assignments_def list.pred_inject
    by (intro conjI allI list.pred_inject(1) assign_typed assign_cpu_typed assign_latency_typed;
        (use typed in blast | rule fits [THEN spec]))
qed

section \<open>Accepted command lines\<close>

abbreviation reads :: "('d opt_value \<Rightarrow> 'a option) \<Rightarrow> 'd options_result_t \<Rightarrow> string \<Rightarrow> bool" where
  "reads get parsed flag \<equiv> opt_count parsed flag = 0 \<or> given get parsed flag \<noteq> None"

lemma readable_reads:
  "readable parsed (flag, T_string) \<longleftrightarrow> reads get_string parsed flag"
  "readable parsed (flag, T_size) \<longleftrightarrow> reads get_size parsed flag"
  "readable parsed (flag, T_uint64) \<longleftrightarrow> reads get_uint64 parsed flag"
  "readable parsed (flag, T_int) \<longleftrightarrow> reads get_int parsed flag"
  "readable parsed (flag, T_int32) \<longleftrightarrow> reads get_int32 parsed flag"
  "readable parsed (flag, T_double) \<longleftrightarrow> reads get_double parsed flag"
  by (auto simp: readable_def given_def get_type split: sum.splits)

lemma option_as_Some: "given get parsed flag = Some v \<Longrightarrow> option_as get parsed flag = Inr v"
  by (auto simp: option_as_def given_def split: sum.splits if_splits)

lemma option_as_None:
  assumes "opt_count parsed flag \<noteq> 0" "given get parsed flag = None"
  obtains e where "option_as get parsed flag = Inl e"
  using assms by (auto simp: option_as_def given_def split: sum.splits)

lemma given_absent [simp]: "opt_count parsed flag = 0 \<Longrightarrow> given get parsed flag = None"
  by (simp add: given_def)

lemma or_default_simps [simp]: "or_default d None = d" "or_default d (Some v) = v"
  by (simp_all add: or_default_def)

text \<open>
  When an assignment succeeds it reads its option and updates its member to the value given, or
  leaves the old one. The premise says that \<open>slot\<close> is the update function of a member.
\<close>

lemma assign_if_present_Inr:
  assumes "\<And>r. slot (\<lambda>x. x) r = r"
  shows "assign_if_present get parsed flag slot r = Inr r' \<longleftrightarrow>
    reads get parsed flag \<and> r' = slot (\<lambda>old. or_default old (given get parsed flag)) r"
proof (cases "opt_count parsed flag = 0")
  case False
  show ?thesis
  proof (cases "given get parsed flag")
    case None
    with False obtain e where "option_as get parsed flag = Inl e" by (rule option_as_None)
    with False None show ?thesis by (simp add: assign_if_present_def)
  next
    case (Some v)
    with False option_as_Some [OF Some] show ?thesis by (auto simp: assign_if_present_def)
  qed
qed (auto simp: assign_if_present_def assms)

lemma assign_optional_field_Inr:
  assumes "\<And>r. slot (\<lambda>x. x) r = r"
  shows "assign_optional_field get parsed flag slot r = Inr r' \<longleftrightarrow>
    reads get parsed flag \<and>
    r' = slot (\<lambda>old. or_default old (map_option Some (given get parsed flag))) r"
proof (cases "opt_count parsed flag = 0")
  case False
  show ?thesis
  proof (cases "given get parsed flag")
    case None
    with False obtain e where "option_as get parsed flag = Inl e" by (rule option_as_None)
    with False None show ?thesis by (simp add: assign_optional_field_def)
  next
    case (Some v)
    with False option_as_Some [OF Some] show ?thesis by (auto simp: assign_optional_field_def)
  qed
qed (auto simp: assign_optional_field_def assms)

lemma assign_cpu_Inr:
  assumes "\<And>r. slot (\<lambda>x. x) r = r"
  shows "assign_cpu parsed flag slot r = Inr r' \<longleftrightarrow>
    reads get_int parsed flag \<and> 0 \<le> or_default 0 (given get_int parsed flag) \<and>
    r' = slot (\<lambda>old. or_default old (map_option Some (given get_int parsed flag))) r"
proof (cases "opt_count parsed flag = 0")
  case False
  show ?thesis
  proof (cases "given get_int parsed flag")
    case None
    with False obtain e where "option_as get_int parsed flag = Inl e" by (rule option_as_None)
    with False None show ?thesis by (simp add: assign_cpu_def split: bench_exception.split)
  next
    case (Some v)
    with False option_as_Some [OF Some] show ?thesis by (auto simp: assign_cpu_def)
  qed
qed (auto simp: assign_cpu_def assms)

lemma assign_latency_Inr:
  assumes "\<And>r. slot (\<lambda>x. x) r = r"
  shows "assign_latency parsed slot r = Inr r' \<longleftrightarrow>
    reads get_string parsed ''latency-stats'' \<and>
    or_default ''on'' (given get_string parsed ''latency-stats'') \<in> set latency_tokens \<and>
    r' = slot (\<lambda>old. or_default old
      (map_option (\<lambda>v. v \<in> {''on'', ''true'', ''1''}) (given get_string parsed ''latency-stats''))) r"
proof (cases "opt_count parsed ''latency-stats'' = 0")
  case False
  show ?thesis
  proof (cases "given get_string parsed ''latency-stats''")
    case None
    with False obtain e where "option_as get_string parsed ''latency-stats'' = Inl e" by (rule option_as_None)
    with False None show ?thesis by (simp add: assign_latency_def latency_tokens_def)
  next
    case (Some v)
    with False option_as_Some [OF Some] show ?thesis by (auto simp: assign_latency_def latency_tokens_def)
  qed
qed (auto simp: assign_latency_def assms latency_tokens_def)

lemma run_assignments_Cons:
  "run_assignments (f # fs) r = Inr r' \<longleftrightarrow> (\<exists>r1. f r = Inr r1 \<and> run_assignments fs r1 = Inr r')"
  by (simp split: sum.split)

lemma run_assignments_Nil: "run_assignments [] r = Inr r' \<longleftrightarrow> r' = r"
  by auto

lemmas assignment_Inr = assign_if_present_Inr assign_optional_field_Inr assign_cpu_Inr assign_latency_Inr

definition staging_reference :: "'d options_result_t \<Rightarrow> 'd staging_t" where
  "staging_reference parsed =
     \<lparr>profile_selection = or_default ''all'' (given get_string parsed ''profile''),
      staging_benchmark = bench_settings parsed,
      profile_overrides =
       \<lparr>o_orders = given get_size parsed ''orders'',
        o_seed = given get_uint64 parsed ''seed'',
        o_cancel_ratio = given get_double parsed ''cancel-ratio'',
        o_aggressive_ratio = given get_double parsed ''aggressive-ratio'',
        o_buy_bias = given get_double parsed ''buy-bias'',
        o_mu = given get_double parsed ''mu'',
        o_sigma = given get_double parsed ''sigma'',
        o_initial_mid = given get_int32 parsed ''initial-mid'',
        o_tick_size = given get_int32 parsed ''tick-size'',
        o_place_decay = given get_double parsed ''place-decay'',
        o_qty_log_mean = given get_double parsed ''qty-log-mean'',
        o_qty_log_stddev = given get_double parsed ''qty-log-stddev'',
        o_qty_min = given get_int32 parsed ''qty-min'',
        o_qty_max = given get_int32 parsed ''qty-max''\<rparr>\<rparr>"

lemma or_default_None [simp]: "or_default None (map_option Some x) = x"
  by (cases x) simp_all

lemma or_default_latency:
  "or_default True (map_option (\<lambda>v. v = ''on'' \<or> v = ''true'' \<or> v = ''1'') x) \<longleftrightarrow>
     or_default ''on'' x = ''on'' \<or> or_default ''on'' x = ''true'' \<or> or_default ''on'' x = ''1''"
  by (cases x) simp_all

lemma list_all_Nil: "list_all P [] \<longleftrightarrow> True"
  by simp

lemma benchmark_slots:
  "warmup_events_update (\<lambda>x. x) = (\<lambda>r. r)" "iterations_update (\<lambda>x. x) = (\<lambda>r. r)"
  "collect_latency_update (\<lambda>x. x) = (\<lambda>r. r)" "producer_cpu_update (\<lambda>x. x) = (\<lambda>r. r)"
  "bench_matcher_cpu_update (\<lambda>x. x) = (\<lambda>r. r)" "stats_cpu_update (\<lambda>x. x) = (\<lambda>r. r)"
  by (rule ext; rule benchmark_config_t.equality; simp)+

lemma override_slots:
  "o_orders_update (\<lambda>x. x) = (\<lambda>r. r)"
  "o_seed_update (\<lambda>x. x) = (\<lambda>r. r)"
  "o_cancel_ratio_update (\<lambda>x. x) = (\<lambda>r. r)"
  "o_aggressive_ratio_update (\<lambda>x. x) = (\<lambda>r. r)"
  "o_buy_bias_update (\<lambda>x. x) = (\<lambda>r. r)"
  "o_mu_update (\<lambda>x. x) = (\<lambda>r. r)"
  "o_sigma_update (\<lambda>x. x) = (\<lambda>r. r)"
  "o_initial_mid_update (\<lambda>x. x) = (\<lambda>r. r)"
  "o_tick_size_update (\<lambda>x. x) = (\<lambda>r. r)"
  "o_place_decay_update (\<lambda>x. x) = (\<lambda>r. r)"
  "o_qty_log_mean_update (\<lambda>x. x) = (\<lambda>r. r)"
  "o_qty_log_stddev_update (\<lambda>x. x) = (\<lambda>r. r)"
  "o_qty_min_update (\<lambda>x. x) = (\<lambda>r. r)"
  "o_qty_max_update (\<lambda>x. x) = (\<lambda>r. r)"
  by (rule ext; rule market_profile_overrides_t.equality; simp)+

lemma staging_slots:
  "profile_selection_update (\<lambda>x. x) s = s" "staging_benchmark_update (\<lambda>x. x) s = s"
  "profile_overrides_update (\<lambda>x. x) s = s"
  by (rule staging_t.equality; simp)+

lemmas slots = benchmark_slots override_slots staging_slots

lemma staging_Inr:
  "run_assignments (staging_assignments parsed) staging_init = Inr s \<longleftrightarrow>
     list_all (readable parsed) (tl build_options) \<and>
     list_all (\<lambda>flag. 0 \<le> or_default 0 (given get_int parsed flag)) [''producer-cpu'', ''matcher-cpu'', ''stats-cpu''] \<and>
     or_default ''on'' (given get_string parsed ''latency-stats'') \<in> set latency_tokens \<and>
     s = staging_reference parsed"
  unfolding staging_assignments_def run_assignments_Cons run_assignments_Nil
  by (simp add: assignment_Inr slots staging_init_def benchmark_config_init_def staging_reference_def
      bench_settings_def or_default_latency build_options_def readable_reads list_all_Nil conj_ac del: not_None_eq)

text \<open>Merging the staged overrides is the reference update of the preset.\<close>

lemma profile_slots:
  "num_orders_update (\<lambda>x. x) = (\<lambda>r. r)"
  "profile_seed_update (\<lambda>x. x) = (\<lambda>r. r)"
  "cancel_ratio_update (\<lambda>x. x) = (\<lambda>r. r)"
  "aggressive_ratio_update (\<lambda>x. x) = (\<lambda>r. r)"
  "buy_bias_update (\<lambda>x. x) = (\<lambda>r. r)"
  "mu_update (\<lambda>x. x) = (\<lambda>r. r)"
  "sigma_update (\<lambda>x. x) = (\<lambda>r. r)"
  "initial_mid_update (\<lambda>x. x) = (\<lambda>r. r)"
  "tick_size_update (\<lambda>x. x) = (\<lambda>r. r)"
  "place_decay_update (\<lambda>x. x) = (\<lambda>r. r)"
  "qty_log_mean_update (\<lambda>x. x) = (\<lambda>r. r)"
  "qty_log_stddev_update (\<lambda>x. x) = (\<lambda>r. r)"
  "qty_min_update (\<lambda>x. x) = (\<lambda>r. r)"
  "qty_max_update (\<lambda>x. x) = (\<lambda>r. r)"
  by (rule ext; rule market_profile_t.equality; simp)+

lemma merge_field_slot:
  assumes "\<And>r. slot (\<lambda>x. x) r = r"
  shows "merge_field slot x base = slot (\<lambda>old. or_default old x) base"
  by (cases x) (simp_all add: merge_field_def assms)

lemma merge_reference:
  "merge_staged_overrides base (profile_overrides (staging_reference parsed)) = bench_profile parsed base"
  by (rule market_profile_t.equality)
    (simp_all add: merge_staged_overrides_def merge_field_slot profile_slots staging_reference_def
      bench_profile_def Let_def)

lemma resolve_presets_Inr:
  "resolve_presets lit pick = Inr bases \<longleftrightarrow>
     pick \<in> {''all'', ''quiet'', ''active'', ''cancel'', ''volatile'', ''sweep''} \<and>
     bases = filter (\<lambda>p. pick \<in> {''all'', profile_name p}) (all_presets lit)"
  by (cases "pick = ''all''"; cases "pick = ''quiet''"; cases "pick = ''active''"; cases "pick = ''cancel''";
      cases "pick = ''volatile''"; cases "pick = ''sweep''")
    (auto simp: resolve_presets_def all_presets_def preset_defs)

lemma fill_staging_Inr:
  "fill_staging_from_parse parsed out = Inr s \<longleftrightarrow> run_assignments (staging_assignments parsed) out = Inr s"
  by (auto simp: fill_staging_from_parse_def split: sum.splits bench_exception.splits)

text \<open>With well-typed options the only exceptions are a request for help and a reported parse error.\<close>

lemma reported_message: "reported (bench_parse_error message) \<Longrightarrow> \<exists>rest. message = ''benchmark: '' @ rest"
  by (metis append_take_drop_id reported.simps(2))

lemma fill_staging_typed:
  assumes "list_all (well_typed parsed) build_options" "fill_staging_from_parse parsed out = Inl e"
  shows "\<exists>rest. e = bench_parse_error (''benchmark: '' @ rest)"
proof -
  from assms(2) obtain e1 where e1: "run_assignments (staging_assignments parsed) out = Inl e1"
    and e: "e = e1 \<or> (\<exists>what. e1 = cxxopts_exception what) \<and> (\<exists>what. e = bench_parse_error (''benchmark: '' @ what))"
      "\<nexists>what. e = cxxopts_exception what"
    by (auto simp: fill_staging_from_parse_def split: sum.splits bench_exception.splits)
  have "reported e1" by (rule run_assignments_typed [OF staging_typed [OF assms(1)] e1])
  then show ?thesis using e reported_message by (cases e1) auto
qed

lemma resolve_presets_Inl:
  "resolve_presets lit pick = Inl e \<Longrightarrow> \<exists>rest. e = bench_parse_error (''benchmark: '' @ rest)"
  by (auto simp: resolve_presets_def split: if_splits option.splits)

lemma parse_benchmark_Inl:
  assumes "case parse_options argv of Inl _ \<Rightarrow> True | Inr parsed \<Rightarrow> list_all (well_typed parsed) build_options"
    and "parse_benchmark_config lit parse_options argv = Inl e"
  shows "(\<exists>help. e = bench_help_requested help) \<or> (\<exists>rest. e = bench_parse_error (''benchmark: '' @ rest))"
  using assms fill_staging_typed resolve_presets_Inl
  by (fastforce simp: parse_benchmark_config_def split: sum.splits if_splits)

section \<open>The program\<close>

text \<open>
  \<^verbatim>\<open>main\<close> of \<^verbatim>\<open>src/benchmark.cpp\<close>: exit status, standard output and standard error, or the exception that leaves
  \<^verbatim>\<open>main\<close>, one of the configuration or one that the standard library throws while a preset runs. \<open>report\<close> is what the loop over the
  presets does for a configuration, the text it prints or the exception it ends with; which are possible is said in
  the theory \<^verbatim>\<open>Bench_Report\<close>. The two \<^verbatim>\<open>catch\<close> clauses take neither of the exceptions of the library. The dash of the banner is its three
  UTF-8 bytes.
\<close>

datatype library_exception = length_error | bad_alloc

definition cpu_text :: "int option \<Rightarrow> string" where
  "cpu_text cpu = (case cpu of None \<Rightarrow> ''off'' | Some v \<Rightarrow> format_int v)"

definition banner :: "'d bench_config_t \<Rightarrow> string" where
  "banner config =
     (let bench = config_benchmark config
      in println (''matching::benchmark '' @ [CHR 0xE2, CHR 0x80, CHR 0x94] @ '' '' @
           format_int (int (length (config_profiles config))) @ '' preset(s), iterations = '' @
           format_int (uint (iterations bench)) @ '', warmup = '' @ format_int (uint (warmup_events bench)) @
           '', latency = '' @ (if collect_latency bench then ''on'' else ''off'')) @
         println (''  pinning: producer='' @ cpu_text (producer_cpu bench) @ '' matcher='' @
           cpu_text (bench_matcher_cpu bench) @ '' stats='' @ cpu_text (stats_cpu bench)))"

definition benchmark_main ::
    "(rat \<Rightarrow> 'd) \<Rightarrow> (string list \<Rightarrow> string + 'd options_result_t) \<Rightarrow> ('d bench_config_t \<Rightarrow> library_exception + string) \<Rightarrow>
     string list \<Rightarrow> (bench_exception + library_exception) + (int \<times> string \<times> string)" where
  "benchmark_main lit parse_options report argv =
     (case parse_benchmark_config lit parse_options argv of
        Inr config \<Rightarrow>
          (case report config of Inr out \<Rightarrow> Inr (0, banner config @ out, []) | Inl e \<Rightarrow> Inl (Inr e))
      | Inl (bench_help_requested help) \<Rightarrow> Inr (0, help, [])
      | Inl (bench_parse_error message) \<Rightarrow> Inr (1, [], println message)
      | Inl e \<Rightarrow> Inl (Inl e))"

section \<open>Properties of the benchmark configuration\<close>

text \<open>
  C33: the options are read at the types they were declared with. When the option parser gives every option that is present a value of its
  declared type, or an exception of its own, then no access is a failed cast and the two \<^verbatim>\<open>catch\<close> clauses of \<^verbatim>\<open>main\<close> take everything the
  configuration throws: an exception leaves the program exactly when the configuration is accepted and the run of its presets
  ends with that exception, and otherwise the program ends with status 0 or, with nothing but one line on the standard
  error, with status 1.
\<close>

theorem benchmark_options_typed:
  assumes "case parse_options argv of Inl _ \<Rightarrow> True | Inr parsed \<Rightarrow> list_all (well_typed parsed) build_options"
  shows "(benchmark_main lit parse_options report argv = Inl x \<longleftrightarrow>
      (\<exists>config e. parse_benchmark_config lit parse_options argv = Inr config \<and> report config = Inl e \<and> x = Inr e)) \<and>
    (benchmark_main lit parse_options report argv = Inr (status, out, err) \<longrightarrow>
       status = 0 \<and> err = [] \<or> status = 1 \<and> out = [] \<and> (\<exists>message. err = println (''benchmark: '' @ message)))"
proof (cases "parse_benchmark_config lit parse_options argv")
  case (Inl e)
  with parse_benchmark_Inl [OF assms Inl] show ?thesis by (auto simp: benchmark_main_def)
next
  case (Inr config)
  then show ?thesis by (cases "report config") (auto simp: benchmark_main_def)
qed

theorem benchmark_options_typed_witness:
  "\<nexists>x. benchmark_main id (\<lambda>_. Inr \<lparr>opt_count = \<lambda>f. if f = ''orders'' then 1 else 0,
       opt_value_of = \<lambda>_. Inr (Opt_size 500)\<rparr>) (\<lambda>_. Inr []) [''benchmark''] = Inl x"
proof -
  let ?parse = "\<lambda>_ :: string list. Inr \<lparr>opt_count = \<lambda>f. if f = ''orders'' then 1 else 0,
     opt_value_of = \<lambda>_. Inr (Opt_size 500)\<rparr> :: string + rat options_result_t"
  have "case ?parse [''benchmark''] of Inl _ \<Rightarrow> True | Inr parsed \<Rightarrow> list_all (well_typed parsed) build_options"
    by (simp add: build_options_def well_typed_def)
  from benchmark_options_typed [OF this, of id "\<lambda>_. Inr []"] show ?thesis by blast
qed

text \<open>
  C32: the configuration is exactly what the command line says. The benchmark accepts a command line
  if and only if help is not asked for, every option present can be read, the CPUs are not negative,
  the latency token is one of the six and the profile is a preset or all; the result then has each
  given value in its place, the default or the value of the preset in every other, and the chosen
  presets in the order of the table.
\<close>

theorem benchmark_config_reference:
  "parse_benchmark_config lit parse_options argv = Inr config \<longleftrightarrow>
     (\<exists>parsed. parse_options argv = Inr parsed \<and> bench_accepts parsed \<and> config = bench_reference lit parsed)"
proof (cases "parse_options argv")
  case (Inr parsed)
  let ?staging = "staging_reference parsed"
  have sel: "profile_selection ?staging = or_default ''all'' (given get_string parsed ''profile'')"
    and set: "staging_benchmark ?staging = bench_settings parsed"
    by (simp_all add: staging_reference_def)
  have "parse_benchmark_config lit parse_options argv = Inr config \<longleftrightarrow>
     opt_count parsed ''help'' = 0 \<and>
     (\<exists>s bases. fill_staging_from_parse parsed staging_init = Inr s \<and>
        resolve_presets lit (profile_selection s) = Inr bases \<and>
        config = \<lparr>config_benchmark = staging_benchmark s,
          config_profiles = map (\<lambda>base. merge_staged_overrides base (profile_overrides s)) bases\<rparr>)"
    by (auto simp: parse_benchmark_config_def Inr split: sum.splits)
  also have "\<dots> \<longleftrightarrow> bench_accepts parsed \<and> config = bench_reference lit parsed"
    unfolding fill_staging_Inr staging_Inr resolve_presets_Inr bench_accepts_def bench_reference_def Let_def
    by (auto simp: sel set merge_reference)
  finally show ?thesis by (simp add: Inr)
qed (simp add: parse_benchmark_config_def)

end
