(* ===== verification/Bench_Agents.thy ===== *)
theory Bench_Agents
  imports Pipeline Latency_Stats Bench_Timer Benchmark_Config
begin

text \<open>
  The three agents of a benchmark iteration (\<^verbatim>\<open>benchmark.hpp\<close>): the producer pushes the measured events, the
  matcher runs the book on each, counts its trades and sends the time it took, and the statistics
  agent collects the times. They are a second instance of the relay: whatever the interleaving of their atomic accesses, trades
  and samples are those of a sequential run over the same readings of the clock.
\<close>

section \<open>Handlers\<close>

datatype 'd stats_event_t = ping_event 'd | stats_shutdown

text \<open>\<^verbatim>\<open>counting_emitter_t\<close>, one overload per event of the book.\<close>

fun counting_emitter :: "output_event_t \<Rightarrow> 64 word \<Rightarrow> 64 word" where
  "counting_emitter (trade_event _ _ _) trade_count = trade_count + 1"
| "counting_emitter (order_resting_event _ _ _) trade_count = trade_count"
| "counting_emitter (order_filled_event _ _) trade_count = trade_count"
| "counting_emitter (order_cancelled_event _ _ _ _) trade_count = trade_count"
| "counting_emitter (order_rejected_event _ _) trade_count = trade_count"
| "counting_emitter shutdown_out trade_count = trade_count"

text \<open>The book with its counting emitter: every event the book emits goes through the counter.\<close>

definition counting_book :: "input_event_t \<Rightarrow> clob_t \<Rightarrow> 64 word \<Rightarrow> (clob_t \<times> 64 word) option" where
  "counting_book event book trade_count =
     map_option (\<lambda>book'. (book', fold counting_emitter (emitter book') trade_count))
       (clob_step (book\<lparr>emitter := []\<rparr>) event)"

record 'd bench_matcher_t =
  bm_book :: clob_t
  bm_trades :: "64 word"
  bm_timer :: "'d bench_timer_t"

definition bench_matcher_handler ::
    "'d double_ops \<Rightarrow> clock_env \<Rightarrow> bool \<Rightarrow> input_event_t \<Rightarrow> 'd bench_matcher_t \<Rightarrow>
     (bool \<times> 'd bench_matcher_t \<times> 'd stats_event_t list) option" where
  "bench_matcher_handler F E collect event m =
     (if event = shutdown_in then Some (True, m, [stats_shutdown])
      else if collect
      then Option.bind (bench_mark F E (bm_timer m)) (\<lambda>(mark, t1).
           Option.bind (counting_book event (bm_book m) (bm_trades m)) (\<lambda>(book, trades).
           map_option (\<lambda>(ns, t2). (False, \<lparr>bm_book = book, bm_trades = trades, bm_timer = t2\<rparr>, [ping_event ns]))
             (bench_elapsed_ns F E mark t1)))
      else map_option (\<lambda>(book, trades). (False, m\<lparr>bm_book := book, bm_trades := trades\<rparr>, []))
             (counting_book event (bm_book m) (bm_trades m)))"

text \<open>The accumulator is \<open>None\<close> once a precondition of it has been violated.\<close>

definition stats_handler ::
    "'d double_ops \<Rightarrow> ('d, 'g) random_ops \<Rightarrow> 'd stats_event_t \<Rightarrow> ('d, 'g) latency_accumulator_t option \<Rightarrow>
     bool \<times> ('d, 'g) latency_accumulator_t option" where
  "stats_handler F R event acc =
     (case event of
        stats_shutdown \<Rightarrow> (True, acc)
      | ping_event latency_ns \<Rightarrow> (False, Option.bind acc (acc_add F R latency_ns)))"

section \<open>The agents\<close>

type_synonym ('d, 'g) bench_t =
  "(input_event_t, 'd bench_matcher_t, 'd stats_event_t, ('d, 'g) latency_accumulator_t option) access_t"

text \<open>\<^verbatim>\<open>producer_loop_t::run\<close>: the events from \<open>begin_at\<close> on, then the sentinel; after a push it looks at the stop token.\<close>

definition producer_events :: "input_event_t list \<Rightarrow> 64 word \<Rightarrow> input_event_t list" where
  "producer_events events begin_at = drop (unat begin_at) events @ [shutdown_in]"

definition producer_turn :: "64 word \<Rightarrow> ('d, 'g) bench_t \<Rightarrow> ('d, 'g) bench_t" where
  "producer_turn capacity s =
     (let s' = source_access capacity s in if reader_stop s then s'\<lparr>reader_todo := []\<rparr> else s')"

definition bench_init ::
    "'d double_ops \<Rightarrow> 64 word \<Rightarrow> input_event_t list \<Rightarrow> 64 word \<Rightarrow> clob_t \<Rightarrow> 'd bench_timer_t \<Rightarrow>
     ('d, 'g) latency_accumulator_t \<Rightarrow> ('d, 'g) bench_t" where
  "bench_init F capacity events begin_at book t acc =
     relay_init (spsc_system_init capacity input_event_init) (spsc_system_init capacity (ping_event (fp_lit F 0)))
       (producer_events events begin_at) \<lparr>bm_book = book, bm_trades = 0, bm_timer = t\<rparr> (Some acc)"

text \<open>Nothing requests a stop: the stop source is local to an iteration.\<close>

inductive bench_step ::
    "'d double_ops \<Rightarrow> ('d, 'g) random_ops \<Rightarrow> clock_env \<Rightarrow> bool \<Rightarrow> 64 word \<Rightarrow> ('d, 'g) bench_t \<Rightarrow> ('d, 'g) bench_t \<Rightarrow> bool"
  for F R E collect capacity where
  producer_step: "bench_step F R E collect capacity s (producer_turn capacity s)"
| bench_matcher_step:
    "stage_access (bench_matcher_handler F E collect) capacity s = Some s' \<Longrightarrow> bench_step F R E collect capacity s s'"
| stats_step: "bench_step F R E collect capacity s (sink_access (stats_handler F R) capacity s)"
| bench_observe:
    "a \<notin> {Source_access, Stage_access, Sink_access} \<Longrightarrow>
     access_act (bench_matcher_handler F E collect) (stats_handler F R) capacity a s = Some s' \<Longrightarrow> bench_step F R E collect capacity s s'"

section \<open>What the agents have done\<close>

lemma counting_emitter_trades: "fold counting_emitter evs n = n + of_nat (length (trades_of evs))"
  by (induction evs arbitrary: n rule: trades_of.induct) (simp_all add: algebra_simps)

lemma counting_book_event:
  assumes "book_rep c b" "input_event_int64 e"
  shows "\<exists>c'. counting_book e c n = Some (c', n + of_nat (length (trades_of (fst (spec_step b e))))) \<and>
    book_rep c' (snd (spec_step b e))"
proof -
  have "book_rep (c\<lparr>emitter := []\<rparr>) b" using assms(1) by simp
  from clob_step_refines [OF this assms(2)] show ?thesis
    by (auto simp: step_refines_def counting_book_def counting_emitter_trades)
qed

text \<open>The i-th time the matcher sends: two readings of the counter per event.\<close>

definition ping_ns :: "'d double_ops \<Rightarrow> clock_env \<Rightarrow> 'd bench_timer_t \<Rightarrow> nat \<Rightarrow> 'd" where
  "ping_ns F E t i =
     fp_mul F (fp_of_int F (uint (tsc_at E (tsc_reads t + 2 * i + 1) - tsc_at E (tsc_reads t + 2 * i)))) (ns_per_cycle t)"

definition plain_events :: "input_event_t list \<Rightarrow> input_event_t list" where
  "plain_events es = filter (\<lambda>e. e \<noteq> shutdown_in) es"

definition bench_output ::
    "'d double_ops \<Rightarrow> clock_env \<Rightarrow> bool \<Rightarrow> 'd bench_timer_t \<Rightarrow> input_event_t list \<Rightarrow> 'd stats_event_t list" where
  "bench_output F E collect t taken =
     (if collect then map (\<lambda>i. ping_event (ping_ns F E t i)) [0..<length (plain_events taken)] else []) @
     (if shutdown_in \<in> set taken then [stats_shutdown] else [])"

definition bench_rep ::
    "bool \<Rightarrow> book \<Rightarrow> 'd bench_timer_t \<Rightarrow> 'd bench_matcher_t \<Rightarrow> input_event_t list \<Rightarrow> bool" where
  "bench_rep collect b t m taken \<longleftrightarrow>
     book_rep (bm_book m) (snd (spec_run b taken)) \<and> calibrated t \<and>
     bm_trades m = of_nat (length (trades_of (fst (spec_run b taken)))) \<and>
     bm_timer m = (if collect then t\<lparr>tsc_reads := tsc_reads t + 2 * length (plain_events taken)\<rparr> else t)"

fun pings :: "'d stats_event_t list \<Rightarrow> 'd list" where
  "pings [] = []"
| "pings (ping_event x # evs) = x # pings evs"
| "pings (stats_shutdown # evs) = pings evs"

lemma pings_append [simp]: "pings (evs @ evs') = pings evs @ pings evs'"
  by (induction evs rule: pings.induct) simp_all

lemma pings_map [simp]: "pings (map (\<lambda>i. ping_event (f i)) is') = map f is'"
  by (induction is') simp_all

lemma bench_handler_event:
  assumes "bench_rep collect b t m taken" "input_event_int64 e" "e \<noteq> shutdown_in"
  shows "\<exists>m'. bench_matcher_handler F E collect e m =
      Some (False, m', if collect then [ping_event (ping_ns F E t (length (plain_events taken)))] else []) \<and>
    bench_rep collect b t m' (taken @ [e])"
proof -
  let ?b = "snd (spec_run b taken)" and ?n = "length (plain_events taken)"
  have r: "book_rep (bm_book m) ?b" "calibrated t"
    "bm_trades m = of_nat (length (trades_of (fst (spec_run b taken))))"
    "bm_timer m = (if collect then t\<lparr>tsc_reads := tsc_reads t + 2 * ?n\<rparr> else t)"
    using assms(1) by (simp_all add: bench_rep_def)
  from counting_book_event [OF r(1) assms(2), of "bm_trades m"] obtain c' where
    c': "counting_book e (bm_book m) (bm_trades m) =
        Some (c', bm_trades m + of_nat (length (trades_of (fst (spec_step ?b e)))))" "book_rep c' (snd (spec_step ?b e))" by blast
  have p: "length (plain_events (taken @ [e])) = Suc ?n" using assms(3) by (simp add: plain_events_def)
  have k: "calibrated (bm_timer m)" using r(2,4) by simp
  show ?thesis using assms(3) c' r p k
    by (auto simp: bench_matcher_handler_def bench_mark_def bench_elapsed_ns_def bench_elapsed_cycles_def
        init_once_def tsc_read_serialized_def rdtsc_def ping_ns_def bench_rep_def spec_run_snoc)
qed

interpretation bench: relay "bench_matcher_handler F E collect" "stats_handler F R" shutdown_in stats_shutdown
  input_event_int64 "bench_rep collect b t" "bench_output F E collect t" "\<lambda>evs. acc_add_all F R (pings evs) acc"
  for F E collect R b t acc
proof unfold_locales
  show "bench_output F E collect t [] = []" by (simp add: bench_output_def plain_events_def)
next
  fix m taken e
  assume a: "bench_rep collect b t m taken" "list_all input_event_int64 taken" "shutdown_in \<notin> set taken"
    "input_event_int64 e \<or> e = shutdown_in"
  show "\<exists>m' evs. bench_matcher_handler F E collect e m = Some (e = shutdown_in, m', evs) \<and>
    bench_rep collect b t m' (taken @ [e]) \<and> bench_output F E collect t (taken @ [e]) = bench_output F E collect t taken @ evs"
  proof (cases "e = shutdown_in")
    case True
    with a show ?thesis by (simp add: bench_matcher_handler_def bench_rep_def bench_output_def spec_run_snoc plain_events_def)
  next
    case False
    with a(4) bench_handler_event [OF a(1), of e F E] a(3) show ?thesis
      by (auto simp: bench_output_def plain_events_def)
  qed
next
  fix taken :: "input_event_t list"
  assume "shutdown_in \<notin> set taken"
  then show "stats_shutdown \<notin> set (bench_output F E collect t taken)"
    "bench_output F E collect t (taken @ [shutdown_in]) = bench_output F E collect t taken @ [stats_shutdown]"
    by (auto simp: bench_output_def plain_events_def)
next
  show "stats_handler F R ev (acc_add_all F R (pings evs) acc) =
    (ev = stats_shutdown, acc_add_all F R (pings (evs @ [ev])) acc)" for ev evs
    by (cases ev) (auto simp: stats_handler_def acc_add_all_append cong: Option.bind_cong split: Option.bind_split)
qed

section \<open>Every schedule\<close>

abbreviation bench_move ::
    "'d double_ops \<Rightarrow> ('d, 'g) random_ops \<Rightarrow> clock_env \<Rightarrow> bool \<Rightarrow> 64 word \<Rightarrow> ('d, 'g) bench_t \<Rightarrow> ('d, 'g) bench_t \<Rightarrow> bool" where
  "bench_move F R E collect capacity \<equiv> access_move (bench_matcher_handler F E collect) (stats_handler F R) capacity"

lemma bench_step_move:
  assumes "undisturbed s"
  shows "bench_step F R E collect capacity s s' \<longleftrightarrow> bench_move F R E collect capacity s s'"
proof
  have p: "producer_turn capacity s = source_access capacity s" using assms by (simp add: producer_turn_def undisturbed_def)
  note act = access_moveI [where handler = "bench_matcher_handler F E collect" and consume = "stats_handler F R" and capacity = capacity and f = s]
  show "bench_move F R E collect capacity s s'" if "bench_step F R E collect capacity s s'"
    using that act [of Source_access] act [of Stage_access] act [of Sink_access] act by cases (auto simp: p)
  assume "bench_move F R E collect capacity s s'"
  then obtain a where a: "access_act (bench_matcher_handler F E collect) (stats_handler F R) capacity a s = Some s'"
    by (auto simp: access_move_def)
  show "bench_step F R E collect capacity s s'"
  proof (cases "a \<in> {Source_access, Stage_access, Sink_access}")
    case True
    with a p producer_step [of F R E collect capacity s] stats_step [of F R E collect capacity s] bench_matcher_step [of F E collect capacity s s' R]
    show ?thesis by auto
  qed (use a bench_observe in blast)
qed

lemma bench_steps_move:
  assumes "undisturbed s"
  shows "(bench_step F R E collect capacity)\<^sup>*\<^sup>* s s' \<Longrightarrow> (bench_move F R E collect capacity)\<^sup>*\<^sup>* s s' \<and> undisturbed s'"
    "(bench_move F R E collect capacity)\<^sup>*\<^sup>* s s' \<Longrightarrow> (bench_step F R E collect capacity)\<^sup>*\<^sup>* s s' \<and> undisturbed s'"
proof -
  assume "(bench_step F R E collect capacity)\<^sup>*\<^sup>* s s'"
  then show "(bench_move F R E collect capacity)\<^sup>*\<^sup>* s s' \<and> undisturbed s'"
    by (induction rule: rtranclp_induct)
      (auto simp: assms bench_step_move intro: rtranclp.rtrancl_into_rtrancl access_move_stop(2))
next
  assume "(bench_move F R E collect capacity)\<^sup>*\<^sup>* s s'"
  then show "(bench_step F R E collect capacity)\<^sup>*\<^sup>* s s' \<and> undisturbed s'"
    by (induction rule: rtranclp_induct)
      (auto simp: assms bench_step_move intro: rtranclp.rtrancl_into_rtrancl access_move_stop(2))
qed

lemma bench_init_running [simp]: "undisturbed (bench_init F capacity events begin_at book t acc)"
  by (simp add: bench_init_def relay_init_def undisturbed_def)

lemma plain_drop:
  "list_all input_event_int64 events \<Longrightarrow> shutdown_in \<notin> set events \<Longrightarrow>
   list_all input_event_int64 (drop n events) \<and> shutdown_in \<notin> set (drop n events)"
  by (auto simp: list_all_iff dest: in_set_dropD)

lemma plain_events_id [simp]: "shutdown_in \<notin> set es \<Longrightarrow> plain_events es = es"
  by (auto simp: plain_events_def intro: filter_True)

lemma plain_events_snoc [simp]: "shutdown_in \<notin> set es \<Longrightarrow> plain_events (es @ [shutdown_in]) = es"
  by (auto simp: plain_events_def intro: filter_True)

lemma bench_refines:
  assumes "valid_capacity capacity" "calibrated t" "represents book b"
    and "list_all input_event_int64 events" "shutdown_in \<notin> set events"
    and "(bench_step F R E collect capacity)\<^sup>*\<^sup>* (bench_init F capacity events begin_at book t acc) f"
  obtains s where "bench.relay_ok collect b t F E R acc capacity (drop (unat begin_at) events) s" "access_rel capacity f s"
    "s = coarse f (order_queue s) (output_queue s)" "undisturbed f" "polls f"
proof -
  let ?es = "drop (unat begin_at) events" and ?f0 = "bench_init F capacity events begin_at book t acc"
  let ?s0 = "relay_init (spsc_init capacity input_event_init) (spsc_init capacity (ping_event (fp_lit F 0)))
    (producer_events events begin_at) \<lparr>bm_book = book, bm_trades = 0, bm_timer = t\<rparr> (Some acc)"
  note moves = bench_steps_move(1) [OF bench_init_running assms(6)]
  note steps = access_moves_stop [OF moves [THEN conjunct1], THEN conjunct1]
  note rings = ring_init [OF assms(1), of input_event_init] ring_init [OF assms(1), of "ping_event (fp_lit F 0)"]
  have "bench_rep collect b t \<lparr>bm_book = book, bm_trades = 0, bm_timer = t\<rparr> []"
    using assms(2,3) by (simp add: bench_rep_def represents_def plain_events_def)
  from bench.relay_ok_init [OF plain_drop [OF assms(4,5)] this rings, where F = F and R = R and E = E and acc = acc]
  have ok: "bench.relay_ok collect b t F E R acc capacity ?es ?s0" by (simp add: producer_events_def)
  have "access_rel capacity ?f0 ?s0" unfolding bench_init_def by (rule access_init(1) [OF assms(1)])
  from access_steps_sim [OF steps this] obtain s where
    s: "(relay_step (bench_matcher_handler F E collect) (stats_handler F R) capacity)\<^sup>*\<^sup>* ?s0 s" "access_rel capacity f s" by blast
  have "polls ?f0" by (simp add: bench_init_def)
  from access_steps_polls [OF steps this] bench.steps_ok [OF s(1) ok plain_drop [OF assms(4,5)]] s(2) moves that
  show thesis by (simp add: access_rel_def)
qed

lemma bench_joins:
  assumes "valid_capacity capacity" "calibrated t" "represents book b"
    and "list_all input_event_int64 events" "shutdown_in \<notin> set events"
    and "(bench_step F R E collect capacity)\<^sup>*\<^sup>* (bench_init F capacity events begin_at book t acc) f"
  shows "\<exists>f'. (bench_step F R E collect capacity)\<^sup>*\<^sup>* f f' \<and> all_joined f'"
proof -
  from bench_refines [OF assms] obtain s where
    s: "bench.relay_ok collect b t F E R acc capacity (drop (unat begin_at) events) s" "access_rel capacity f s" "undisturbed f" "polls f" by blast
  from bench.access_joins [OF s(2,4,1) plain_drop [OF assms(4,5)]] bench_steps_move(2) [OF s(3)] show ?thesis by blast
qed

lemma bench_final:
  assumes "valid_capacity capacity" "calibrated t" "represents book b"
    and "list_all input_event_int64 events" "shutdown_in \<notin> set events"
    and "(bench_step F R E collect capacity)\<^sup>*\<^sup>* (bench_init F capacity events begin_at book t acc) f" "all_joined f"
  shows "bm_trades (matcher_book f) = of_nat (length (trades_of (fst (spec_run b (drop (unat begin_at) events)))))"
    "sink f = acc_add_all F R (if collect then map (ping_ns F E t) [0..<length (drop (unat begin_at) events)] else []) acc"
proof -
  from bench_refines [OF assms(1-6)] obtain s where
    s: "bench.relay_ok collect b t F E R acc capacity (drop (unat begin_at) events) s" "s = coarse f (order_queue s) (output_queue s)"
      "undisturbed f" by blast
  note pl = plain_drop [OF assms(4,5), of "unat begin_at"]
  have f: "matcher_book s = matcher_book f" "sink s = sink f" "writer_done s" "\<not> writer_stop s"
    using assms(7) s(3) by (subst s(2), simp add: all_joined_def undisturbed_def)+
  show "bm_trades (matcher_book f) = of_nat (length (trades_of (fst (spec_run b (drop (unat begin_at) events)))))"
    using bench.final_stage [OF s(1) f(3,4) pl] by (simp add: f(1) bench_rep_def spec_run_snoc)
  show "sink f = acc_add_all F R (if collect then map (ping_ns F E t) [0..<length (drop (unat begin_at) events)] else []) acc"
    using bench.final_sink [OF s(1) f(3,4) pl] pl by (auto simp: f(2) bench_output_def split: if_splits)
qed

section \<open>Properties of the agents\<close>

text \<open>
  C13: an iteration of the benchmark is deterministic up to its clock. From every state its agents can
  reach some schedule joins them all, and when they have joined the trade counter holds
  the trades of the book on the measured events and the accumulator has taken one sample per measured event,
  in order, each the difference of the two readings of the counter around its event, or none
  when latency is not collected.
\<close>

theorem bench_agents_deterministic:
  assumes "valid_capacity capacity" "calibrated t" "represents book b"
    and "list_all input_event_int64 events" "shutdown_in \<notin> set events"
    and "(bench_step F R E collect capacity)\<^sup>*\<^sup>* (bench_init F capacity events begin_at book t acc) s"
  shows "(\<exists>s'. (bench_step F R E collect capacity)\<^sup>*\<^sup>* s s' \<and> all_joined s') \<and>
    (all_joined s \<longrightarrow>
       bm_trades (matcher_book s) = of_nat (length (trades_of (fst (spec_run b (drop (unat begin_at) events))))) \<and>
       sink s = acc_add_all F R
         (if collect then map (ping_ns F E t) [0..<length (drop (unat begin_at) events)] else []) acc)"
  using bench_joins [OF assms] bench_final [OF assms] by blast

theorem bench_agents_deterministic_witness:
  "\<exists>s. (bench_step rat_ops middle_draws ticking_clock True 65536)\<^sup>*\<^sup>*
       (bench_init rat_ops 65536 [add_order_in (add_in 1 sell 10 101 gtc), add_order_in (add_in 2 buy 4 101 gtc)] 0 clob_init
         \<lparr>tsc_reads = 0, wall_reads = 0, ns_per_cycle = 1, calibrated = True\<rparr>
         (latency_accumulator_init rat_ops middle_draws 42)) s \<and> all_joined s \<and> bm_trades (matcher_book s) = 1"
proof -
  let ?es = "[add_order_in (add_in 1 sell 10 101 gtc), add_order_in (add_in 2 buy 4 101 gtc)]"
  let ?t = "\<lparr>tsc_reads = 0, wall_reads = 0, ns_per_cycle = 1, calibrated = True\<rparr> :: rat bench_timer_t"
  let ?s0 = "bench_init rat_ops 65536 ?es 0 clob_init ?t (latency_accumulator_init rat_ops middle_draws 42)"
  have t: "calibrated ?t" by simp
  have es: "list_all input_event_int64 ?es" "shutdown_in \<notin> set ?es" by (simp_all add: int64_def)
  have n: "length (trades_of (fst (spec_run empty_book (drop (unat (0 :: 64 word)) ?es)))) = 1" by code_simp
  note det = bench_agents_deterministic [OF valid_capacity_main t represents_init es, of rat_ops middle_draws ticking_clock True 0]
  from det [OF rtranclp.rtrancl_refl, of "latency_accumulator_init rat_ops middle_draws 42"] obtain s where
    s: "(bench_step rat_ops middle_draws ticking_clock True 65536)\<^sup>*\<^sup>* ?s0 s" "all_joined s" by blast
  with det [OF s(1)] n show ?thesis by auto
qed

end
