(* ===== verification/Order_Generator.thy ===== *)
theory Order_Generator
  imports Numeric_Library Messages
begin

text \<open>
  The synthetic order flow of the benchmark (\<^verbatim>\<open>order_generator.hpp\<close>): a latent heat and a log mid price
  that step with every event, cancels drawn from a local list of live orders, adds drawn around
  the synthetic touch. Shown here: whatever the doubles and the random engine do, the flow is
  well formed: ids count up from one, quantities and prices are in range, prices lie on the
  tick grid, and every cancel names an order that was added and not cancelled before.
\<close>

section \<open>State\<close>

record live_resting_t =
  live_id :: order_id_t
  live_side :: side_t
  live_price :: price_t

record ('d, 'g) order_generator_t =
  gen_profile :: "'d market_profile_t"
  gen_rng :: 'g
  log_mid :: 'd
  heat :: 'd
  last_order_id :: order_id_t
  live :: "live_resting_t list"
  has_last_add_side :: bool
  last_add_side :: side_t
  cancel_weights :: "'d list"

definition order_generator_init ::
    "'d double_ops \<Rightarrow> ('d, 'g) random_ops \<Rightarrow> 'd market_profile_t \<Rightarrow> ('d, 'g) order_generator_t" where
  "order_generator_init F R profile =
     \<lparr>gen_profile = profile, gen_rng = rng_seed R (profile_seed profile),
      log_mid = fp_log F (fp_of_int F (initial_mid profile)),
      heat = fp_clamp F (heat_mean profile) (fp_lit F 0) (fp_lit F 1),
      last_order_id = 0, live = [], has_last_add_side = False, last_add_side = buy, cancel_weights = []\<rparr>"

definition live_count :: "('d, 'g) order_generator_t \<Rightarrow> 64 word" where
  "live_count g = vector_size (live g)"

text \<open>One draw each: the value and the generator with its engine advanced.\<close>

definition uniform_draw ::
    "('d, 'g) random_ops \<Rightarrow> ('d, 'g) order_generator_t \<Rightarrow> 'd \<times> ('d, 'g) order_generator_t" where
  "uniform_draw R g = (let (x, r) = draw_uniform R (gen_rng g) in (x, g\<lparr>gen_rng := r\<rparr>))"

definition normal_draw ::
    "('d, 'g) random_ops \<Rightarrow> ('d, 'g) order_generator_t \<Rightarrow> 'd \<times> ('d, 'g) order_generator_t" where
  "normal_draw R g = (let (x, r) = draw_normal R (gen_rng g) in (x, g\<lparr>gen_rng := r\<rparr>))"

definition index_draw ::
    "('d, 'g) random_ops \<Rightarrow> ('d, 'g) order_generator_t \<Rightarrow> nat \<times> ('d, 'g) order_generator_t" where
  "index_draw R g =
     (let (i, r) = draw_index R 0 (vector_size (live g) - 1) (gen_rng g) in (unat i, g\<lparr>gen_rng := r\<rparr>))"

section \<open>Heat and spread\<close>

definition step_heat ::
    "'d double_ops \<Rightarrow> ('d, 'g) random_ops \<Rightarrow> ('d, 'g) order_generator_t \<Rightarrow> ('d, 'g) order_generator_t" where
  "step_heat F R g =
     (let p = gen_profile g; (z, g1) = normal_draw R g;
          h = fp_add F (heat g) (fp_add F (fp_mul F (heat_kappa p) (fp_sub F (heat_mean p) (heat g)))
                (fp_mul F (heat_sigma p) z))
      in g1\<lparr>heat := fp_clamp F h (fp_lit F 0) (fp_lit F 1)\<rparr>)"

definition blend_hot_mul :: "'d double_ops \<Rightarrow> ('d, 'g) order_generator_t \<Rightarrow> 'd \<Rightarrow> 'd" where
  "blend_hot_mul F g hot_mul = fp_add F (fp_lit F 1) (fp_mul F (heat g) (fp_sub F hot_mul (fp_lit F 1)))"

definition tick_of :: "'d market_profile_t \<Rightarrow> int" where
  "tick_of p = max (tick_size p) 1"

definition bid_ask_half_width_price :: "'d double_ops \<Rightarrow> ('d, 'g) order_generator_t \<Rightarrow> int \<times> int" where
  "bid_ask_half_width_price F g =
     (let p = gen_profile g; tick = tick_of p;
          base = wrap64 (max (base_half_spread_ticks p) 1 * tick);
          asym = wrap64 (spread_asym_ticks p * tick);
          bid_half = max (wrap64 (base + asym)) tick;
          ask_half = max (wrap64 (base - asym)) tick;
          scaled_extra = fp_mul F (heat g) (fp_of_int F (max (hot_half_spread_extra_ticks p) 0));
          hot_extra = wrap64 (sint (fp_lround F scaled_extra) * tick)
      in (wrap64 (bid_half + hot_extra), wrap64 (ask_half + hot_extra)))"

definition aggression_spread_scale :: "'d double_ops \<Rightarrow> ('d, 'g) order_generator_t \<Rightarrow> 'd" where
  "aggression_spread_scale F g =
     (let p = gen_profile g
      in if fp_le F (aggression_spread_k p) (fp_lit F 0) then fp_lit F 1
         else (let (bw, aw) = bid_ask_half_width_price F g;
                   spread_ticks = fp_div F (fp_of_int F (wrap64 (bw + aw))) (fp_of_int F (tick_of p))
               in fp_exp F (fp_mul F (fp_neg F (aggression_spread_k p)) spread_ticks)))"

definition snap_to_tick :: "'d double_ops \<Rightarrow> ('d, 'g) order_generator_t \<Rightarrow> 'd \<Rightarrow> price_t" where
  "snap_to_tick F g raw_price =
     (let tick = tick_of (gen_profile g);
          rounded0 = sint (fp_lround F raw_price);
          rounded = (if rounded0 < tick then tick else rounded0);
          snapped = wrap64 ((rounded sdiv tick) * tick)
      in if snapped = 0 then tick else snapped)"

definition current_best_bid :: "'d double_ops \<Rightarrow> ('d, 'g) order_generator_t \<Rightarrow> price_t" where
  "current_best_bid F g =
     (let mid = fp_exp F (log_mid g); (bw, aw) = bid_ask_half_width_price F g
      in snap_to_tick F g (fp_sub F mid (fp_of_int F bw)))"

definition current_best_ask :: "'d double_ops \<Rightarrow> ('d, 'g) order_generator_t \<Rightarrow> price_t" where
  "current_best_ask F g =
     (let mid = fp_exp F (log_mid g); (bw, aw) = bid_ask_half_width_price F g
      in snap_to_tick F g (fp_add F mid (fp_of_int F aw)))"

section \<open>Sampling\<close>

definition sample_side ::
    "'d double_ops \<Rightarrow> ('d, 'g) random_ops \<Rightarrow> ('d, 'g) order_generator_t \<Rightarrow> side_t \<times> ('d, 'g) order_generator_t" where
  "sample_side F R g =
     (let p = gen_profile g
      in if fp_less F (side_autocorr p) (fp_lit F 0) \<or> \<not> has_last_add_side g
         then (let (u, g1) = uniform_draw R g in (if fp_less F u (buy_bias p) then buy else sell, g1))
         else (let (u, g1) = uniform_draw R g
               in if fp_less F u (side_autocorr p) then (last_add_side g1, g1)
                  else (let (v, g2) = uniform_draw R g1
                        in (if fp_less F v (buy_bias p) then buy else sell, g2))))"

text \<open>The weight of one live order, and the loop that picks the first at which the draw is used up.\<close>

definition cancel_weight ::
    "'d double_ops \<Rightarrow> 'd market_profile_t \<Rightarrow> price_t \<Rightarrow> price_t \<Rightarrow> live_resting_t \<Rightarrow> 'd" where
  "cancel_weight F p best_bid best_ask x =
     (let tick = tick_of p;
          depth_ticks =
            (if live_side x = buy then max 0 (wrap64 (best_bid - live_price x) sdiv tick)
             else max 0 (wrap64 (live_price x - best_ask) sdiv tick))
      in fp_exp F (fp_mul F (fp_neg F (cancel_depth_lambda p)) (fp_of_int F depth_ticks)))"

fun pick_weighted :: "'d double_ops \<Rightarrow> 'd list \<Rightarrow> nat \<Rightarrow> 'd \<Rightarrow> nat option" where
  "pick_weighted F [] i u = None"
| "pick_weighted F (w # ws) i u =
     (let u' = fp_sub F u w in if fp_le F u' (fp_lit F 0) then Some i else pick_weighted F ws (Suc i) u')"

definition sample_cancel_index ::
    "'d double_ops \<Rightarrow> ('d, 'g) random_ops \<Rightarrow> price_t \<Rightarrow> price_t \<Rightarrow> ('d, 'g) order_generator_t \<Rightarrow>
     nat \<times> ('d, 'g) order_generator_t" where
  "sample_cancel_index F R best_bid best_ask g =
     (let p = gen_profile g
      in if vector_size (live g) = 1 \<or> fp_le F (cancel_depth_lambda p) (fp_lit F 0) then index_draw R g
         else
           (let weights = map (cancel_weight F p best_bid best_ask) (live g);
                sum_w = foldl (fp_add F) (fp_lit F 0) weights;
                g1 = g\<lparr>cancel_weights := weights\<rparr>
            in if fp_le F sum_w (fp_lit F 0) then index_draw R g1
               else (let (u, g2) = uniform_draw R g1
                     in (case pick_weighted F weights 0 (fp_mul F u sum_w) of
                           Some i \<Rightarrow> (i, g2)
                         | None \<Rightarrow> (length weights - 1, g2)))))"

definition geometric_tail_ticks ::
    "'d double_ops \<Rightarrow> ('d, 'g) random_ops \<Rightarrow> ('d, 'g) order_generator_t \<Rightarrow> 'd \<times> ('d, 'g) order_generator_t" where
  "geometric_tail_ticks F R g =
     (let lambda = fp_max F (place_decay (gen_profile g)) (fp_lit F (1 / 1000));
          (x, g1) = uniform_draw R g;
          u = fp_clamp F x (fp_lit F (1 / 1000000000)) (fp_sub F (fp_lit F 1) (fp_lit F (1 / 1000000000)))
      in (fp_div F (fp_neg F (fp_log F u)) lambda, g1))"

definition sample_price ::
    "'d double_ops \<Rightarrow> ('d, 'g) random_ops \<Rightarrow> side_t \<Rightarrow> 'd \<Rightarrow> ('d, 'g) order_generator_t \<Rightarrow>
     price_t \<times> ('d, 'g) order_generator_t" where
  "sample_price F R side aggressive_prob g =
     (let mid = fp_exp F (log_mid g); (bw, aw) = bid_ask_half_width_price F g;
          best_bid = fp_sub F mid (fp_of_int F bw); best_ask = fp_add F mid (fp_of_int F aw);
          tick = fp_of_int F (tick_size (gen_profile g));
          (u, g1) = uniform_draw R g
      in if fp_less F u aggressive_prob
         then (let (tail, g2) = geometric_tail_ticks F R g1; depth_ticks = fp_ceil F tail
               in (snap_to_tick F g2 (if side = buy then fp_add F best_ask (fp_mul F depth_ticks tick)
                     else fp_sub F best_bid (fp_mul F depth_ticks tick)), g2))
         else (let (depth_ticks, g2) = geometric_tail_ticks F R g1
               in (snap_to_tick F g2 (if side = buy then fp_sub F best_bid (fp_mul F depth_ticks tick)
                     else fp_add F best_ask (fp_mul F depth_ticks tick)), g2)))"

text \<open>\<open>None\<close> when the bounds of the profile are swapped, where \<^verbatim>\<open>std::clamp\<close> is undefined.\<close>

definition sample_quantity ::
    "'d double_ops \<Rightarrow> ('d, 'g) random_ops \<Rightarrow> ('d, 'g) order_generator_t \<Rightarrow>
     (quantity_t \<times> ('d, 'g) order_generator_t) option" where
  "sample_quantity F R g =
     (let p = gen_profile g; (z, g1) = normal_draw R g;
          log_q = fp_add F (qty_log_mean p) (fp_mul F (qty_log_stddev p) z);
          q = fp_exp F log_q
      in map_option (\<lambda>clamped. (max clamped 1, g1)) (int_clamp (sint (fp_lround F q)) (qty_min p) (qty_max p)))"

section \<open>One event\<close>

text \<open>
  \<^verbatim>\<open>next\<close> in the order of its code: the steps of heat and mid price with the two probabilities, then the cancel
  or the add. \<open>None\<close> when a precondition of the standard library is violated: an index outside the
  vector of live orders, or the swapped bounds above.
\<close>

definition next_probabilities ::
    "'d double_ops \<Rightarrow> ('d, 'g) random_ops \<Rightarrow> ('d, 'g) order_generator_t \<Rightarrow> 'd \<times> 'd \<times> ('d, 'g) order_generator_t" where
  "next_probabilities F R g =
     (let g1 = step_heat F R g; p = gen_profile g1;
          sigma_eff = fp_mul F (sigma p) (blend_hot_mul F g1 (hot_sigma_mul p));
          (z, g2) = normal_draw R g1;
          g3 = g2\<lparr>log_mid := fp_add F (log_mid g2) (fp_add F (mu p) (fp_mul F sigma_eff z))\<rparr>;
          cancel_p = fp_clamp F (fp_mul F (cancel_ratio p) (blend_hot_mul F g3 (hot_cancel_mul p)))
            (fp_lit F 0) (fp_lit F (999 / 1000));
          aggressive_p = fp_clamp F (fp_mul F (aggressive_ratio p) (blend_hot_mul F g3 (hot_aggressive_mul p)))
            (fp_lit F 0) (fp_lit F 1)
      in (cancel_p, fp_clamp F (fp_mul F aggressive_p (aggression_spread_scale F g3)) (fp_lit F 0) (fp_lit F 1), g3))"

definition next_cancel ::
    "'d double_ops \<Rightarrow> ('d, 'g) random_ops \<Rightarrow> ('d, 'g) order_generator_t \<Rightarrow>
     (input_event_t \<times> ('d, 'g) order_generator_t) option" where
  "next_cancel F R g =
     (let best_bid = current_best_bid F g; best_ask = current_best_ask F g;
          (i, g1) = sample_cancel_index F R best_bid best_ask g
      in if i < length (live g1)
         then Some (cancel_order_in \<lparr>cancel_order_id = live_id (live g1 ! i)\<rparr>,
                g1\<lparr>live := butlast ((live g1)[i := last (live g1)])\<rparr>)
         else None)"

definition next_add ::
    "'d double_ops \<Rightarrow> ('d, 'g) random_ops \<Rightarrow> 'd \<Rightarrow> ('d, 'g) order_generator_t \<Rightarrow>
     (input_event_t \<times> ('d, 'g) order_generator_t) option" where
  "next_add F R aggressive_p g =
     (let i = wrap64 (last_order_id g + 1);
          (side, g1) = sample_side F R (g\<lparr>last_order_id := i\<rparr>)
      in (case sample_quantity F R g1 of
            None \<Rightarrow> None
          | Some (quantity, g2) \<Rightarrow>
              (let (price, g3) = sample_price F R side aggressive_p g2
               in Some (add_order_in \<lparr>add_order_id = i, add_side = side, add_quantity = quantity,
                          add_price = price, add_tif = gtc\<rparr>,
                    g3\<lparr>last_add_side := side, has_last_add_side := True,
                      live := live g3 @ [\<lparr>live_id = i, live_side = side, live_price = price\<rparr>]\<rparr>))))"

definition generator_next ::
    "'d double_ops \<Rightarrow> ('d, 'g) random_ops \<Rightarrow> ('d, 'g) order_generator_t \<Rightarrow>
     (input_event_t \<times> ('d, 'g) order_generator_t) option" where
  "generator_next F R g =
     (let (cancel_p, aggressive_p, g1) = next_probabilities F R g;
          (want_cancel, g2) =
            (if live g1 = [] then (False, g1)
             else (let (u, g') = uniform_draw R g1 in (fp_less F u cancel_p, g')))
      in if want_cancel then next_cancel F R g2 else next_add F R aggressive_p g2)"

text \<open>\<^verbatim>\<open>pre_generate\<close> calls \<^verbatim>\<open>next\<close> in a loop.\<close>

fun generate ::
    "'d double_ops \<Rightarrow> ('d, 'g) random_ops \<Rightarrow> nat \<Rightarrow> ('d, 'g) order_generator_t \<Rightarrow>
     (input_event_t list \<times> ('d, 'g) order_generator_t) option" where
  "generate F R 0 g = Some ([], g)"
| "generate F R (Suc n) g =
     (case generator_next F R g of
        None \<Rightarrow> None
      | Some (e, g') \<Rightarrow> map_option (\<lambda>(es, g''). (e # es, g'')) (generate F R n g'))"

section \<open>Well-formed order flow\<close>

text \<open>
  The specification, on the events alone: the ids of the adds count up from \<open>k + 1\<close>, each add is in the
  ranges of its profile, and a cancel takes an id out of the set \<open>L\<close> of ids that were added and not
  cancelled.
\<close>

definition add_in_profile :: "'d market_profile_t \<Rightarrow> add_order_event_t \<Rightarrow> bool" where
  "add_in_profile p e \<longleftrightarrow>
     add_tif e = gtc \<and> max (qty_min p) 1 \<le> add_quantity e \<and> add_quantity e \<le> max (qty_max p) 1 \<and>
     tick_of p \<le> add_price e \<and> add_price e \<le> int64_max \<and> tick_of p dvd add_price e"

fun order_flow :: "'d market_profile_t \<Rightarrow> order_id_t \<Rightarrow> order_id_t set \<Rightarrow> input_event_t list \<Rightarrow> bool" where
  "order_flow p k L [] \<longleftrightarrow> True"
| "order_flow p k L (add_order_in e # es) \<longleftrightarrow>
     add_order_id e = k + 1 \<and> add_in_profile p e \<and> order_flow p (k + 1) (insert (k + 1) L) es"
| "order_flow p k L (cancel_order_in e # es) \<longleftrightarrow>
     cancel_order_id e \<in> L \<and> order_flow p k (L - {cancel_order_id e}) es"
| "order_flow p k L (shutdown_in # es) \<longleftrightarrow> False"

text \<open>The members of a profile are 32-bit integers, and its quantity bounds are in order.\<close>

definition int32 :: "int \<Rightarrow> bool" where
  "int32 x \<longleftrightarrow> - 2147483648 \<le> x \<and> x \<le> 2147483647"

definition profile_ok :: "'d market_profile_t \<Rightarrow> bool" where
  "profile_ok p \<longleftrightarrow> int32 (tick_size p) \<and> int32 (qty_min p) \<and> int32 (qty_max p) \<and> qty_min p \<le> qty_max p"

section \<open>What the draws leave alone\<close>

definition same_orders :: "('d, 'g) order_generator_t \<Rightarrow> ('d, 'g) order_generator_t \<Rightarrow> bool" where
  "same_orders g g' \<longleftrightarrow> gen_profile g' = gen_profile g \<and> live g' = live g \<and> last_order_id g' = last_order_id g"

lemma uniform_draw_same: "same_orders g (snd (uniform_draw R g))"
  by (simp add: same_orders_def uniform_draw_def split: prod.split)

lemma normal_draw_same: "same_orders g (snd (normal_draw R g))"
  by (simp add: same_orders_def normal_draw_def split: prod.split)

lemma index_draw_same: "same_orders g (snd (index_draw R g))"
  by (simp add: same_orders_def index_draw_def split: prod.split)

lemmas draw_same [simplified same_orders_def, simp] = uniform_draw_same normal_draw_same index_draw_same

lemma step_heat_same [simp]:
  "gen_profile (step_heat F R g) = gen_profile g" "live (step_heat F R g) = live g"
  "last_order_id (step_heat F R g) = last_order_id g"
  by (simp_all add: step_heat_def Let_def case_prod_beta)

lemma sample_side_same [simp]:
  "gen_profile (snd (sample_side F R g)) = gen_profile g" "live (snd (sample_side F R g)) = live g"
  "last_order_id (snd (sample_side F R g)) = last_order_id g"
  by (simp_all add: sample_side_def Let_def case_prod_beta)

lemma sample_cancel_index_same [simp]:
  "gen_profile (snd (sample_cancel_index F R b a g)) = gen_profile g" "live (snd (sample_cancel_index F R b a g)) = live g"
  "last_order_id (snd (sample_cancel_index F R b a g)) = last_order_id g"
  by (simp_all add: sample_cancel_index_def Let_def case_prod_beta split: option.split)

lemma geometric_tail_ticks_same [simp]:
  "gen_profile (snd (geometric_tail_ticks F R g)) = gen_profile g" "live (snd (geometric_tail_ticks F R g)) = live g"
  "last_order_id (snd (geometric_tail_ticks F R g)) = last_order_id g"
  by (simp_all add: geometric_tail_ticks_def Let_def case_prod_beta)

lemma sample_price_same [simp]:
  "gen_profile (snd (sample_price F R s a g)) = gen_profile g" "live (snd (sample_price F R s a g)) = live g"
  "last_order_id (snd (sample_price F R s a g)) = last_order_id g"
  by (simp_all add: sample_price_def Let_def case_prod_beta)

section \<open>Ranges\<close>

lemma tick_of_pos [simp]: "0 < tick_of p" "1 \<le> tick_of p"
  by (simp_all add: tick_of_def)

lemma sint_word64: "sint (w :: 64 word) \<le> int64_max"
  using sint_less [of w] by simp

text \<open>Whatever the raw price is, the snapped one is a positive multiple of the tick.\<close>

lemma snap_to_tick_grid:
  assumes "tick_of (gen_profile g) \<le> int64_max"
  shows "tick_of (gen_profile g) \<le> snap_to_tick F g raw" "snap_to_tick F g raw \<le> int64_max"
    "tick_of (gen_profile g) dvd snap_to_tick F g raw"
proof -
  let ?t = "tick_of (gen_profile g)"
  define r where "r = (if sint (fp_lround F raw) < ?t then ?t else sint (fp_lround F raw))"
  have r: "?t \<le> r" "r \<le> int64_max" using assms sint_word64 by (auto simp: r_def)
  have p: "0 < ?t" "0 < r" using r(1) tick_of_pos(1) [of "gen_profile g"] by linarith+
  then have d: "r sdiv ?t = r div ?t" by (simp add: signed_divide_int_def abs_of_pos)
  have q: "1 \<le> r div ?t" using r(1) p pos_imp_zdiv_pos_iff [OF p(1), of r] by simp
  have le: "r div ?t * ?t \<le> r"
    using pos_mod_sign [OF p(1), of r] div_mult_mod_eq [of r ?t] by linarith
  have ge: "?t \<le> r div ?t * ?t" using mult_right_mono [OF q, of ?t] p(1) by simp
  have "wrap64 (r div ?t * ?t) = r div ?t * ?t" using le ge r(2) tick_of_pos(1) [of "gen_profile g"] by (intro wrap64_range) linarith+
  then have "snap_to_tick F g raw = r div ?t * ?t"
    using ge tick_of_pos(1) [of "gen_profile g"] by (simp add: snap_to_tick_def Let_def d flip: r_def)
  with le ge r(2) show "?t \<le> snap_to_tick F g raw" "snap_to_tick F g raw \<le> int64_max" "?t dvd snap_to_tick F g raw"
    by simp_all
qed

lemma sample_price_grid:
  assumes "tick_of (gen_profile g) \<le> int64_max"
  shows "tick_of (gen_profile g) \<le> fst (sample_price F R s a g)" "fst (sample_price F R s a g) \<le> int64_max"
    "tick_of (gen_profile g) dvd fst (sample_price F R s a g)"
  using snap_to_tick_grid [of "snd (geometric_tail_ticks F R (snd (uniform_draw R g)))" F] assms
  by (simp_all add: sample_price_def Let_def case_prod_beta)

lemma sample_quantity_range:
  assumes "qty_min (gen_profile g) \<le> qty_max (gen_profile g)"
  shows "\<exists>q g'. sample_quantity F R g = Some (q, g') \<and> max (qty_min (gen_profile g)) 1 \<le> q \<and>
    q \<le> max (qty_max (gen_profile g)) 1 \<and> same_orders g g'"
proof -
  let ?z = "fst (normal_draw R g)"
  let ?v = "sint (fp_lround F (fp_exp F (fp_add F (qty_log_mean (gen_profile g)) (fp_mul F (qty_log_stddev (gen_profile g)) ?z))))"
  from int_clamp_Some [OF assms, of ?v] obtain r where
    r: "int_clamp ?v (qty_min (gen_profile g)) (qty_max (gen_profile g)) = Some r"
      "qty_min (gen_profile g) \<le> r" "r \<le> qty_max (gen_profile g)" by blast
  then have "sample_quantity F R g = Some (max r 1, snd (normal_draw R g))"
    by (simp add: sample_quantity_def Let_def case_prod_beta)
  with r(2,3) normal_draw_same [of g R] show ?thesis by (intro exI [of _ "max r 1"]) auto
qed

text \<open>With its bounds swapped the clamp of the quantity is undefined.\<close>

lemma swapped_quantity_bounds:
  "qty_max (gen_profile g) < qty_min (gen_profile g) \<Longrightarrow> sample_quantity F R g = None"
  by (simp add: sample_quantity_def int_clamp_def Let_def case_prod_beta)

lemma pick_weighted_less: "pick_weighted F ws i u = Some j \<Longrightarrow> i \<le> j \<and> j < i + length ws"
  by (induction F ws i u rule: pick_weighted.induct) (auto simp: Let_def split: if_splits)

text \<open>The drawn index is always one of the vector of live orders.\<close>

lemma sample_cancel_index_less:
  assumes "draws_in_range R" "live g \<noteq> []"
  shows "fst (sample_cancel_index F R b a g) < length (live g)"
proof -
  have i: "fst (index_draw R g') < length (live g)" if "live g' = live g" for g'
    using draw_last_index [OF assms(1), of "live g'"] assms(2) that by (simp add: index_draw_def Let_def case_prod_beta)
  show ?thesis using assms(2) i pick_weighted_less [of F _ 0]
    by (fastforce simp: sample_cancel_index_def Let_def case_prod_beta split: option.split)
qed

section \<open>The flow of a generator\<close>

definition gen_inv :: "'d market_profile_t \<Rightarrow> order_id_t \<Rightarrow> order_id_t set \<Rightarrow> ('d, 'g) order_generator_t \<Rightarrow> bool" where
  "gen_inv p k L g \<longleftrightarrow>
     gen_profile g = p \<and> last_order_id g = k \<and> distinct (map live_id (live g)) \<and> live_id ` set (live g) = L \<and>
     (\<forall>i \<in> L. 0 < i \<and> i \<le> k)"

lemma gen_inv_same: "same_orders g g' \<Longrightarrow> gen_inv p k L g' = gen_inv p k L g"
  by (simp add: gen_inv_def same_orders_def)

lemma next_probabilities_same: "next_probabilities F R g = (cp, ap, g') \<Longrightarrow> same_orders g g'"
  by (auto simp: next_probabilities_def same_orders_def Let_def case_prod_beta)

lemma same_orders_trans: "same_orders g g' \<Longrightarrow> same_orders g' g'' \<Longrightarrow> same_orders g g''"
  by (simp add: same_orders_def)

lemma generator_next_cases:
  shows "\<exists>g' ap. same_orders g g' \<and>
    (generator_next F R g = next_add F R ap g' \<or> live g \<noteq> [] \<and> generator_next F R g = next_cancel F R g')"
proof -
  obtain cp ap g1 where p: "next_probabilities F R g = (cp, ap, g1)" by (metis prod_cases3)
  have s: "same_orders g g1" by (rule next_probabilities_same [OF p])
  show ?thesis
  proof (cases "live g1 = []")
    case True
    with s show ?thesis by (intro exI [of _ g1] exI [of _ ap]) (simp add: generator_next_def p)
  next
    case False
    with s same_orders_trans [OF s uniform_draw_same [of g1 R]] show ?thesis
      by (intro exI [of _ "snd (uniform_draw R g1)"] exI [of _ ap])
        (simp add: generator_next_def p case_prod_beta, simp add: same_orders_def)
  qed
qed

lemma next_cancel_inv:
  assumes "gen_inv p k L g" "draws_in_range R" "live g \<noteq> []"
  shows "\<exists>i g'. next_cancel F R g = Some (cancel_order_in \<lparr>cancel_order_id = i\<rparr>, g') \<and> i \<in> L \<and> gen_inv p k (L - {i}) g'"
proof -
  let ?s = "sample_cancel_index F R (current_best_bid F g) (current_best_ask F g) g"
  let ?j = "fst ?s"
  have j: "?j < length (live g)" by (rule sample_cancel_index_less [OF assms(2,3)])
  have n: "next_cancel F R g = Some (cancel_order_in \<lparr>cancel_order_id = live_id (live g ! ?j)\<rparr>,
      (snd ?s)\<lparr>live := butlast ((live g)[?j := last (live g)])\<rparr>)"
    using j by (simp add: next_cancel_def Let_def case_prod_beta)
  have "live_id (live g ! ?j) \<in> L" using assms(1) j by (auto simp: gen_inv_def)
  moreover have "gen_inv p k (L - {live_id (live g ! ?j)}) ((snd ?s)\<lparr>live := butlast ((live g)[?j := last (live g)])\<rparr>)"
    using assms(1) swap_and_pop_distinct [OF j, of live_id] by (auto simp: gen_inv_def)
  ultimately show ?thesis using n by blast
qed

lemma next_add_inv:
  assumes "gen_inv p k L g" "profile_ok p" "0 \<le> k" "k < int64_max"
  shows "\<exists>e g'. next_add F R ap g = Some (add_order_in e, g') \<and> add_order_id e = k + 1 \<and> add_in_profile p e \<and>
    gen_inv p (k + 1) (insert (k + 1) L) g'"
proof -
  let ?g = "snd (sample_side F R (g\<lparr>last_order_id := k + 1\<rparr>))"
  have id: "wrap64 (last_order_id g + 1) = k + 1" using assms(1,3,4) by (simp add: gen_inv_def wrap64_range)
  have g: "gen_profile ?g = p" "live ?g = live g" using assms(1) by (simp_all add: gen_inv_def)
  then obtain q g2 where q: "sample_quantity F R ?g = Some (q, g2)" "max (qty_min p) 1 \<le> q" "q \<le> max (qty_max p) 1"
    "same_orders ?g g2" using sample_quantity_range [of ?g F R] assms(2) by (auto simp: profile_ok_def)
  have g2: "gen_profile g2 = p" "live g2 = live g" "last_order_id g2 = k + 1" using q(4) g by (simp_all add: same_orders_def)
  have t: "tick_of p \<le> int64_max" using assms(2) by (simp add: profile_ok_def int32_def tick_of_def)
  let ?side = "fst (sample_side F R (g\<lparr>last_order_id := k + 1\<rparr>))"
  let ?sp = "sample_price F R ?side ap g2"
  let ?e = "\<lparr>add_order_id = k + 1, add_side = ?side, add_quantity = q, add_price = fst ?sp, add_tif = gtc\<rparr>"
  let ?g' = "(snd ?sp)\<lparr>last_add_side := ?side, has_last_add_side := True,
    live := live g @ [\<lparr>live_id = k + 1, live_side = ?side, live_price = fst ?sp\<rparr>]\<rparr>"
  have "next_add F R ap g = Some (add_order_in ?e, ?g')"
    using q(1) g2(2) by (simp add: next_add_def Let_def id case_prod_beta)
  moreover have "add_in_profile p ?e"
    using q(2,3) sample_price_grid [of g2] g2(1) t by (simp add: add_in_profile_def)
  moreover have "k + 1 \<notin> live_id ` set (live g)" "\<forall>i \<in> live_id ` set (live g). 0 < i \<and> i \<le> k"
    using assms(1) by (fastforce simp: gen_inv_def)+
  then have "gen_inv p (k + 1) (insert (k + 1) L) ?g'"
    using assms(1,3) g2 by (auto simp: gen_inv_def add_increasing2)
  ultimately show ?thesis by (intro exI [of _ ?e] exI [of _ ?g']) simp
qed

lemma generator_next_inv:
  assumes "draws_in_range R" "profile_ok p" "gen_inv p k L g" "0 \<le> k" "k < int64_max"
  shows "(\<exists>e g'. generator_next F R g = Some (add_order_in e, g') \<and> add_order_id e = k + 1 \<and> add_in_profile p e \<and>
      gen_inv p (k + 1) (insert (k + 1) L) g') \<or>
    (\<exists>i g'. generator_next F R g = Some (cancel_order_in \<lparr>cancel_order_id = i\<rparr>, g') \<and> i \<in> L \<and> gen_inv p k (L - {i}) g')"
proof -
  obtain g' ap where g': "gen_inv p k L g'" and
    n: "generator_next F R g = next_add F R ap g' \<or> live g' \<noteq> [] \<and> generator_next F R g = next_cancel F R g'"
    using generator_next_cases [of g F R] gen_inv_same assms(3) unfolding same_orders_def by metis
  then show ?thesis
    using next_add_inv [OF g' assms(2,4,5), of F R ap] next_cancel_inv [OF g' assms(1), of F] by auto
qed

text \<open>
  The interface of a source of orders, as its callers see it: as long as the ids last, a call returns
  an add with the next id or a cancel of a live id, and keeps the record \<open>inv k L\<close> of
  the adds made and the ids alive. Such a source makes a well-formed flow of any length.
\<close>

locale order_source =
  fixes step :: "'s \<Rightarrow> (input_event_t \<times> 's) option" and run :: "nat \<Rightarrow> 's \<Rightarrow> (input_event_t list \<times> 's) option"
    and inv :: "order_id_t \<Rightarrow> order_id_t set \<Rightarrow> 's \<Rightarrow> bool" and p :: "'d market_profile_t"
  assumes run_0: "run 0 g = Some ([], g)"
    and run_Suc: "run (Suc n) g =
      (case step g of None \<Rightarrow> None | Some (e, g') \<Rightarrow> map_option (\<lambda>(es, g''). (e # es, g'')) (run n g'))"
    and step_flow: "inv k L g \<Longrightarrow> 0 \<le> k \<Longrightarrow> k < int64_max \<Longrightarrow>
      (\<exists>e g'. step g = Some (add_order_in e, g') \<and> add_order_id e = k + 1 \<and> add_in_profile p e \<and>
        inv (k + 1) (insert (k + 1) L) g') \<or>
      (\<exists>i g'. step g = Some (cancel_order_in \<lparr>cancel_order_id = i\<rparr>, g') \<and> i \<in> L \<and> inv k (L - {i}) g')"
begin

lemma run_flow:
  assumes "inv k L g" "0 \<le> k" "k + int n \<le> int64_max"
  shows "\<exists>es g'. run n g = Some (es, g') \<and> length es = n \<and> order_flow p k L es"
  using assms
proof (induction n arbitrary: k L g)
  case (Suc n)
  from step_flow [OF Suc.prems(1,2)] Suc.prems(3) consider
    (add) e g' where "step g = Some (add_order_in e, g')" "add_order_id e = k + 1" "add_in_profile p e"
      "inv (k + 1) (insert (k + 1) L) g'"
  | (cancel) i g' where "step g = Some (cancel_order_in \<lparr>cancel_order_id = i\<rparr>, g')" "i \<in> L" "inv k (L - {i}) g'"
    by auto
  then show ?case
  proof cases
    case add
    with Suc.IH [OF add(4)] Suc.prems(2,3) show ?thesis by (auto simp: run_Suc)
  next
    case cancel
    with Suc.IH [OF cancel(3)] Suc.prems(2,3) show ?thesis by (auto simp: run_Suc)
  qed
qed (simp add: run_0)

lemma run_length: "run n g = Some (es, g') \<Longrightarrow> length es = n"
  by (induction n arbitrary: g es g') (auto simp: run_0 run_Suc split: option.splits prod.splits)

end

interpretation generator: order_source "generator_next F R" "generate F R"
  "\<lambda>k L g. draws_in_range R \<and> profile_ok p \<and> gen_inv p k L g" p for F R p
  by unfold_locales (simp, simp, use generator_next_inv in blast)

lemma gen_inv_init: "gen_inv p 0 {} (order_generator_init F R p)"
  by (simp add: gen_inv_def order_generator_init_def)

lemma generate_flow:
  "draws_in_range R \<Longrightarrow> profile_ok p \<Longrightarrow> int n \<le> int64_max \<Longrightarrow>
   \<exists>es g. generate F R n (order_generator_init F R p) = Some (es, g) \<and> length es = n \<and> order_flow p 0 {} es"
  by (rule generator.run_flow [OF conjI [OF _ conjI [OF _ gen_inv_init]]]) simp_all

section \<open>Properties of the generator\<close>

text \<open>
  C12: for every floating-point arithmetic and every random engine whose integer draws stay between their
  bounds, the generator makes as many events as it is asked for without leaving the vector of
  live orders, and they are a well-formed flow: ids count up from one without gaps, every add is a
  good-till-cancel order with a quantity between the bounds of the profile and at least one, a price on the tick
  grid of at least one tick, and every cancel names an id added before and not cancelled since.
\<close>

theorem generator_flow_well_formed:
  assumes "draws_in_range R" "profile_ok p" "int n \<le> int64_max"
  shows "\<exists>es g. generate F R n (order_generator_init F R p) = Some (es, g) \<and> length es = n \<and> order_flow p 0 {} es"
  using assms by (rule generate_flow)

theorem generator_flow_well_formed_witness:
  "\<exists>es g. generate rat_ops middle_draws 3 (order_generator_init rat_ops middle_draws (profile_quiet_build id)) = Some (es, g) \<and>
     length es = 3 \<and> order_flow (profile_quiet_build id) 0 {} es"
  using generator_flow_well_formed [of middle_draws "profile_quiet_build id" 3 rat_ops]
  by (simp add: draws_in_range_def middle_draws_def profile_ok_def int32_def profile_quiet_build_def)

end
