(* ===== verification/Flow_Book.thy ===== *)
theory Flow_Book
  imports Clob_Correctness Order_Generator
begin

text \<open>
  The generator and the book together: on the generated flow the book accepts every add, and the only
  rejections are those of cancels of orders that have been filled in the meantime, which the generator's
  list of live orders cannot know of.
\<close>

section \<open>Ids of the book\<close>

lemma flow_valid_add:
  assumes "add_in_profile p e" "profile_ok p" "add_order_id e = k + 1" "0 \<le> k" "k < int64_max"
  shows "valid_add e" "input_event_int64 (add_order_in e)"
  using assms by (auto simp: add_in_profile_def profile_ok_def int32_def valid_add_def int64_def tick_of_def)

text \<open>An order that matching takes off the book is reported as filled.\<close>

lemma deplete_filled:
  assumes "0 \<le> q" "all_positive xs" "i \<in> fst ` set xs" "i \<notin> fst ` set (deplete q xs)"
  shows "\<exists>f. order_filled_event i f \<in> set (concat (map (passive_report j) (zip xs (allocate q xs))))"
  using assms
proof (induction q xs rule: deplete.induct)
  case (2 q r rq xs)
  have "0 < q \<and> rq \<le> q" using "2.prems"(3,4) by (auto split: if_splits)
  then have "allocate q ((r, rq) # xs) = (r, rq) # allocate (q - rq) xs" by simp
  moreover have "\<exists>f. order_filled_event i f \<in> set (concat (map (passive_report j) (zip xs (allocate (q - rq) xs))))" if "i \<noteq> r"
    using that 2 \<open>0 < q \<and> rq \<le> q\<close> by auto
  ultimately show ?case by (cases "i = r") (auto simp: passive_report_def)
qed simp

lemma fresh_add_accepted:
  assumes wf: "book_wf b" and v: "valid_add e" and gtc: "add_tif e = gtc" and new: "add_order_id e \<notin> set (resting_ids b)"
  shows "order_rejected_event i code \<notin> set (fst (spec_on_add e b))"
    "set (resting_ids (snd (spec_on_add e b))) \<subseteq> insert (add_order_id e) (set (resting_ids b))"
    "i \<in> insert (add_order_id e) (set (resting_ids b)) \<Longrightarrow>
       i \<in> set (resting_ids (snd (spec_on_add e b))) \<or> (\<exists>f. order_filled_event i f \<in> set (fst (spec_on_add e b)))"
proof -
  let ?s = "add_side e" and ?r = "add_quantity e - fills_of e b" and ?xs = "crossing_orders (add_side e) (add_price e) b"
  have k: "\<not> killed e b" using gtc by (simp add: killed_def)
  obtain b1 where b1: "spec_on_add e b =
       (match_reports e b @ [add_terminal e (fills_of e b) (add_order_id e \<in> set (resting_ids b1))],
        if rests e b b1 then set_queues ?s (enqueue_at ?s (add_price e) (add_order_id e, ?r) (queues ?s b1)) b1
        else b1)" "queues ?s b1 = queues ?s b" "book_wf b1"
    "side_orders (queues (opposite_of ?s) b1) = deplete (add_quantity e) ?xs @
       side_orders (other_levels (opposite_of ?s) (add_price e) (queues (opposite_of ?s) b))"
    by (rule spec_on_add_closed [OF wf v k])
  have ids: "set (resting_ids b1) \<subseteq> set (resting_ids b)" by (rule matched_ids [OF b1(2,4)])
  have enq: "set (side_orders (enqueue_at ?s (add_price e) (add_order_id e, ?r) (queues ?s b1))) =
      insert (add_order_id e, ?r) (set (side_orders (queues ?s b1)))"
    using side_orders_enqueue [OF side_wf_sorted [OF book_wf_queues [OF b1(3), of ?s]], of "add_price e" "(add_order_id e, ?r)"]
    by auto
  have after: "set (resting_ids (snd (spec_on_add e b))) =
      (if rests e b b1 then insert (add_order_id e) (set (resting_ids b1)) else set (resting_ids b1))"
    using enq unfolding b1(1) resting_ids_side [of _ ?s] by auto
  from ids new gtc match_reports_no_reject show "order_rejected_event i code \<notin> set (fst (spec_on_add e b))"
    by (auto simp: b1(1) add_terminal_def Let_def)
  from after ids show "set (resting_ids (snd (spec_on_add e b))) \<subseteq> insert (add_order_id e) (set (resting_ids b))" by auto
  assume i: "i \<in> insert (add_order_id e) (set (resting_ids b))"
  show "i \<in> set (resting_ids (snd (spec_on_add e b))) \<or> (\<exists>f. order_filled_event i f \<in> set (fst (spec_on_add e b)))"
  proof (cases "i = add_order_id e")
    case True
    with ids new gtc fills_of_bounds(2) [OF wf v] show ?thesis unfolding after by (auto simp: b1(1) rests_def add_terminal_def)
  next
    case False
    have "\<exists>f. order_filled_event i f \<in> set (match_reports e b)" if "i \<notin> set (resting_ids b1)"
    proof -
      have "i \<in> fst ` set ?xs" "i \<notin> fst ` set (deplete (add_quantity e) ?xs)"
        using i False that b1(2,4) crossing_orders_split [of ?s b "add_price e"] unfolding resting_ids_side [of _ ?s] by auto
      with deplete_filled [OF _ crossing_orders_positive [OF wf]] v show ?thesis
        by (simp add: match_reports_def Let_def valid_add_def)
    qed
    then show ?thesis unfolding after by (auto simp: b1(1))
  qed
qed

lemma cancel_ids:
  "set (resting_ids (snd (spec_on_cancel e b))) \<subseteq> set (resting_ids b)"
  "set (resting_ids b) - {cancel_order_id e} \<subseteq> set (resting_ids (snd (spec_on_cancel e b)))"
  by (auto simp: spec_on_cancel_def Let_def remove_order_def resting_ids_def side_orders_drop split: option.split)

lemma find_resting_None: "find_resting i b = None \<longleftrightarrow> i \<notin> set (resting_ids b)"
  by (auto simp: find_resting_def resting_ids_def map_of_eq_None_iff)

section \<open>The flow on the abstract book\<close>

text \<open>
  What holds before the rest of a flow: the ids on the book are ids of the flow, and a live id, added and not yet cancelled, that
  is not on the book any more has been reported as filled.
\<close>

definition flow_state ::
    "'d market_profile_t \<Rightarrow> order_id_t \<Rightarrow> order_id_t set \<Rightarrow> book \<Rightarrow> output_event_t list \<Rightarrow> input_event_t list \<Rightarrow> bool" where
  "flow_state p k L b history es \<longleftrightarrow> order_flow p k L es \<and> 0 \<le> k \<and> k + int (length es) \<le> int64_max \<and> book_wf b \<and>
     set (resting_ids b) \<subseteq> {1..k} \<and> L \<subseteq> {1..k} \<and>
     (\<forall>i \<in> L. i \<in> set (resting_ids b) \<or> (\<exists>f. order_filled_event i f \<in> set history))"

lemma flow_state_init: "order_flow p 0 {} es \<Longrightarrow> int (length es) \<le> int64_max \<Longrightarrow> flow_state p 0 {} empty_book [] es"
  using book_wf_empty by (simp add: flow_state_def resting_ids_def empty_book_def)

text \<open>
  The response of the book to an event of the flow: no rejection of an add, and a cancel is either carried out or, when its
  order is no longer resting, rejected as unknown after the order was filled.
\<close>

fun flow_response :: "(order_id_t \<Rightarrow> bool) \<Rightarrow> output_event_t list \<Rightarrow> input_event_t \<Rightarrow> output_event_t list \<Rightarrow> bool" where
  "flow_response resting history (add_order_in e) evs \<longleftrightarrow> (\<forall>i code. order_rejected_event i code \<notin> set evs)"
| "flow_response resting history (cancel_order_in e) evs \<longleftrightarrow>
     (if resting (cancel_order_id e) then (\<exists>q. evs = [order_cancelled_event (cancel_order_id e) 0 q user_request])
      else evs = [order_rejected_event (cancel_order_id e) unknown_order_id] \<and>
        (\<exists>f. order_filled_event (cancel_order_id e) f \<in> set history))"
| "flow_response resting history shutdown_in evs \<longleftrightarrow> False"

lemma flow_add:
  assumes "flow_state p k L b history (add_order_in e # es)" "profile_ok p"
  shows "input_event_int64 (add_order_in e)" "order_rejected_event i code \<notin> set (fst (spec_on_add e b))"
    "flow_state p (k + 1) (insert (k + 1) L) (snd (spec_on_add e b)) (history @ fst (spec_on_add e b)) es"
proof -
  have st: "0 \<le> k" "k + 1 + int (length es) \<le> int64_max" "book_wf b" "set (resting_ids b) \<subseteq> {1..k}" "L \<subseteq> {1..k}"
    "\<forall>i \<in> L. i \<in> set (resting_ids b) \<or> (\<exists>f. order_filled_event i f \<in> set history)"
    and e: "add_order_id e = k + 1" "add_in_profile p e" "order_flow p (k + 1) (insert (k + 1) L) es"
    using assms(1) by (auto simp: flow_state_def)
  have "k < int64_max" using st(2) by linarith
  note v = flow_valid_add [OF e(2) assms(2) e(1) st(1) this]
  have gtc: "add_tif e = gtc" using e(2) by (simp add: add_in_profile_def)
  have "add_order_id e \<notin> set (resting_ids b)" using st(4) by (auto simp: e(1))
  note acc = fresh_add_accepted [OF st(3) v(1) gtc this, unfolded e(1)]
  show "input_event_int64 (add_order_in e)" "order_rejected_event i code \<notin> set (fst (spec_on_add e b))" by (rule v(2) acc(1))+
  have "set (resting_ids (snd (spec_on_add e b))) \<subseteq> {1..k + 1}" using acc(2) st(1,4) by fastforce
  moreover have "\<forall>i \<in> insert (k + 1) L. i \<in> set (resting_ids (snd (spec_on_add e b))) \<or>
      (\<exists>f. order_filled_event i f \<in> set (history @ fst (spec_on_add e b)))"
    using acc(3) st(6) by (fastforce simp del: set_append simp add: set_append [of history])
  moreover have "insert (k + 1) L \<subseteq> {1..k + 1}" using st(1,5) by fastforce
  ultimately show "flow_state p (k + 1) (insert (k + 1) L) (snd (spec_on_add e b)) (history @ fst (spec_on_add e b)) es"
    using st(1,2) e(3) spec_on_add_wf [OF st(3) v(1)] by (simp add: flow_state_def)
qed

lemma flow_cancel:
  assumes "flow_state p k L b history (cancel_order_in e # es)"
  shows "input_event_int64 (cancel_order_in e)"
    "flow_response (\<lambda>i. i \<in> set (resting_ids b)) history (cancel_order_in e) (fst (spec_on_cancel e b))"
    "flow_state p k (L - {cancel_order_id e}) (snd (spec_on_cancel e b)) (history @ fst (spec_on_cancel e b)) es"
proof -
  let ?i = "cancel_order_id e"
  have st: "0 \<le> k" "k + 1 + int (length es) \<le> int64_max" "book_wf b" "set (resting_ids b) \<subseteq> {1..k}" "L \<subseteq> {1..k}"
    "\<forall>i \<in> L. i \<in> set (resting_ids b) \<or> (\<exists>f. order_filled_event i f \<in> set history)"
    and i: "?i \<in> L" "order_flow p k (L - {?i}) es"
    using assms by (auto simp: flow_state_def)
  have r: "0 < ?i" "?i \<le> k" using i(1) st(5) by auto
  then show v: "input_event_int64 (cancel_order_in e)" using st(2) by (simp add: int64_def)
  show "flow_response (\<lambda>i. i \<in> set (resting_ids b)) history (cancel_order_in e) (fst (spec_on_cancel e b))"
    using r(1) i(1) st(6) find_resting_None [of ?i b] by (auto simp: spec_on_cancel_def Let_def split: option.split)
  have "book_wf (snd (spec_on_cancel e b))" using spec_step_wf [OF st(3) v] by simp
  moreover have "set (resting_ids (snd (spec_on_cancel e b))) \<subseteq> {1..k}" using cancel_ids(1) st(4) by blast
  moreover have "\<forall>i \<in> L - {?i}. i \<in> set (resting_ids (snd (spec_on_cancel e b))) \<or>
      (\<exists>f. order_filled_event i f \<in> set (history @ fst (spec_on_cancel e b)))"
    using cancel_ids(2) [of b e] st(6) by auto
  ultimately show "flow_state p k (L - {?i}) (snd (spec_on_cancel e b)) (history @ fst (spec_on_cancel e b)) es"
    using st(1,2,5) i(2) by (auto simp: flow_state_def)
qed

lemma flow_step:
  assumes "flow_state p k L b history (ev # es)" "profile_ok p"
  shows "input_event_int64 ev" "flow_response (\<lambda>i. i \<in> set (resting_ids b)) history ev (fst (spec_step b ev))"
    "\<exists>k' L'. flow_state p k' L' (snd (spec_step b ev)) (history @ fst (spec_step b ev)) es"
proof -
  have "input_event_int64 ev \<and> flow_response (\<lambda>i. i \<in> set (resting_ids b)) history ev (fst (spec_step b ev)) \<and>
    (\<exists>k' L'. flow_state p k' L' (snd (spec_step b ev)) (history @ fst (spec_step b ev)) es)"
  proof (cases ev)
    case (add_order_in e)
    with assms(1) have "flow_state p k L b history (add_order_in e # es)" by simp
    from flow_add [OF this assms(2)] show ?thesis unfolding add_order_in by auto
  next
    case (cancel_order_in e)
    with assms(1) have "flow_state p k L b history (cancel_order_in e # es)" by simp
    from flow_cancel [OF this] show ?thesis unfolding cancel_order_in spec_step.simps by blast
  next
    case shutdown_in
    with assms(1) show ?thesis by (simp add: flow_state_def)
  qed
  then show "input_event_int64 ev" "flow_response (\<lambda>i. i \<in> set (resting_ids b)) history ev (fst (spec_step b ev))"
    "\<exists>k' L'. flow_state p k' L' (snd (spec_step b ev)) (history @ fst (spec_step b ev)) es" by blast+
qed

lemma flow_prefix:
  assumes "flow_state p k L b history (pre @ es)" "profile_ok p"
  shows "list_all input_event_int64 pre \<and>
    (\<exists>k' L'. flow_state p k' L' (snd (spec_run b pre)) (history @ fst (spec_run b pre)) es)"
  using assms(1)
proof (induction pre arbitrary: k L b history)
  case (Cons ev pre)
  then have st: "flow_state p k L b history (ev # (pre @ es))" by simp
  note one = flow_step [OF st assms(2)]
  from one(3) Cons.IH show ?case using one(1) by (fastforce simp: case_prod_beta)
qed auto

lemma flow_int64:
  assumes "order_flow p 0 {} es" "int (length es) \<le> int64_max" "profile_ok p"
  shows "list_all input_event_int64 es"
  using flow_prefix [of p 0 "{}" empty_book "[]" es "[]"] flow_state_init [OF assms(1,2)] assms(3) by simp

section \<open>The generated flow on the book\<close>

text \<open>One event of the flow on the pointer-level book.\<close>

lemma flow_event_on_book:
  assumes "order_flow p 0 {} (pre @ ev # post)" "int (length (pre @ ev # post)) \<le> int64_max" "profile_ok p"
  shows "\<exists>c1 c2 evs. clob_run clob_init pre = Some c1 \<and> clob_step c1 ev = Some c2 \<and> emitter c2 = emitter c1 @ evs \<and>
    flow_response (\<lambda>i. lookup c1 i \<noteq> None) (emitter c1) ev evs"
proof -
  let ?b = "snd (spec_run empty_book pre)" and ?h = "fst (spec_run empty_book pre)"
  from flow_prefix [OF flow_state_init [OF assms(1,2)] assms(3)] obtain k L where
    pre: "list_all input_event_int64 pre" "flow_state p k L ?b ?h (ev # post)" by auto
  from clob_run_represents [OF represents_init pre(1)] obtain c1 where
    c1: "clob_run clob_init pre = Some c1" "represents c1 ?b" "emitter c1 = ?h" by (auto simp: clob_init_def)
  note one = flow_step [OF pre(2) assms(3)]
  from clob_step_represents [OF c1(2) one(1)] obtain c2 where
    c2: "clob_step c1 ev = Some c2" "emitter c2 = emitter c1 @ fst (spec_step ?b ev)" by auto
  have "lookup c1 i \<noteq> None \<longleftrightarrow> i \<in> set (resting_ids ?b)" for i
    using c1(2) book_rep_lookup unfolding represents_def by blast
  with one(2) c1(1,3) c2 show ?thesis by auto
qed

text \<open>
  C36: the book on the generated flow. For every arithmetic and every random engine with draws in range, the pointer-level book processes
  the whole flow, and at each of its events does what the flow asks for: it rejects no add; it carries out a cancel of
  an order that the lookup still finds; and a cancel that it does not carry out is of an order that is
  no longer resting because it was reported as filled before, and is answered by exactly one rejection as unknown.
\<close>

theorem generated_flow_accepted:
  assumes "draws_in_range R" "profile_ok p" "int n \<le> int64_max"
  shows "\<exists>es g c. generate F R n (order_generator_init F R p) = Some (es, g) \<and> length es = n \<and> clob_run clob_init es = Some c \<and>
    (\<forall>pre ev post. es = pre @ ev # post \<longrightarrow>
       (\<exists>c1 c2 evs. clob_run clob_init pre = Some c1 \<and> clob_step c1 ev = Some c2 \<and> emitter c2 = emitter c1 @ evs \<and>
          flow_response (\<lambda>i. lookup c1 i \<noteq> None) (emitter c1) ev evs))"
proof -
  obtain es g where es: "generate F R n (order_generator_init F R p) = Some (es, g)" "length es = n" "order_flow p 0 {} es"
    using generate_flow [OF assms(1,2), of n F] assms(3) by auto
  then obtain c where "clob_run clob_init es = Some c"
    using clob_run_represents [OF represents_init flow_int64 [OF es(3) _ assms(2)]] assms(3) by auto
  with es assms(2,3) flow_event_on_book [of p] show ?thesis by blast
qed

theorem generated_flow_accepted_witness:
  "\<exists>es g c. generate rat_ops middle_draws 4 (order_generator_init rat_ops middle_draws (profile_sweep id)) = Some (es, g) \<and>
     length es = 4 \<and> clob_run clob_init es = Some c \<and>
     (\<exists>c2. clob_step clob_init (hd es) = Some c2 \<and> flow_response (\<lambda>i. False) [] (hd es) (emitter c2))"
proof -
  have "profile_ok (profile_sweep id :: rat market_profile_t)" by (simp add: profile_ok_def int32_def profile_sweep_def)
  from generated_flow_accepted [OF middle_draws_in_range this, of 4 rat_ops] obtain es g c where
    es: "generate rat_ops middle_draws 4 (order_generator_init rat_ops middle_draws (profile_sweep id)) = Some (es, g)" "length es = 4"
      "clob_run clob_init es = Some c"
    and all: "\<And>pre ev post. es = pre @ ev # post \<Longrightarrow>
      \<exists>c1 c2 evs. clob_run clob_init pre = Some c1 \<and> clob_step c1 ev = Some c2 \<and> emitter c2 = emitter c1 @ evs \<and>
        flow_response (\<lambda>i. lookup c1 i \<noteq> None) (emitter c1) ev evs" by auto
  have "es = [] @ hd es # tl es" using es(2) by (cases es) auto
  from all [OF this] es show ?thesis by (auto simp: clob_init_def)
qed

end
