(* ===== verification/Bench_Harness.thy ===== *)
theory Bench_Harness
  imports Bench_Agents Flow_Book Clob_Memory Agent_System
begin

text \<open>
  A preset of the benchmark (\<^verbatim>\<open>run_preset\<close> of \<^verbatim>\<open>benchmark.hpp\<close>): generate the events once, then per iteration build
  a fresh book, warm it up, run the three agents on the rest, and add up orders, trades, time and
  latency. The schedule of the agents and the readings of the clocks are free, so a run is a
  relation; its totals do not depend on either.
\<close>

section \<open>The events\<close>

text \<open>
  \<^verbatim>\<open>std::vector::reserve\<close> for events. An event is a variant of three alternatives, the largest of five fields in 40 bytes, and takes
  48; a vector of them holds at most two to the 63 less one over 48. Beyond that the request is a \<^verbatim>\<open>std::length_error\<close>, below it one for the
  allocator, of which \<open>alloc\<close> says whether it serves that many bytes; if not, it is a \<^verbatim>\<open>std::bad_alloc\<close>.
\<close>

definition sizeof_input_event :: "64 word" where
  "sizeof_input_event = 48"

definition event_vector_max_size :: "64 word" where
  "event_vector_max_size = 9223372036854775807 div sizeof_input_event"

definition reserve_events :: "(64 word \<Rightarrow> bool) \<Rightarrow> 64 word \<Rightarrow> library_exception option" where
  "reserve_events alloc n =
     (if event_vector_max_size < n then Some length_error
      else if alloc (n * sizeof_input_event) then None else Some bad_alloc)"

definition pre_generate ::
    "'d double_ops \<Rightarrow> ('d, 'g) random_ops \<Rightarrow> (64 word \<Rightarrow> bool) \<Rightarrow> ('d, 'g) order_generator_t \<Rightarrow> 64 word \<Rightarrow>
     (library_exception + input_event_t list) option" where
  "pre_generate F R alloc gen warmup =
     (let total_events = warmup + num_orders (gen_profile gen)
      in case reserve_events alloc total_events of
           Some e \<Rightarrow> Some (Inl e)
         | None \<Rightarrow> map_option (Inr \<circ> fst) (generate F R (unat total_events) gen))"

section \<open>One iteration\<close>

record 'd preset_result_t =
  result_profile :: "'d market_profile_t"
  total_orders :: "64 word"
  mean_orders_per_sec :: 'd
  mean_trades_per_sec :: 'd
  total_elapsed_ns :: 'd
  total_trades :: "64 word"
  result_latency :: "'d latency_stats_t"

definition preset_result_init :: "'d double_ops \<Rightarrow> 'd market_profile_t \<Rightarrow> 'd preset_result_t" where
  "preset_result_init F profile =
     \<lparr>result_profile = profile, total_orders = 0, mean_orders_per_sec = fp_lit F 0, mean_trades_per_sec = fp_lit F 0,
      total_elapsed_ns = fp_lit F 0, total_trades = 0, result_latency = latency_stats_init F\<rparr>"

datatype bench_loop_t = producer_loop | bench_matcher_loop | stats_loop

definition bench_agents :: "benchmark_config_t \<Rightarrow> bench_loop_t agent_t list" where
  "bench_agents cfg =
     [make_agent producer_loop (producer_cpu cfg), make_agent bench_matcher_loop (bench_matcher_cpu cfg),
      make_agent stats_loop (stats_cpu cfg)]"

text \<open>The loop state of \<^verbatim>\<open>run_preset\<close>, with the timer of its thread and what was done with threads.\<close>

record ('d, 'g) preset_state =
  agg :: "'d preset_result_t"
  latency_global :: "('d, 'g) latency_accumulator_t"
  main_timer :: "'d bench_timer_t"
  thread_log :: "bench_loop_t action list"

definition bench_queue_capacity_v :: "64 word" where
  "bench_queue_capacity_v = push_bit 16 1"

definition default_book_capacity :: "64 word" where
  "default_book_capacity = 4000000"

text \<open>
  The warm-up reads \<open>events[i]\<close> for every index below the number of warm-up events: outside the
  vector there is no result. A new thread has its own readings of the counter and shares
  the calibrated factor.
\<close>

definition warm_book :: "input_event_t list \<Rightarrow> 64 word \<Rightarrow> clob_t option" where
  "warm_book events warmup =
     (if unat warmup \<le> length events
      then clob_run (snd (clob_factory_create default_book_capacity)) (take (unat warmup) events) else None)"

definition thread_timer :: "'d bench_timer_t \<Rightarrow> 'd bench_timer_t" where
  "thread_timer t = t\<lparr>tsc_reads := 0, wall_reads := 0\<rparr>"

inductive preset_iteration ::
    "'d double_ops \<Rightarrow> ('d, 'g) random_ops \<Rightarrow> clock_env \<Rightarrow> benchmark_config_t \<Rightarrow> 'd market_profile_t \<Rightarrow> input_event_t list \<Rightarrow>
     ('d, 'g) preset_state \<Rightarrow> ('d, 'g) preset_state \<Rightarrow> bool"
  for F R E0 cfg profile events where
  iteration:
    "warm_book events (warmup_events cfg) = Some book \<Longrightarrow>
     bench_mark F E0 (main_timer st) = Some (window_start, t1) \<Longrightarrow>
     (bench_step F R E (collect_latency cfg) bench_queue_capacity_v)\<^sup>*\<^sup>*
       (bench_init F bench_queue_capacity_v events (warmup_events cfg) book (thread_timer t1) (latency_global st)) s \<Longrightarrow>
     all_joined s \<Longrightarrow> sink s = Some acc \<Longrightarrow>
     bench_elapsed_ns F E0 window_start t1 = Some (window_ns, t2) \<Longrightarrow>
     system = system_join (system_start (make_agent_system (bench_agents cfg))) \<Longrightarrow>
     preset_iteration F R E0 cfg profile events st
       \<lparr>agg = (agg st)\<lparr>total_orders := total_orders (agg st) + num_orders profile,
                total_trades := total_trades (agg st) + bm_trades (matcher_book s),
                total_elapsed_ns := fp_add F (total_elapsed_ns (agg st)) window_ns\<rparr>,
        latency_global = acc, main_timer = t2, thread_log = thread_log st @ actions system\<rparr>"

section \<open>A preset\<close>

text \<open>The rates, when any time was measured.\<close>

definition finish_rates :: "'d double_ops \<Rightarrow> 'd preset_result_t \<Rightarrow> 'd preset_result_t" where
  "finish_rates F r =
     (if fp_less F (fp_lit F 0) (total_elapsed_ns r)
      then (let secs = fp_div F (total_elapsed_ns r) (fp_lit F 1000000000)
            in r\<lparr>mean_orders_per_sec := fp_div F (fp_of_int F (uint (total_orders r))) secs,
                 mean_trades_per_sec := fp_div F (fp_of_int F (uint (total_trades r))) secs\<rparr>)
      else r)"

text \<open>A run of a preset ends with its result, the actions on threads and the timer, or with the exception of the reservation.\<close>

inductive run_preset ::
    "'d double_ops \<Rightarrow> ('d, 'g) random_ops \<Rightarrow> (64 word \<Rightarrow> bool) \<Rightarrow> clock_env \<Rightarrow> 'd market_profile_t \<Rightarrow> benchmark_config_t \<Rightarrow>
     'd bench_timer_t \<Rightarrow> library_exception + 'd preset_result_t \<times> bench_loop_t action list \<times> 'd bench_timer_t \<Rightarrow> bool"
  for F R alloc E0 profile cfg t0 where
  preset_run:
    "benchmark_timer_init F E0 t0 = Some t \<Longrightarrow>
     pre_generate F R alloc (order_generator_init F R profile) (warmup_events cfg) = Some (Inr events) \<Longrightarrow>
     (preset_iteration F R E0 cfg profile events ^^ unat (iterations cfg))
       \<lparr>agg = preset_result_init F profile, latency_global = latency_accumulator_init F R (profile_seed profile),
        main_timer = t, thread_log = []\<rparr> st \<Longrightarrow>
     snapshot F (latency_global st) = Some latency \<Longrightarrow>
     run_preset F R alloc E0 profile cfg t0
       (Inr ((finish_rates F (agg st))\<lparr>result_latency := latency\<rparr>, thread_log st, main_timer st))"
| preset_throws:
    "benchmark_timer_init F E0 t0 = Some t \<Longrightarrow>
     pre_generate F R alloc (order_generator_init F R profile) (warmup_events cfg) = Some (Inl e) \<Longrightarrow>
     run_preset F R alloc E0 profile cfg t0 (Inl e)"

section \<open>The generated events\<close>

lemma order_flow_plain: "order_flow p k L es \<Longrightarrow> shutdown_in \<notin> set es"
  by (induction p k L es rule: order_flow.induct) simp_all

lemma preset_flow:
  assumes "draws_in_range R" "profile_ok p" "unat warmup + unat (num_orders p) < 2 ^ 63"
  shows "\<exists>events g. generate F R (unat (warmup + num_orders p)) (order_generator_init F R p) = Some (events, g) \<and>
    length events = unat warmup + unat (num_orders p) \<and> list_all input_event_int64 events \<and> shutdown_in \<notin> set events"
proof -
  have s: "unat (warmup + num_orders p) = unat warmup + unat (num_orders p)"
    using assms(3) by (simp add: unat_word_ariths)
  let ?n = "unat (warmup + num_orders p)"
  have "?n \<le> 9223372036854775807" using assms(3) s by simp
  then have n: "int ?n \<le> int64_max" by linarith
  then obtain es g where es: "generate F R ?n (order_generator_init F R p) = Some (es, g)" "length es = ?n" "order_flow p 0 {} es"
    using generate_flow [OF assms(1,2), of ?n F] by auto
  moreover have "list_all input_event_int64 es"
    using flow_int64 [OF es(3) _ assms(2)] es(2) n by simp
  ultimately show ?thesis using s order_flow_plain by auto
qed

lemma pre_generate_init:
  "pre_generate F R alloc (order_generator_init F R p) warmup =
     (case reserve_events alloc (warmup + num_orders p) of
        Some e \<Rightarrow> Some (Inl e)
      | None \<Rightarrow> map_option (Inr \<circ> fst) (generate F R (unat (warmup + num_orders p)) (order_generator_init F R p)))"
proof -
  have "gen_profile (order_generator_init F R p) = p" by (simp add: order_generator_init_def)
  then show ?thesis by (simp add: pre_generate_def Let_def)
qed

text \<open>
  The sum of warm-up and orders is computed in 64 bits: when it wraps there are fewer events than the warm-up
  asks for, and the warm-up runs off the end of them.
\<close>

lemma warmup_overflow:
  assumes "num_orders p = 2" "pre_generate F R alloc (order_generator_init F R p) 18446744073709551615 = Some (Inr events)"
  shows "length events = 1" "warm_book events 18446744073709551615 = None"
proof -
  show "length events = 1"
    using assms by (auto simp: pre_generate_init generator.run_length split: option.splits)
  then show "warm_book events 18446744073709551615 = None" by (simp add: warm_book_def)
qed

section \<open>What an iteration adds\<close>

text \<open>The trades of the book on the events after the warm-up.\<close>

definition measured_trades :: "input_event_t list \<Rightarrow> nat \<Rightarrow> nat" where
  "measured_trades events w =
     length (trades_of (fst (spec_run (snd (spec_run empty_book (take w events))) (drop w events))))"

definition bench_threads :: "benchmark_config_t \<Rightarrow> bench_loop_t action list" where
  "bench_threads cfg =
     [Spawn (thread_body (make_agent producer_loop (producer_cpu cfg))),
      Spawn (thread_body (make_agent bench_matcher_loop (bench_matcher_cpu cfg))),
      Spawn (thread_body (make_agent stats_loop (stats_cpu cfg))),
      Await stats_loop, Await bench_matcher_loop, Await producer_loop]"

lemma bench_system_threads:
  "actions (system_join (system_start (make_agent_system (bench_agents cfg)))) = bench_threads cfg"
  using system_lifecycle [of "bench_agents cfg"] by (simp add: Let_def bench_agents_def make_agent_def bench_threads_def)

lemma bench_queue_valid: "valid_capacity bench_queue_capacity_v"
  by code_simp

lemma warm_book_represents:
  assumes "list_all input_event_int64 events" "unat warmup \<le> length events"
  shows "\<exists>book. warm_book events warmup = Some book \<and> represents book (snd (spec_run empty_book (take (unat warmup) events)))"
proof -
  have "list_all input_event_int64 (take (unat warmup) events)"
    using assms(1) by (auto simp: list_all_iff dest: in_set_takeD)
  from clob_run_represents [OF represents_init this] assms(2) show ?thesis
    by (auto simp: warm_book_def clob_factory_create_def)
qed

lemma bench_mark_calibrated:
  "calibrated t \<Longrightarrow> \<exists>m t1. bench_mark F E t = Some (m, t1) \<and> calibrated t1"
  by (simp add: bench_mark_def init_once_calibrated tsc_read_serialized_def rdtsc_def)

lemma bench_elapsed_calibrated:
  "calibrated t \<Longrightarrow> \<exists>ns t1. bench_elapsed_ns F E m t = Some (ns, t1) \<and> calibrated t1"
  by (simp add: bench_elapsed_ns_def bench_elapsed_cycles_def init_once_calibrated tsc_read_serialized_def rdtsc_def)

text \<open>What holds after \<open>n\<close> iterations.\<close>

definition samples_per_iteration :: "benchmark_config_t \<Rightarrow> input_event_t list \<Rightarrow> nat" where
  "samples_per_iteration cfg events = (if collect_latency cfg then length events - unat (warmup_events cfg) else 0)"

definition iterations_done ::
    "'d double_ops \<Rightarrow> benchmark_config_t \<Rightarrow> 'd market_profile_t \<Rightarrow> input_event_t list \<Rightarrow> nat \<Rightarrow> ('d, 'g) preset_state \<Rightarrow> bool" where
  "iterations_done F cfg profile events n st \<longleftrightarrow>
     total_orders (agg st) = of_nat n * num_orders profile \<and>
     total_trades (agg st) = of_nat (n * measured_trades events (unat (warmup_events cfg))) \<and>
     result_profile (agg st) = profile \<and> thread_log st = concat (replicate n (bench_threads cfg)) \<and>
     calibrated (main_timer st) \<and>
     (\<exists>vs. reservoir_inv F vs (latency_global st) \<and> length vs = n * samples_per_iteration cfg events)"

text \<open>What the events of a preset satisfy.\<close>

definition events_ok :: "benchmark_config_t \<Rightarrow> input_event_t list \<Rightarrow> bool" where
  "events_ok cfg events \<longleftrightarrow>
     list_all input_event_int64 events \<and> shutdown_in \<notin> set events \<and> unat (warmup_events cfg) \<le> length events"

text \<open>The samples of one iteration, by the readings of the matcher's counter.\<close>

definition iteration_pings ::
    "'d double_ops \<Rightarrow> clock_env \<Rightarrow> 'd bench_timer_t \<Rightarrow> benchmark_config_t \<Rightarrow> input_event_t list \<Rightarrow> 'd list" where
  "iteration_pings F E t cfg events =
     (if collect_latency cfg then map (ping_ns F E t) [0..<length (drop (unat (warmup_events cfg)) events)] else [])"

lemma iteration_pings_length [simp]: "length (iteration_pings F E t cfg events) = samples_per_iteration cfg events"
  by (simp add: iteration_pings_def samples_per_iteration_def)

lemma iteration_samples:
  assumes "draws_in_range R" "iterations_done F cfg profile events n st" "Suc n * samples_per_iteration cfg events < 2 ^ 64"
  obtains acc vs where "acc_add_all F R (iteration_pings F E t cfg events) (latency_global st) = Some acc"
    "reservoir_inv F vs acc" "length vs = Suc n * samples_per_iteration cfg events"
proof -
  let ?ps = "iteration_pings F E t cfg events"
  from assms(2) obtain vs where vs: "reservoir_inv F vs (latency_global st)" "length vs = n * samples_per_iteration cfg events"
    by (auto simp: iterations_done_def)
  have n: "length vs + length ?ps < 2 ^ 64" "length (vs @ ?ps) = Suc n * samples_per_iteration cfg events"
    using vs(2) assms(3) by simp_all
  from acc_add_all_reservoir_from [OF assms(1) vs(1) n(1)] n(2) that show thesis by blast
qed

lemma iteration_done:
  assumes "preset_iteration F R E0 cfg profile events st st'" "iterations_done F cfg profile events n st"
    and "draws_in_range R" "events_ok cfg events" "Suc n * samples_per_iteration cfg events < 2 ^ 64"
  shows "iterations_done F cfg profile events (Suc n) st'"
  using assms(1)
proof cases
  case (iteration book window_start t1 E s acc window_ns t2 system)
  let ?w = "unat (warmup_events cfg)"
  have ev: "list_all input_event_int64 events" "shutdown_in \<notin> set events" "?w \<le> length events"
    using assms(4) by (simp_all add: events_ok_def)
  have cal: "calibrated (main_timer st)" using assms(2) by (simp add: iterations_done_def)
  have b: "represents book (snd (spec_run empty_book (take ?w events)))"
    using warm_book_represents [OF ev(1,3)] iteration(2) by simp
  have t1: "calibrated t1" using bench_mark_calibrated [OF cal, of F E0] iteration(3) by simp
  then have "calibrated (thread_timer t1)" by (simp add: thread_timer_def)
  note fin = bench_final [OF bench_queue_valid this b ev(1,2) iteration(4,5)]
  have "\<exists>vs. reservoir_inv F vs acc \<and> length vs = Suc n * samples_per_iteration cfg events"
    by (rule iteration_samples [OF assms(3,2,5), of E "thread_timer t1"])
      (use fin(2) iteration(6) in \<open>auto simp: iteration_pings_def\<close>)
  moreover have "calibrated t2" using bench_elapsed_calibrated [OF t1, of F E0 window_start] iteration(7) by simp
  moreover have "concat (replicate n (bench_threads cfg)) @ bench_threads cfg = concat (replicate (Suc n) (bench_threads cfg))"
    by (metis concat_append concat.simps append_Nil2 replicate_Suc replicate_append_same)
  ultimately show ?thesis using assms(2) fin(1) iteration(1,8)
    by (simp add: iterations_done_def bench_system_threads measured_trades_def algebra_simps)
qed

lemma iteration_exists:
  assumes "iterations_done F cfg profile events n st" "draws_in_range R" "events_ok cfg events"
    and "Suc n * samples_per_iteration cfg events < 2 ^ 64"
  shows "\<exists>st'. preset_iteration F R E0 cfg profile events st st'"
proof -
  let ?w = "unat (warmup_events cfg)" and ?b = "snd (spec_run empty_book (take (unat (warmup_events cfg)) events))"
  have ev: "list_all input_event_int64 events" "shutdown_in \<notin> set events" "?w \<le> length events"
    using assms(3) by (simp_all add: events_ok_def)
  have cal: "calibrated (main_timer st)" using assms(1) by (simp add: iterations_done_def)
  obtain book where book: "warm_book events (warmup_events cfg) = Some book" "represents book ?b"
    using warm_book_represents [OF ev(1,3)] by blast
  obtain m t1 where m: "bench_mark F E0 (main_timer st) = Some (m, t1)" and t1: "calibrated t1"
    using bench_mark_calibrated [OF cal] by blast
  then have tt: "calibrated (thread_timer t1)" by (simp add: thread_timer_def)
  from bench_joins [OF bench_queue_valid tt book(2) ev(1,2) rtranclp.rtrancl_refl] obtain s where
    s: "(bench_step F R E0 (collect_latency cfg) bench_queue_capacity_v)\<^sup>*\<^sup>*
       (bench_init F bench_queue_capacity_v events (warmup_events cfg) book (thread_timer t1) (latency_global st)) s"
      "all_joined s" by blast
  note fin = bench_final [OF bench_queue_valid tt book(2) ev(1,2) s]
  obtain acc where "sink s = Some acc"
    by (rule iteration_samples [OF assms(2,1,4), of E0 "thread_timer t1"]) (use fin(2) in \<open>auto simp: iteration_pings_def\<close>)
  moreover obtain ns t2 where "bench_elapsed_ns F E0 m t1 = Some (ns, t2)" using bench_elapsed_calibrated [OF t1] by blast
  ultimately show ?thesis using iteration [OF book(1) m s] by blast
qed

section \<open>All iterations\<close>

lemma iterations_reach:
  assumes "draws_in_range R" "events_ok cfg events" "n * samples_per_iteration cfg events < 2 ^ 64"
    and "iterations_done F cfg profile events 0 st0"
  shows "(preset_iteration F R E0 cfg profile events ^^ n) st0 st \<Longrightarrow> iterations_done F cfg profile events n st"
    "\<exists>st. (preset_iteration F R E0 cfg profile events ^^ n) st0 st"
  using assms(3)
proof (atomize (full), induction n arbitrary: st)
  case 0
  then show ?case using assms(4) by auto
next
  case (Suc n)
  have n: "n * samples_per_iteration cfg events < 2 ^ 64" using Suc.prems by simp
  have "iterations_done F cfg profile events (Suc n) st"
    if "(preset_iteration F R E0 cfg profile events ^^ Suc n) st0 st" for st
    using that Suc.IH n iteration_done [OF _ _ assms(1,2) Suc.prems] by (auto elim!: relcomppE)
  moreover from Suc.IH n obtain st1 where "(preset_iteration F R E0 cfg profile events ^^ n) st0 st1"
    "iterations_done F cfg profile events n st1" by blast
  with iteration_exists [OF this(2) assms(1,2) Suc.prems, of E0] have
    "\<exists>st. (preset_iteration F R E0 cfg profile events ^^ Suc n) st0 st" by (metis relpowp_Suc_I)
  ultimately show ?case by blast
qed

lemma finish_rates_totals [simp]:
  "result_profile (finish_rates F r) = result_profile r" "total_orders (finish_rates F r) = total_orders r"
  "total_trades (finish_rates F r) = total_trades r"
  by (simp_all add: finish_rates_def Let_def)

lemma preset_start:
  assumes "calibrated t"
  shows "iterations_done F cfg profile events 0
    \<lparr>agg = preset_result_init F profile, latency_global = latency_accumulator_init F R seed, main_timer = t, thread_log = []\<rparr>"
  using assms reservoir_inv_init by (auto simp: iterations_done_def preset_result_init_def)

lemma snapshot_samples:
  assumes "fp_index_laws F" "iterations_done F cfg profile events n st"
  shows "\<exists>l. snapshot F (latency_global st) = Some l \<and> sample_count l = of_nat (n * samples_per_iteration cfg events)"
proof -
  from assms(2) obtain vs where vs: "reservoir_inv F vs (latency_global st)" "length vs = n * samples_per_iteration cfg events"
    by (auto simp: iterations_done_def)
  then have "unat (acc_count (latency_global st)) = n * samples_per_iteration cfg events" by (simp add: reservoir_inv_def)
  moreover have "acc_count (latency_global st) = of_nat (unat (acc_count (latency_global st)))" by simp
  ultimately have "acc_count (latency_global st) = of_nat (n * samples_per_iteration cfg events)" by metis
  with snapshot_total [OF assms(1), of "latency_global st"] vs(1) show ?thesis by (auto simp: reservoir_inv_def)
qed

text \<open>The bounds under which the counters of a preset do not wrap.\<close>

definition preset_countable :: "benchmark_config_t \<Rightarrow> 'd market_profile_t \<Rightarrow> bool" where
  "preset_countable cfg p \<longleftrightarrow>
     unat (warmup_events cfg) + unat (num_orders p) < 2 ^ 63 \<and> unat (iterations cfg) * unat (num_orders p) < 2 ^ 64"

text \<open>What a run of a preset reports, in terms of its input alone.\<close>

definition preset_reports ::
    "'d double_ops \<Rightarrow> ('d, 'g) random_ops \<Rightarrow> benchmark_config_t \<Rightarrow> 'd market_profile_t \<Rightarrow> 'd preset_result_t \<Rightarrow> bool" where
  "preset_reports F R cfg p r \<longleftrightarrow>
     (\<exists>events g. generate F R (unat (warmup_events cfg + num_orders p)) (order_generator_init F R p) = Some (events, g) \<and>
        result_profile r = p \<and> total_orders r = iterations cfg * num_orders p \<and>
        total_trades r = of_nat (unat (iterations cfg) * measured_trades events (unat (warmup_events cfg))) \<and>
        sample_count (result_latency r) = (if collect_latency cfg then iterations cfg * num_orders p else 0))"

text \<open>The exception of a preset, if there is one: its events do not fit.\<close>

definition preset_failure :: "(64 word \<Rightarrow> bool) \<Rightarrow> benchmark_config_t \<Rightarrow> 'd market_profile_t \<Rightarrow> library_exception option" where
  "preset_failure alloc cfg p = reserve_events alloc (warmup_events cfg + num_orders p)"

text \<open>What every run of a preset ends with.\<close>

definition preset_outcome ::
    "'d double_ops \<Rightarrow> ('d, 'g) random_ops \<Rightarrow> (64 word \<Rightarrow> bool) \<Rightarrow> benchmark_config_t \<Rightarrow> 'd market_profile_t \<Rightarrow>
     library_exception + 'd preset_result_t \<times> bench_loop_t action list \<times> 'd bench_timer_t \<Rightarrow> bool" where
  "preset_outcome F R alloc cfg p out \<longleftrightarrow>
     (case preset_failure alloc cfg p of
        Some e \<Rightarrow> out = Inl e
      | None \<Rightarrow> \<exists>r threads t1. out = Inr (r, threads, t1) \<and> preset_reports F R cfg p r \<and>
          threads = concat (replicate (unat (iterations cfg)) (bench_threads cfg)) \<and> calibrated t1)"

lemma preset_runs:
  assumes "draws_in_range R" "fp_index_laws F" "profile_ok p" "preset_countable cfg p" "benchmark_timer_init F E0 t0 = Some t"
  shows "\<exists>out. run_preset F R alloc E0 p cfg t0 out" "run_preset F R alloc E0 p cfg t0 out \<Longrightarrow> preset_outcome F R alloc cfg p out"
proof -
  let ?n = "unat (iterations cfg)"
  obtain events g where ev: "generate F R (unat (warmup_events cfg + num_orders p)) (order_generator_init F R p) = Some (events, g)"
    "length events = unat (warmup_events cfg) + unat (num_orders p)" "events_ok cfg events"
    using preset_flow [OF assms(1,3), of "warmup_events cfg" F] assms(4) by (auto simp: events_ok_def preset_countable_def)
  have pre: "pre_generate F R alloc (order_generator_init F R p) (warmup_events cfg) =
      Some (case preset_failure alloc cfg p of Some e \<Rightarrow> Inl e | None \<Rightarrow> Inr events)"
    by (simp add: pre_generate_init preset_failure_def ev(1) split: option.split)
  have samples: "samples_per_iteration cfg events = (if collect_latency cfg then unat (num_orders p) else 0)"
    by (simp add: samples_per_iteration_def ev(2))
  then have bound: "?n * samples_per_iteration cfg events < 2 ^ 64" using assms(4) by (simp add: preset_countable_def)
  have "calibrated t" using assms(5) init_once_sets by (auto simp: benchmark_timer_init_def)
  note reach = iterations_reach [OF assms(1) ev(3) bound preset_start [OF this]]
  show "\<exists>out. run_preset F R alloc E0 p cfg t0 out"
  proof (cases "preset_failure alloc cfg p")
    case None
    then show ?thesis using reach snapshot_samples [OF assms(2)] preset_run [OF assms(5) pre [unfolded None option.case]] by meson
  next
    case (Some e)
    then show ?thesis using preset_throws [OF assms(5) pre [unfolded Some option.case]] by blast
  qed
  show "preset_outcome F R alloc cfg p out" if "run_preset F R alloc E0 p cfg t0 out"
    using that
  proof cases
    case (preset_run t' events' st latency)
    then have e: "t' = t" "events' = events" "preset_failure alloc cfg p = None" using assms(5) pre by (auto split: option.splits)
    with preset_run(4) reach(1) have d: "iterations_done F cfg p events ?n st" by simp
    with snapshot_samples [OF assms(2) d] samples preset_run(1,5) ev(1) e(3) show ?thesis
      by (auto simp: iterations_done_def preset_reports_def preset_outcome_def)
  next
    case (preset_throws t' e)
    with pre show ?thesis by (auto simp: preset_outcome_def split: option.splits)
  qed
qed

section \<open>Properties of a preset\<close>

text \<open>
  C35: a preset of the benchmark runs to its end and its totals depend on neither the schedule of the
  agents nor the clocks. For a profile in range whose counters do not wrap there is a run once the
  timer is calibrated. When there is no room for the events every run ends with the exception of the reservation; otherwise every
  run reports the profile it was given, the number of orders times
  the number of iterations, the trades of the book on the generated events after the warm-up times the number
  of iterations, and as many samples as orders, or none when latency is not collected; and each iteration
  spawns the producer, the matcher and the statistics agent in this order and waits for them in reverse.
\<close>

theorem preset_totals:
  assumes "draws_in_range R" "fp_index_laws F" "profile_ok p" "preset_countable cfg p" "benchmark_timer_init F E0 t0 = Some t"
  shows "(\<exists>out. run_preset F R alloc E0 p cfg t0 out) \<and>
    (\<forall>out. run_preset F R alloc E0 p cfg t0 out \<longrightarrow>
       (case reserve_events alloc (warmup_events cfg + num_orders p) of
          Some e \<Rightarrow> out = Inl e
        | None \<Rightarrow> \<exists>r threads t1. out = Inr (r, threads, t1) \<and> preset_reports F R cfg p r \<and>
            threads = concat (replicate (unat (iterations cfg)) (bench_threads cfg))))"
  using preset_runs [OF assms] unfolding preset_outcome_def preset_failure_def by (fastforce split: option.splits)

theorem preset_totals_witness:
  "\<exists>r threads t1. run_preset rat_ops middle_draws (\<lambda>_. True) ticking_clock ((profile_quiet_build id)\<lparr>num_orders := 3\<rparr>)
     (benchmark_config_init\<lparr>warmup_events := 2, iterations := 2\<rparr>)
     \<lparr>tsc_reads = 0, wall_reads = 0, ns_per_cycle = 1, calibrated = True\<rparr> (Inr (r, threads, t1)) \<and>
   total_orders r = 6 \<and> sample_count (result_latency r) = 6 \<and> length threads = 12"
proof -
  let ?t = "\<lparr>tsc_reads = 0, wall_reads = 0, ns_per_cycle = 1, calibrated = True\<rparr> :: rat bench_timer_t"
  let ?p = "(profile_quiet_build id)\<lparr>num_orders := 3\<rparr>" and ?cfg = "benchmark_config_init\<lparr>warmup_events := 2, iterations := 2\<rparr>"
  have p: "profile_ok ?p" "preset_countable ?cfg ?p"
    by (simp_all add: profile_ok_def int32_def profile_quiet_build_def preset_countable_def)
  have fits: "reserve_events (\<lambda>_. True) (warmup_events ?cfg + num_orders ?p) = None"
    by (simp add: reserve_events_def event_vector_max_size_def sizeof_input_event_def)
  have "benchmark_timer_init rat_ops ticking_clock ?t = Some ?t" by (simp add: benchmark_timer_init_def init_once_def)
  note tot = preset_totals [OF middle_draws_in_range rat_ops_index_laws p this, of "\<lambda>_. True", unfolded fits option.case]
  then obtain r threads t1 where r: "run_preset rat_ops middle_draws (\<lambda>_. True) ticking_clock ?p ?cfg ?t (Inr (r, threads, t1))"
    "preset_reports rat_ops middle_draws ?cfg ?p r" "threads = concat (replicate (unat (iterations ?cfg)) (bench_threads ?cfg))" by blast
  then have "total_orders r = 6" "sample_count (result_latency r) = 6" "length threads = 12"
    by (auto simp: preset_reports_def benchmark_config_init_def bench_threads_def length_concat sum_list_replicate)
  with r(1) show ?thesis by blast
qed

end
