(* ===== verification/Bench_Report.thy ===== *)
theory Bench_Report
  imports Bench_Harness
begin

text \<open>
  What the benchmark prints (\<^verbatim>\<open>print_preset_result\<close> of \<^verbatim>\<open>benchmark.hpp\<close>, the loop of \<^verbatim>\<open>main\<close> in
  \<^verbatim>\<open>src/benchmark.cpp\<close>) and the program as a whole: configuration, banner, one report per chosen preset.
  \<open>fixed k x\<close> stands for the decimal form of a double with \<open>k\<close> places, the format \<^verbatim>\<open>{:.kf}\<close>.
\<close>

section \<open>The report of a preset\<close>

definition print_resolved_profile :: "'d double_ops \<Rightarrow> (nat \<Rightarrow> 'd \<Rightarrow> string) \<Rightarrow> 'd market_profile_t \<Rightarrow> string" where
  "print_resolved_profile F fixed p =
     concat (map println
       [''Resolved profile:'',
        ''  seed              = '' @ format_int (uint (profile_seed p)),
        ''  num_orders        = '' @ format_int (uint (num_orders p)),
        ''  cancel_ratio      = '' @ fixed 4 (cancel_ratio p),
        ''  aggressive_ratio  = '' @ fixed 4 (aggressive_ratio p),
        ''  aggression_spread_k = '' @ fixed 4 (aggression_spread_k p),
        ''  buy_bias          = '' @ fixed 4 (buy_bias p),
        ''  mu                = '' @ fixed 6 (mu p),
        ''  sigma             = '' @ fixed 6 (sigma p),
        ''  initial_mid       = '' @ format_int (initial_mid p),
        ''  tick_size         = '' @ format_int (tick_size p),
        ''  place_decay       = '' @ fixed 4 (place_decay p),
        ''  qty_log_mean      = '' @ fixed 4 (qty_log_mean p),
        ''  qty_log_stddev    = '' @ fixed 4 (qty_log_stddev p),
        ''  qty_min/qty_max   = '' @ format_int (qty_min p) @ '' / '' @ format_int (qty_max p),
        ''  side_autocorr     = '' @ fixed 4 (side_autocorr p) @ '' ('' @
          (if fp_less F (side_autocorr p) (fp_lit F 0) then ''IID sides'' else ''persist sides'') @ '')'',
        ''  cancel_depth_lambda = '' @ fixed 4 (cancel_depth_lambda p),
        ''  heat mean/kappa/sigma = '' @ fixed 4 (heat_mean p) @ '' / '' @ fixed 4 (heat_kappa p) @ '' / '' @
          fixed 4 (heat_sigma p),
        ''  hot mul cancel/aggr/sigma = '' @ fixed 3 (hot_cancel_mul p) @ '' / '' @ fixed 3 (hot_aggressive_mul p) @ '' / '' @
          fixed 3 (hot_sigma_mul p),
        ''  half-spread ticks base/hot_extra/asym = '' @ format_int (base_half_spread_ticks p) @ '' / '' @
          format_int (hot_half_spread_extra_ticks p) @ '' / '' @ format_int (spread_asym_ticks p)])"

definition print_preset_result :: "'d double_ops \<Rightarrow> (nat \<Rightarrow> 'd \<Rightarrow> string) \<Rightarrow> 'd preset_result_t \<Rightarrow> string" where
  "print_preset_result F fixed r =
     (let p = result_profile r; l = result_latency r
      in concat (map println
           [replicate 60 CHR ''='', ''Preset: '' @ profile_name p, replicate 60 CHR ''-'']) @
         print_resolved_profile F fixed p @
         concat (map println
           [replicate 60 CHR ''-'', ''Throughput:'',
            ''  orders            = '' @ format_int (uint (total_orders r)),
            ''  trades            = '' @ format_int (uint (total_trades r)),
            ''  total elapsed     = '' @ fixed 3 (fp_div F (total_elapsed_ns r) (fp_lit F 1000000)) @ '' ms'',
            ''  orders / sec      = '' @ fixed 2 (mean_orders_per_sec r),
            ''  trades / sec      = '' @ fixed 2 (mean_trades_per_sec r),
            ''Latency (ns):'',
            ''  samples           = '' @ format_int (uint (sample_count l)),
            ''  mean              = '' @ fixed 1 (mean_ns l),
            ''  stddev            = '' @ fixed 1 (stddev_ns l),
            ''  p50 / p95 / p99   = '' @ fixed 1 (p50_ns l) @ '' / '' @ fixed 1 (p95_ns l) @ '' / '' @ fixed 1 (p99_ns l),
            []]))"

section \<open>The program\<close>

text \<open>
  The loop of \<^verbatim>\<open>main\<close> over the presets; the calibration of the timer outlives a preset, and an exception of a preset
  ends the loop.
\<close>

inductive preset_loop ::
    "'d double_ops \<Rightarrow> ('d, 'g) random_ops \<Rightarrow> (64 word \<Rightarrow> bool) \<Rightarrow> clock_env \<Rightarrow> (nat \<Rightarrow> 'd \<Rightarrow> string) \<Rightarrow> benchmark_config_t \<Rightarrow>
     'd bench_timer_t \<Rightarrow> 'd market_profile_t list \<Rightarrow> library_exception + string \<Rightarrow> bool"
  for F R alloc E0 fixed bench where
  no_preset: "preset_loop F R alloc E0 fixed bench t [] (Inr [])"
| next_preset:
    "run_preset F R alloc E0 profile bench t (Inr (result, threads, t1)) \<Longrightarrow> preset_loop F R alloc E0 fixed bench t1 profiles out \<Longrightarrow>
     preset_loop F R alloc E0 fixed bench t (profile # profiles) (map_sum id (\<lambda>out. print_preset_result F fixed result @ out) out)"
| preset_fails:
    "run_preset F R alloc E0 profile bench t (Inl e) \<Longrightarrow> preset_loop F R alloc E0 fixed bench t (profile # profiles) (Inl e)"

inductive_cases preset_loop_NilE: "preset_loop F R alloc E0 fixed bench t [] out"
inductive_cases preset_loop_ConsE: "preset_loop F R alloc E0 fixed bench t (profile # profiles) out"

text \<open>What a run of the program can end with: exit status, output and error text, or an exception.\<close>

definition benchmark_program ::
    "'d double_ops \<Rightarrow> ('d, 'g) random_ops \<Rightarrow> (64 word \<Rightarrow> bool) \<Rightarrow> clock_env \<Rightarrow> (nat \<Rightarrow> 'd \<Rightarrow> string) \<Rightarrow>
     (string list \<Rightarrow> string + 'd options_result_t) \<Rightarrow> string list \<Rightarrow>
     (bench_exception + library_exception) + (int \<times> string \<times> string) \<Rightarrow> bool" where
  "benchmark_program F R alloc E0 fixed parse_options argv outcome \<longleftrightarrow>
     (\<exists>report.
        (\<forall>config. parse_benchmark_config (fp_lit F) parse_options argv = Inr config \<longrightarrow>
           preset_loop F R alloc E0 fixed (config_benchmark config) (bench_timer_init F) (config_profiles config) (report config)) \<and>
        outcome = benchmark_main (fp_lit F) parse_options report argv)"

lemma benchmark_timer_again: "calibrated t \<Longrightarrow> benchmark_timer_init F E0 t = Some t"
  by (simp add: benchmark_timer_init_def init_once_def)

text \<open>The first preset whose events do not fit decides with which exception the loop ends.\<close>

fun first_failure :: "(64 word \<Rightarrow> bool) \<Rightarrow> benchmark_config_t \<Rightarrow> 'd market_profile_t list \<Rightarrow> library_exception option" where
  "first_failure alloc bench [] = None"
| "first_failure alloc bench (p # ps) =
     (case preset_failure alloc bench p of Some e \<Rightarrow> Some e | None \<Rightarrow> first_failure alloc bench ps)"

definition loop_outcome ::
    "'d double_ops \<Rightarrow> ('d, 'g) random_ops \<Rightarrow> (64 word \<Rightarrow> bool) \<Rightarrow> (nat \<Rightarrow> 'd \<Rightarrow> string) \<Rightarrow> benchmark_config_t \<Rightarrow>
     'd market_profile_t list \<Rightarrow> library_exception + string \<Rightarrow> bool" where
  "loop_outcome F R alloc fixed bench ps out \<longleftrightarrow>
     (case first_failure alloc bench ps of
        Some e \<Rightarrow> out = Inl e
      | None \<Rightarrow> \<exists>rs. out = Inr (concat (map (print_preset_result F fixed) rs)) \<and> list_all2 (preset_reports F R bench) ps rs)"

lemma preset_loop_runs:
  assumes "draws_in_range R" "fp_index_laws F" "list_all profile_ok ps" "list_all (preset_countable bench) ps"
    and "benchmark_timer_init F E0 t = Some t'"
  shows "\<exists>out. preset_loop F R alloc E0 fixed bench t ps out"
  using assms(3-5)
proof (induction ps arbitrary: t t')
  case Nil
  then show ?case by (auto intro: no_preset)
next
  case (Cons p ps)
  then have p: "profile_ok p" "preset_countable bench p" by simp_all
  note runs = preset_runs [OF assms(1,2) p Cons.prems(3)]
  from runs(1) obtain out where out: "run_preset F R alloc E0 p bench t out" by blast
  show ?case
  proof (cases out)
    case (Inl e)
    with out show ?thesis by (auto intro: preset_fails)
  next
    case (Inr x)
    then obtain r threads t1 where r: "run_preset F R alloc E0 p bench t (Inr (r, threads, t1))" using out by (cases x) auto
    with runs(2) have "calibrated t1" by (fastforce simp: preset_outcome_def split: option.splits)
    with Cons.IH [OF _ _ benchmark_timer_again] Cons.prems r show ?thesis by (auto intro: next_preset)
  qed
qed

lemma preset_loop_outcome:
  assumes "draws_in_range R" "fp_index_laws F" "list_all profile_ok ps" "list_all (preset_countable bench) ps"
    and "benchmark_timer_init F E0 t = Some t'" "preset_loop F R alloc E0 fixed bench t ps out"
  shows "loop_outcome F R alloc fixed bench ps out"
  using assms(3-6)
proof (induction ps arbitrary: t t' out)
  case Nil
  then show ?case by (auto simp: loop_outcome_def elim: preset_loop_NilE)
next
  case (Cons p ps)
  then have p: "profile_ok p" "preset_countable bench p" by simp_all
  note runs = preset_runs(2) [OF assms(1,2) p Cons.prems(3)]
  from Cons.prems(4) show ?case
  proof (rule preset_loop_ConsE)
    fix r threads t1 out'
    assume r: "out = map_sum id (\<lambda>out. print_preset_result F fixed r @ out) out'"
      "run_preset F R alloc E0 p bench t (Inr (r, threads, t1))" "preset_loop F R alloc E0 fixed bench t1 ps out'"
    from runs [OF r(2)] have rep: "preset_failure alloc bench p = None" "preset_reports F R bench p r" "calibrated t1"
      by (auto simp: preset_outcome_def split: option.splits)
    have "loop_outcome F R alloc fixed bench ps out'"
      using Cons.IH [OF _ _ benchmark_timer_again [OF rep(3)] r(3)] Cons.prems(1,2) by simp
    then show ?thesis
    proof (cases "first_failure alloc bench ps")
      case None
      with \<open>loop_outcome F R alloc fixed bench ps out'\<close> obtain rs where
        "out' = Inr (concat (map (print_preset_result F fixed) rs))" "list_all2 (preset_reports F R bench) ps rs"
        by (auto simp: loop_outcome_def)
      with rep r(1) None show ?thesis by (auto simp: loop_outcome_def intro!: exI [of _ "r # rs"])
    qed (use rep r(1) in \<open>auto simp: loop_outcome_def\<close>)
  next
    fix e assume "out = Inl e" "run_preset F R alloc E0 p bench t (Inl e)"
    with runs show ?thesis by (fastforce simp: preset_outcome_def loop_outcome_def split: option.splits)
  qed
qed

section \<open>Properties of the benchmark program\<close>

text \<open>
  C34: the whole benchmark. For every accepted command line whose profiles are in range (the smallest quantity is not above the largest, without which
  \<^verbatim>\<open>std::clamp\<close> is undefined), whose counters do not wrap, and once the timer can be calibrated, the program
  has a run. When the events of every chosen preset fit, every run ends with status 0 and nothing on the standard error; its
  output is the banner followed by one report per chosen preset, in their order, and the orders,
  trades and samples each reports are those of its generated events, whatever the threads and the clocks did. Otherwise every run ends
  with the exception of the first preset whose events do not fit leaving \<^verbatim>\<open>main\<close>.
\<close>

theorem benchmark_program_correct:
  assumes "draws_in_range R" "fp_index_laws F" "benchmark_timer_init F E0 (bench_timer_init F) = Some t"
    and "parse_benchmark_config (fp_lit F) parse_options argv = Inr config"
    and "list_all profile_ok (config_profiles config)"
    and "list_all (preset_countable (config_benchmark config)) (config_profiles config)"
  shows "(\<exists>outcome. benchmark_program F R alloc E0 fixed parse_options argv outcome) \<and>
    (\<forall>outcome. benchmark_program F R alloc E0 fixed parse_options argv outcome \<longrightarrow>
       (case first_failure alloc (config_benchmark config) (config_profiles config) of
          Some e \<Rightarrow> outcome = Inl (Inr e)
        | None \<Rightarrow> \<exists>rs. outcome = Inr (0, banner config @ concat (map (print_preset_result F fixed) rs), []) \<and>
            list_all2 (preset_reports F R (config_benchmark config)) (config_profiles config) rs))"
proof -
  let ?loop = "preset_loop F R alloc E0 fixed (config_benchmark config) (bench_timer_init F) (config_profiles config)"
  obtain out where "?loop out" using preset_loop_runs [OF assms(1,2,5,6,3)] by blast
  then have "\<exists>outcome. benchmark_program F R alloc E0 fixed parse_options argv outcome"
    using assms(4) unfolding benchmark_program_def by (intro exI [of _ "benchmark_main (fp_lit F) parse_options (\<lambda>_. out) argv"]
      exI [of _ "\<lambda>_. out"]) simp
  moreover have "case first_failure alloc (config_benchmark config) (config_profiles config) of
          Some e \<Rightarrow> outcome = Inl (Inr e)
        | None \<Rightarrow> \<exists>rs. outcome = Inr (0, banner config @ concat (map (print_preset_result F fixed) rs), []) \<and>
            list_all2 (preset_reports F R (config_benchmark config)) (config_profiles config) rs"
    if "benchmark_program F R alloc E0 fixed parse_options argv outcome" for outcome
  proof -
    from that assms(4) obtain out where out: "?loop out"
      "outcome = (case out of Inr out \<Rightarrow> Inr (0, banner config @ out, []) | Inl e \<Rightarrow> Inl (Inr e))"
      by (auto simp: benchmark_program_def benchmark_main_def)
    from preset_loop_outcome [OF assms(1,2,5,6,3) out(1)] show ?thesis
      unfolding loop_outcome_def out(2) by (auto split: option.splits)
  qed
  ultimately show ?thesis by blast
qed

text \<open>A command line without options: all five presets as they are.\<close>

definition no_options :: "string list \<Rightarrow> string + rat options_result_t" where
  "no_options argv = Inr \<lparr>opt_count = \<lambda>_. 0, opt_value_of = \<lambda>_. Inl []\<rparr>"

lemma no_options_config:
  "parse_benchmark_config (fp_lit rat_ops) no_options [''benchmark''] =
     Inr \<lparr>config_benchmark = benchmark_config_init, config_profiles = all_presets (\<lambda>x. x)\<rparr>"
  by code_simp

lemma presets_in_range:
  "list_all profile_ok (all_presets lit)" "list_all (preset_countable benchmark_config_init) (all_presets lit)"
  by (simp_all add: all_presets_def preset_defs profile_ok_def int32_def preset_countable_def benchmark_config_init_def)

lemma ticking_clock_calibrates: "\<exists>t. benchmark_timer_init rat_ops ticking_clock (bench_timer_init rat_ops) = Some t"
  using calibrate_returns [of ticking_clock "bench_timer_init rat_ops" 0 rat_ops]
  by (simp add: benchmark_timer_init_def init_once_def bench_timer_init_def ticking_clock_def read_sysfs_tsc_khz_def
      wall_at_def wrap64_range)

lemma presets_fit: "first_failure (\<lambda>_. True) benchmark_config_init (all_presets lit) = None"
  by (simp add: all_presets_def preset_failure_def reserve_events_def event_vector_max_size_def sizeof_input_event_def
      preset_defs benchmark_config_init_def)

theorem benchmark_program_correct_witness:
  "\<exists>out rs. benchmark_program rat_ops middle_draws (\<lambda>_. True) ticking_clock (\<lambda>_ _. ''0'') no_options [''benchmark''] (Inr (0, out, [])) \<and>
     length rs = 5 \<and> list_all (\<lambda>r. total_orders r = 5000000) rs \<and>
     out = banner \<lparr>config_benchmark = benchmark_config_init, config_profiles = all_presets (\<lambda>x. x)\<rparr> @
       concat (map (print_preset_result rat_ops (\<lambda>_ _. ''0'')) rs)"
proof -
  obtain t where t: "benchmark_timer_init rat_ops ticking_clock (bench_timer_init rat_ops) = Some t"
    using ticking_clock_calibrates by blast
  let ?config = "\<lparr>config_benchmark = benchmark_config_init, config_profiles = all_presets (\<lambda>x :: rat. x)\<rparr>"
  have ok: "list_all profile_ok (config_profiles ?config)"
    "list_all (preset_countable (config_benchmark ?config)) (config_profiles ?config)" using presets_in_range by simp_all
  have fit: "first_failure (\<lambda>_. True) (config_benchmark ?config) (config_profiles ?config) = None" using presets_fit by simp
  note c = benchmark_program_correct [OF middle_draws_in_range rat_ops_index_laws t no_options_config ok,
      of "\<lambda>_. True" "\<lambda>_ _. ''0''", unfolded fit option.case]
  then obtain outcome rs where o: "benchmark_program rat_ops middle_draws (\<lambda>_. True) ticking_clock (\<lambda>_ _. ''0'') no_options [''benchmark''] outcome"
    "outcome = Inr (0, banner ?config @ concat (map (print_preset_result rat_ops (\<lambda>_ _. ''0'')) rs), [])"
    "list_all2 (preset_reports rat_ops middle_draws benchmark_config_init) (all_presets (\<lambda>x. x)) rs" by fastforce
  have "length rs = 5" using list_all2_lengthD [OF o(3)] by (simp add: all_presets_def)
  moreover have "list_all (\<lambda>r. total_orders r = 5000000) rs"
    using o(3) by (auto simp: all_presets_def list_all2_Cons1 preset_reports_def preset_defs benchmark_config_init_def)
  ultimately show ?thesis using o(1,2) by blast
qed

text \<open>A command line with a well-typed number of orders that no vector can hold ends with an exception that nobody catches.\<close>

lemma too_many_orders: "reserve_events alloc 9000000000000000000 = Some length_error"
  by (simp add: reserve_events_def event_vector_max_size_def sizeof_input_event_def)

end
