(* ===== verification/Spec2Isabelle.thy ===== *)
theory Spec2Isabelle
  imports Spsc_Concurrent Clob_Arena Engine_Main Bench_Report
begin

text \<open>
  A verification of the single-symbol limit-order matching engine under \<^verbatim>\<open>src/\<close> and of its benchmark.

  \<^bold>\<open>The program.\<close> The executable \<^verbatim>\<open>matching_engine\<close> reads order messages as text lines, matches them in a
  central limit order book and writes events as text lines. Three threads do the work: the reader
  parses the standard input and pushes events into a ring, the matcher pops them, runs the book
  and pushes the output events into a second ring, and the writer pops and formats them. A
  sentinel event travels through both rings to end the threads; SIGINT and SIGTERM set a global stop
  request instead. The executable \<^verbatim>\<open>benchmark\<close> drives the same book with synthetic order flow: per preset it
  generates the events, and in each iteration a producer, a matcher that times the book, and a statistics agent
  run on the same queues and event loops.

  \<^bold>\<open>Which theory models what.\<close>

  \<^item> \<open>Prelude\<close>: 64-bit arithmetic, option results, list lemmas, the lemma collections, and the
    simulation contract between an event machine and its specification as a locale, with the extension that
    carries an invariant along.
  \<^item> \<open>Messages\<close>: \<^verbatim>\<open>message_types.hpp\<close>, \<^verbatim>\<open>input_event.hpp\<close>, \<^verbatim>\<open>output_event.hpp\<close>; one constructor per
    enumerator or variant alternative, one record per struct, and the values of each enumeration listed.
  \<^item> \<open>Ladder\<close>: \<^verbatim>\<open>std::map\<close> as an association list sorted by the side's comparison, with a locale
    for the ordering and its interpretation on both sides.
  \<^item> \<open>Order_Queue\<close>: the intrusive doubly linked list of a price level in an explicit heap of nodes
    (\<^verbatim>\<open>order_node_t\<close>, \<^verbatim>\<open>price_level_t\<close>) and the relation that says which list it holds.
  \<^item> \<open>Book_Side\<close>: \<^verbatim>\<open>order_book_side_t\<close> (\<^verbatim>\<open>append\<close>, \<^verbatim>\<open>detach\<close>, \<^verbatim>\<open>best_level\<close>, \<^verbatim>\<open>fillable_quantity\<close>).
  \<^item> \<open>Clob\<close>: \<^verbatim>\<open>clob_t\<close>, one definition per method; the two matching loops are
    \<open>partial_function (option)\<close>, where \<open>None\<close> is a loop that does not return or a failed assertion.
  \<^item> \<open>Clob_Memory\<close>, \<open>Clob_Arena\<close>: the arena sizes of \<^verbatim>\<open>clob_memory_t\<close> on 64-bit words, \<^verbatim>\<open>clob_factory.hpp\<close>, and the
    monotonic resource the resting orders come from.
  \<^item> \<open>Book_Spec\<close>, \<open>Book_Matching\<close>: the abstract book, lists of orders per price with unbounded
    integers, and the trading properties proved of it.
  \<^item> \<open>Clob_Refinement\<close>, \<open>Clob_Correctness\<close>: the pointer-level book refines the abstract one
    (interpretations of the simulation contract), and the properties of the book carried over to the code's definitions.
  \<^item> \<open>Wire_Text\<close>, \<open>Input_Parser\<close>, \<open>Output_Formatter\<close>: \<^verbatim>\<open>input_parser.hpp\<close> and \<^verbatim>\<open>output_formatter.hpp\<close> over
    character lists, with a locale for a field that survives the trip over the wire.
  \<^item> \<open>Spsc_Queue\<close>, \<open>Spsc_Concurrent\<close>: \<^verbatim>\<open>spsc_queue.hpp\<close>, as sequential operations with a locale for
    bounded queues, and as an interleaving of the atomic accesses of its two threads: one definition per thread gives
    the next load or store of its operation.
  \<^item> \<open>Fair_Runs\<close>: infinite runs in which every action recurs, and a locale that turns a decreasing amount of work
    into termination of every fair run.
  \<^item> \<open>Relay\<close>: \<^verbatim>\<open>event_loop.hpp\<close> and the push loops; a source, a stage and a sink joined by two rings, each with its
    own view of the stop source, the contract of their handlers as a locale, what holds of every schedule of their turns,
    and the sublocale of \<open>Fair_Runs\<close> they give.
  \<^item> \<open>Relay_Access\<close>, \<open>Access_Progress\<close>: the same agents down to the atomic accesses of their rings, the simulation
    by the agents with whole operations, and that no state in the middle of an operation is stuck.
  \<^item> \<open>Pipeline\<close>: \<^verbatim>\<open>stream_pipeline.hpp\<close>; the handlers of the engine's three agents, the interpretation of the
    contract on them, and two step relations: \<open>engine_step\<close>, whose steps are single accesses of the threads and the arrival
    of a stop request, and \<open>pipeline_step\<close>, whose steps are whole turns.
  \<^item> \<open>Agent_System\<close>, \<open>Signal_Guard\<close>, \<open>Engine_Config\<close>: \<^verbatim>\<open>agent.hpp\<close> and \<^verbatim>\<open>agent_system.hpp\<close>,
    \<^verbatim>\<open>signal_handler.hpp\<close> and \<^verbatim>\<open>signal_handler.cpp\<close>, \<^verbatim>\<open>matching_engine_config.hpp\<close>.
  \<^item> \<open>Engine_Main\<close>: \<^verbatim>\<open>main\<close> of \<^verbatim>\<open>src/matching_engine.cpp\<close>, which puts all of these together.
  \<^item> \<open>Market_Profile\<close>, \<open>Benchmark_Config\<close>: \<^verbatim>\<open>market_profile.hpp\<close>, \<^verbatim>\<open>benchmark_config.hpp\<close> and the frame of \<^verbatim>\<open>main\<close> of
    \<^verbatim>\<open>src/benchmark.cpp\<close>.
  \<^item> \<open>Numeric_Library\<close>: the operations on doubles and the random draws as records of functions, and vectors.
  \<^item> \<open>Double_Rounding\<close>: the finite doubles, rounding to nearest, and the laws of IEEE 754 for the operations on them.
  \<^item> \<open>Order_Generator\<close>, \<open>Flow_Book\<close>: \<^verbatim>\<open>order_generator.hpp\<close>, the specification of a well-formed flow, the
    interface of a source of orders as a locale with its interpretation on the generator, and the flow on the book.
  \<^item> \<open>Latency_Stats\<close>, \<open>Bench_Timer\<close>: \<^verbatim>\<open>statistics.hpp\<close>; \<^verbatim>\<open>tsc_timer.hpp\<close>, to which \<^verbatim>\<open>benchmark_timer.hpp\<close> forwards.
  \<^item> \<open>Bench_Agents\<close>, \<open>Bench_Harness\<close>, \<open>Bench_Report\<close>: \<^verbatim>\<open>benchmark.hpp\<close>; the agents of an iteration as a second
    interpretation of the relay, the iterations of a preset, the printed report and the whole program.

  \<^bold>\<open>What is shown.\<close>

  \<^item> The book. Every handler returns, keeps the representation invariant (linked lists intact, totals and
    lookup consistent, sides sorted and uncrossed) and emits what the abstract book emits. Trades
    follow price-time priority, quantities are conserved but for the unfilled rest of a duplicate, fill-or-kill is all or nothing, immediate
    orders never rest, cancels remove exactly their order, and the add orders that are rejected are characterised exactly. The arena of a book
    serves as many add orders as its capacity, or one fewer when it does not start on a cache line.
  \<^item> The text. The parser accepts exactly the grammar of the two messages, gives the right diagnostic
    otherwise, and reads back what the wire form of an event says; output rows are one line each and
    determine the events. From text to text, the concurrent engine writes the rows of the abstract book's events.
  \<^item> The queue. First in, first out, full and empty reported exactly; every interleaving of its atomic
    accesses, with stale views of the other thread's index, pushes and pops what some sequence of whole operations does, and
    the two threads never touch the same slot.
  \<^item> The pipeline. For every interleaving of the atomic accesses the output is a prefix of that of the sequential engine,
    and equal to it when the writer leaves without having seen a stop; no reachable state, before or after a
    stop request, is a deadlock; the accesses implement turns with whole operations, and every fair run of
    turns ends with all three threads returned.
  \<^item> The programs. Exit status, output, diagnostics, order of the threads and restored signal handlers of
    every run of the engine; the sample sessions of the repository, evaluated; the exact set of accepted
    command lines of the benchmark and the configuration each gives.

  \<^item> The benchmark. Whatever doubles and random engine do, the generated flow is well formed and the book accepts
    every order of it, rejecting only cancels of orders already filled; the statistics keep a bounded reservoir of true readings, and in rounded
    arithmetic the mean stays between minimum and maximum and the second moment is not negative; intervals are exact across a wrap of the counter;
    and for every schedule and every clock a preset runs to its end with the same orders, trades and number of samples, or ends with the
    exception of the reservation of its events.

  \<^bold>\<open>Conventions.\<close> \<^verbatim>\<open>std::int64_t\<close> values are integers in range and every sum and difference goes through
  \<open>wrap64\<close>: signed overflow, undefined in C++, is given its two's complement result. \<^verbatim>\<open>std::size_t\<close> is a
  64-bit word. No fuel is used: loops are structural, have a measure, or are partial functions for which
  a result is proved. The emitter of the book is the list of events it was called with. One
  turn of an agent runs one loop iteration; the matcher's handler runs the book on an event first and then
  pushes what it emitted, which nothing outside can tell from pushing in between because
  only the matcher sees the book. The threads of the engine and of a benchmark iteration interleave at the atomic accesses of
  their rings; whole operations are an abstraction that these accesses are proved to implement, and only the
  termination of fair runs is stated on it. A token is read between operations, as the loops do. A relaxed memory
  model appears as a view of the other index, or of the stop source, that may lag behind. The ring contents are initialised
  as the constructor does. In the benchmark \<open>None\<close> stands for a violated precondition of the standard library, a loop
  that does not return, or an access outside a vector; sizes of vectors are 64-bit words.

  \<^bold>\<open>Parameters.\<close> The option parser cxxopts; the set of signals a program may handle; the conversion of
  decimal literals to doubles, the operations on doubles and their decimal form; the random engine and its distributions,
  of which only the documented range of integer draws is used; the readings of the time stamp counter and
  the clocks. Whether the allocator serves the
  reservation of the benchmark's events. The quantiles rely on order laws of doubles that are stated as \<open>fp_index_laws\<close>, and the
  moments on rounding to nearest, stated as \<open>ieee_ops\<close> and met by a rounding arithmetic on the reals; everything else holds for every arithmetic.

  \<^bold>\<open>Not modelled.\<close> The pool resource behind ladders and lookup, and failing allocation other than that of the benchmark's events; the effect of
  CPU affinity beyond the request for it; \<^verbatim>\<open>cpu_pause\<close> and flushing. The standard input is one finite text that is there from the start: blocking
  reads are not represented. Slot accesses of the rings are sequentially consistent; acquire and release appear only as views that lag.
  \<^verbatim>\<open>std::sort\<close> is one particular sort, of which only the length of the result is used. \<^verbatim>\<open>compile.cpp\<close> is a list of includes.
\<close>

section \<open>From text to text\<close>

text \<open>The input that spells out a list of events, one wire line each.\<close>

definition wire_text :: "input_event_t list \<Rightarrow> string" where
  "wire_text es = concat (map (\<lambda>e. wire_line e @ [CHR 0x0A]) es)"

lemma wire_text_stream:
  assumes "list_all (\<lambda>e. input_event_int64 e \<and> e \<noteq> shutdown_in) es"
  shows "stream_events (wire_text es) = es" "stream_diagnostics (wire_text es) = []"
proof -
  have "fold (\<lambda>e es. es @ [e]) es acc = acc @ es" for es acc :: "input_event_t list"
    by (induction es arbitrary: acc) simp_all
  with stream_roundtrip [OF assms] show "stream_events (wire_text es) = es" "stream_diagnostics (wire_text es) = []"
    by (simp_all add: wire_text_def parse_stream_fold)
qed

lemma sequential_wire_text:
  assumes "list_all (\<lambda>e. input_event_int64 e \<and> e \<noteq> shutdown_in) es"
  shows "sequential_engine (wire_text es) = Some (format_all (fst (spec_run empty_book es)), [])"
proof -
  have "format_all [shutdown_out] = []" by (simp add: output_formatter_def)
  then show ?thesis
    by (simp add: sequential_engine_spec wire_text_stream [OF assms] run_output_def spec_run_snoc del: format_all_simps(2))
qed

text \<open>
  C29: the whole engine, from text to text. On the wire lines of any events in the int64 range, every run of the three concurrent agents, whatever the
  interleaving of their atomic accesses, that ends without having seen a stop has written exactly the rows of the events that
  the abstract book gives for these events, and nothing was reported as ill-formed; and such a run exists.
\<close>

theorem engine_text_to_text:
  assumes "valid_capacity slots" "list_all (\<lambda>e. input_event_int64 e \<and> e \<noteq> shutdown_in) es"
  shows "(\<forall>f. (engine_step slots)\<^sup>*\<^sup>* (engine_init slots (wire_text es)) f \<and> writer_done f \<and> \<not> writer_stop f \<longrightarrow>
      sink f = format_all (fst (spec_run empty_book es))) \<and>
    stream_diagnostics (wire_text es) = [] \<and>
    (\<exists>f. (engine_step slots)\<^sup>*\<^sup>* (engine_init slots (wire_text es)) f \<and> writer_done f \<and> \<not> writer_stop f)"
proof -
  from engine_can_join [OF assms(1)] obtain f where
    f: "(engine_step slots)\<^sup>*\<^sup>* (engine_init slots (wire_text es)) f" "all_joined f" "\<not> stop_requested f" by blast
  with engine_token [OF assms(1) f(1)] have "writer_done f" "\<not> writer_stop f" by (simp_all add: all_joined_def)
  moreover have "sink f = format_all (fst (spec_run empty_book es))"
    if "(engine_step slots)\<^sup>*\<^sup>* (engine_init slots (wire_text es)) f" "writer_done f" "\<not> writer_stop f" for f
    using engine_final_output [OF assms(1) that] sequential_wire_text [OF assms(2)] by simp
  ultimately show ?thesis using f(1) wire_text_stream(2) [OF assms(2)] by blast
qed

theorem engine_text_to_text_witness:
  "\<exists>f. (engine_step 65536)\<^sup>*\<^sup>* (engine_init 65536 (wire_text sample_events)) f \<and> writer_done f \<and>
     sink f = format_all [order_resting_event 1 0 10, order_resting_event 2 0 5, order_resting_event 3 0 7, order_resting_event 4 0 3]"
proof -
  have "list_all (\<lambda>e. input_event_int64 e \<and> e \<noteq> shutdown_in) sample_events" by code_simp
  note all = engine_text_to_text [OF valid_capacity_main this]
  have "fst (spec_run empty_book sample_events) = [order_resting_event 1 0 10, order_resting_event 2 0 5,
      order_resting_event 3 0 7, order_resting_event 4 0 3]" by code_simp
  with all show ?thesis by metis
qed

section \<open>The sample sessions\<close>

text \<open>The sample sessions of \<^verbatim>\<open>src/res\<close>: the lines of the input, the output and the diagnostics.\<close>

definition unlines :: "string list \<Rightarrow> string" where
  "unlines ls = concat (map (\<lambda>l. l @ [CHR 0x0A]) ls)"

definition golden_samples :: "(string list \<times> string list \<times> string list) list" where
  "golden_samples =
    [([''ADD,501,BUY,5,100,GTC'', ''ADD,502,SLL,5,100,GTC''],
      [''RST,501,0,5'', ''TRD,502,501,5'', ''FIL,501,5'', ''FIL,502,5''],
      []),
     ([''ADD,201,SLL,10,50,GTC'', ''ADD,202,BUY,7,52,GTC''],
      [''RST,201,0,10'', ''TRD,202,201,7'', ''RST,201,7,3'', ''FIL,202,7''],
      []),
     ([''ADD,301,SLL,5,100,GTC'', ''ADD,302,SLL,5,100,GTC'', ''ADD,303,BUY,8,105,GTC''],
      [''RST,301,0,5'', ''RST,302,0,5'', ''TRD,303,301,5'', ''FIL,301,5'', ''TRD,303,302,3'',
       ''RST,302,3,2'', ''FIL,303,8''],
      []),
     ([''# Add then cancel; interleaved lines are ill-formed but must not stop the stream.'',
       ''ADD,401,BUY,10,95,GTC'', ''NOT_A_RECORD'', ''ADD,1,BUY,5'', ''CXL,401''],
      [''RST,401,0,10'', ''CAN,401,0,10,USR''],
      [''Unknown message type: NOT_A_RECORD'', ''Ill-formed AddOrderRequest: ADD,1,BUY,5'']),
     ([''ADD,601,SLL,10,100,GTC'', ''ADD,602,SLL,10,101,GTC'', ''ADD,603,BUY,15,105,GTC''],
      [''RST,601,0,10'', ''RST,602,0,10'', ''TRD,603,601,10'', ''FIL,601,10'',
       ''TRD,603,602,5'', ''RST,602,5,5'', ''FIL,603,15''],
      []),
     ([''# IOC: full fill, partial fill (residue cancelled), no fill at all.'',
       ''ADD,1,BUY,5,100,GTC'', ''ADD,2,SLL,3,100,IOC'', ''ADD,3,SLL,5,100,IOC'',
       ''ADD,4,SLL,10,100,IOC''],
      [''RST,1,0,5'', ''TRD,2,1,3'', ''RST,1,3,2'', ''FIL,2,3'', ''TRD,3,1,2'', ''FIL,1,2'',
       ''CAN,3,2,3,IOC'', ''CAN,4,0,10,IOC''],
      []),
     ([''# FOK kill, FOK fully fillable, duplicate-id and unknown-id rejections.'',
       ''ADD,10,BUY,5,100,GTC'', ''ADD,11,BUY,5,99,GTC'', ''ADD,20,SLL,8,99,FOK'',
       ''ADD,21,SLL,15,99,FOK'', ''ADD,11,BUY,1,100,GTC'', ''CXL,99999''],
      [''RST,10,0,5'', ''RST,11,0,5'', ''TRD,20,10,5'', ''FIL,10,5'', ''TRD,20,11,3'',
       ''RST,11,3,2'', ''FIL,20,8'', ''CAN,21,0,15,FOK'', ''REJ,11,DUP'', ''REJ,99999,UNK''],
      []),
     ([''# GTC partial fill: aggressive residue rests on the book.'',
       ''ADD,801,SLL,3,100,GTC'', ''ADD,802,BUY,5,100,GTC''],
      [''RST,801,0,3'', ''TRD,802,801,3'', ''FIL,801,3'', ''RST,802,3,2''],
      []),
     ([''# Semantic rejects handled by the matcher (parser accepts ill-valued fields).'',
       ''ADD,0,BUY,5,100,GTC'', ''ADD,901,BUY,0,100,GTC'', ''ADD,902,BUY,5,0,GTC''],
      [''REJ,0,IID'', ''REJ,901,IQT'', ''REJ,902,IPR''],
      []),
     ([''# Cancel unknown ids after both orders fully matched.'', ''ADD,1001,BUY,5,100,GTC'',
       ''ADD,1002,SLL,5,100,GTC'', ''CXL,1001'', ''CXL,1002''],
      [''RST,1001,0,5'', ''TRD,1002,1001,5'', ''FIL,1001,5'', ''FIL,1002,5'',
       ''REJ,1001,UNK'', ''REJ,1002,UNK''],
      [])]"

text \<open>
  A test of the model against the repository: on each input it ships the whole path from text to text, parser, pointer-level book and formatter,
  gives exactly the recorded standard output and standard error.
\<close>

lemma golden_samples_reproduced:
  "list_all (\<lambda>(stdin, stdout, stderr).
     sequential_engine (unlines stdin) = Some (unlines stdout, unlines stderr)) golden_samples"
  unfolding sequential_engine_spec by code_simp

end
